(* ===== verification/Base.thy ===== *)
theory Base
  imports Main "HOL-Library.Word" "HOL-Library.Monad_Syntax"
begin

text \<open>
  Prelude of the development: the types and the generic lemmas that the component theories share.

  \<^item> Bytes, C strings and integer widths as the code uses them.
  \<^item> \<open>memcpy\<close>: the only way the code moves bytes. An access outside one of the two
    arrays is undefined behaviour in C; here it is the value \<^const>\<open>None\<close>, so that
    "no out-of-bounds access" is a statement one can prove or refute.
  \<^item> Host and network byte order (\<open>htons\<close>, \<open>htonl\<close>) for the
    little-endian hosts the daemon is built for.
  \<^item> \<open>buf_simps\<close> collects the rewrite rules on buffers.
\<close>

unbundle bit_operations_syntax

named_theorems buf_simps \<open>rewrite rules for byte buffers\<close>

type_synonym byte = "8 word"
type_synonym u16 = "16 word"
type_synonym u32 = "32 word"
type_synonym u64 = "64 word"

text \<open>The frame buffer of every node, \<^verbatim>\<open>ETHERNET_FRAME_LENGTH\<close> of common.h.\<close>

definition ETHERNET_FRAME_LENGTH :: nat where
  "ETHERNET_FRAME_LENGTH = 1522"


subsection \<open>Scanning lists up to an element\<close>

lemma takeWhile_upto [simp]: "d \<notin> set x \<Longrightarrow> takeWhile (\<lambda>c. c \<noteq> d) (x @ d # y) = x"
  by (induction x) auto

lemma dropWhile_upto [simp]: "d \<notin> set x \<Longrightarrow> dropWhile (\<lambda>c. c \<noteq> d) (x @ d # y) = d # y"
  by (induction x) auto

lemma takeWhile_absent [simp]: "d \<notin> set x \<Longrightarrow> takeWhile (\<lambda>c. c \<noteq> d) x = x"
  by (induction x) auto

lemma dropWhile_absent [simp]: "d \<notin> set x \<Longrightarrow> dropWhile (\<lambda>c. c \<noteq> d) x = []"
  by (induction x) auto

lemma dropWhile_other [simp]: "x \<noteq> [] \<Longrightarrow> d \<notin> set x \<Longrightarrow> dropWhile (\<lambda>c. c = d) (x @ y) = x @ y"
  by (cases x) auto


subsection \<open>Positions in a ring\<close>

lemma mod_add_inj:
  fixes a :: nat
  assumes "i < m" "j < m"
  shows "(a + i) mod m = (a + j) mod m \<longleftrightarrow> i = j"
proof -
  have le: "i = j" if "(a + i) mod m = (a + j) mod m" "i \<le> j" "j < m" for i j
  proof -
    from that have "m dvd (a + j) - (a + i)"
      using mod_eq_dvd_iff_nat [of "a + i" "a + j" m] by simp
    then have "m dvd j - i" by simp
    with that show ?thesis
      by (auto dest: dvd_imp_le)
  qed
  show ?thesis
    using le [of i j] le [of j i] assms by (metis nat_le_linear)
qed


subsection \<open>Copying bytes\<close>

definition memcpy :: "'a list \<Rightarrow> nat \<Rightarrow> 'a list \<Rightarrow> nat \<Rightarrow> nat \<Rightarrow> 'a list option" where
  "memcpy dst d src s n =
     (if d + n \<le> length dst \<and> s + n \<le> length src
      then Some (take d dst @ take n (drop s src) @ drop (d + n) dst)
      else None)"

lemma memcpy_Some_iff:
  "memcpy dst d src s n = Some r \<longleftrightarrow>
     d + n \<le> length dst \<and> s + n \<le> length src \<and>
     r = take d dst @ take n (drop s src) @ drop (d + n) dst"
  by (auto simp: memcpy_def)

lemma memcpy_None_iff:
  "memcpy dst d src s n = None \<longleftrightarrow> length dst < d + n \<or> length src < s + n"
  by (auto simp: memcpy_def)

lemma memcpy_length [buf_simps]: "memcpy dst d src s n = Some r \<Longrightarrow> length r = length dst"
  by (auto simp: memcpy_Some_iff)

lemma memcpy_take_prefix:
  "memcpy dst 0 src s n = Some r \<Longrightarrow> take n r = take n (drop s src)"
  by (auto simp: memcpy_Some_iff)

text \<open>Writing a few bytes at a fixed offset, the effect of a copy from a local variable.\<close>

lemma memcpy_full_source:
  "n = length src \<Longrightarrow> d + n \<le> length dst \<Longrightarrow>
     memcpy dst d src 0 n = Some (take d dst @ src @ drop (d + n) dst)"
  by (simp add: memcpy_def)


subsection \<open>Byte order\<close>

text \<open>
  The bytes of an integer in memory on a little-endian host, least significant first, and the
  integer read back from memory.
\<close>

definition bytes16 :: "u16 \<Rightarrow> byte list" where
  "bytes16 w = [ucast w, ucast (drop_bit 8 w)]"

definition bytes32 :: "u32 \<Rightarrow> byte list" where
  "bytes32 w = [ucast w, ucast (drop_bit 8 w), ucast (drop_bit 16 w), ucast (drop_bit 24 w)]"

definition load16 :: "byte \<Rightarrow> byte \<Rightarrow> u16" where
  "load16 b0 b1 = ucast b0 OR push_bit 8 (ucast b1)"

definition load32 :: "byte \<Rightarrow> byte \<Rightarrow> byte \<Rightarrow> byte \<Rightarrow> u32" where
  "load32 b0 b1 b2 b3 =
     ucast b0 OR push_bit 8 (ucast b1) OR push_bit 16 (ucast b2) OR push_bit 24 (ucast b3)"

definition htons :: "u16 \<Rightarrow> u16" where
  "htons w = load16 (ucast (drop_bit 8 w)) (ucast w)"

definition htonl :: "u32 \<Rightarrow> u32" where
  "htonl w = load32 (ucast (drop_bit 24 w)) (ucast (drop_bit 16 w))
     (ucast (drop_bit 8 w)) (ucast w)"

abbreviation ntohs :: "u16 \<Rightarrow> u16" where "ntohs \<equiv> htons"
abbreviation ntohl :: "u32 \<Rightarrow> u32" where "ntohl \<equiv> htonl"

lemma length_bytes [simp]: "length (bytes16 w) = 2" "length (bytes32 v) = 4"
  by (simp_all add: bytes16_def bytes32_def)

lemma byte_bit_high [simp]: "8 \<le> n \<Longrightarrow> \<not> bit (b :: byte) n"
  using bit_imp_le_length [of b n] by auto

lemma bytes16_load16 [simp]: "bytes16 (load16 a b) = [a, b]"
  unfolding bytes16_def load16_def
  by (auto intro!: bit_word_eqI simp: bit_simps)

lemma load16_bytes16 [simp]: "load16 (ucast w) (ucast (drop_bit 8 w)) = w"
  unfolding load16_def
  by (rule bit_word_eqI) (auto simp: bit_simps not_less)

lemma bytes32_load32 [simp]: "bytes32 (load32 a b c d) = [a, b, c, d]"
  unfolding bytes32_def load32_def
  by (auto intro!: bit_word_eqI simp: bit_simps)

lemma load32_bytes32 [simp]:
  "load32 (ucast w) (ucast (drop_bit 8 w)) (ucast (drop_bit 16 w)) (ucast (drop_bit 24 w)) = w"
proof (rule bit_word_eqI)
  fix n
  assume n: "n < LENGTH(32)"
  consider "n < 8" | "8 \<le> n" "n < 16" | "16 \<le> n" "n < 24" | "24 \<le> n" by linarith
  then show "bit (load32 (ucast w) (ucast (drop_bit 8 w)) (ucast (drop_bit 16 w))
      (ucast (drop_bit 24 w))) n \<longleftrightarrow> bit w n"
    using n by cases (auto simp: load32_def bit_simps)
qed

lemma load16_inject [simp]: "load16 a b = load16 c d \<longleftrightarrow> a = c \<and> b = d"
  by (auto dest: arg_cong [of _ _ bytes16])

lemma load32_inject [simp]:
  "load32 a b c d = load32 a' b' c' d' \<longleftrightarrow> a = a' \<and> b = b' \<and> c = c' \<and> d = d'"
  by (auto dest: arg_cong [of _ _ bytes32])

text \<open>Swapping the bytes of a value read from memory reads it the other way round.\<close>

lemma htons_load16 [simp]: "htons (load16 a b) = load16 b a"
  using bytes16_load16 [of a b] by (simp add: htons_def bytes16_def)

lemma htonl_load32 [simp]: "htonl (load32 a b c d) = load32 d c b a"
  using bytes32_load32 [of a b c d] by (simp add: htonl_def bytes32_def)

lemma htons_htons [simp]: "htons (htons w) = w"
  by (subst (2) htons_def) simp

lemma htonl_htonl [simp]: "htonl (htonl w) = w"
  by (subst (2) htonl_def) simp

lemma htonl_inject [simp]: "htonl v = htonl w \<longleftrightarrow> v = w"
  by (metis htonl_htonl)

lemma bytes16_htons:
  "bytes16 (htons w) = [ucast (drop_bit 8 w), ucast w]"
  by (simp add: htons_def)

lemma bytes32_htonl:
  "bytes32 (htonl w) =
     [ucast (drop_bit 24 w), ucast (drop_bit 16 w), ucast (drop_bit 8 w), ucast w]"
  by (simp add: htonl_def)

lemma unat_load16: "unat (load16 a b) = unat a + 256 * unat b"
proof -
  have "load16 a b = ucast a + push_bit 8 (ucast b)"
    unfolding load16_def
    by (rule disjunctive_add [symmetric]) (auto simp: bit_simps dest: bit_imp_le_length)
  moreover have "unat a < 256" "unat b < 256"
    using unsigned_less [of a] unsigned_less [of b] by simp_all
  ultimately show ?thesis
    by (simp add: unat_word_ariths push_bit_eq_mult unsigned_ucast_eq take_bit_nat_eq_self)
qed

lemma unat_load32: "unat (load32 a b c d) = unat a + 256 * unat b + 65536 * unat c + 16777216 * unat d"
proof -
  have "load32 a b c d = ucast a + (push_bit 8 (ucast b) + (push_bit 16 (ucast c) + push_bit 24 (ucast d)))"
    unfolding load32_def
    by (subst disjunctive_add, auto simp: bit_simps)+
  moreover have "unat a < 256" "unat b < 256" "unat c < 256" "unat d < 256"
    using unsigned_less [of a] unsigned_less [of b] unsigned_less [of c] unsigned_less [of d] by simp_all
  ultimately show ?thesis
    by (simp add: unat_word_ariths push_bit_eq_mult unsigned_ucast_eq take_bit_nat_eq_self)
qed

end
