(* ===== verification/C_Lib.thy ===== *)
theory C_Lib
  imports Base
begin

text \<open>
  The functions of the C library that the configuration parser and the nodes call, on strings
  given as character lists: \<open>strlen\<close>, \<open>strtol\<close> (base 10), \<open>strtok_r\<close>
  (one delimiter), \<open>inet_aton\<close> (with the \<open>strtoul\<close> of base 0 that reads its
  numbers), \<open>fgets\<close> on a stream, and \<open>strncpy\<close> into a fixed array.
  A C string in an array is the part of the array before its first NUL (\<open>cstr\<close>).
  The character classes are those of the C locale, which the daemon never changes.
\<close>

subsection \<open>Strings in arrays\<close>

abbreviation NUL :: char where "NUL \<equiv> CHR 0x00"
abbreviation newline :: char where "newline \<equiv> CHR 0x0A"
abbreviation tab :: char where "tab \<equiv> CHR 0x09"
abbreviation blank :: char where "blank \<equiv> CHR 0x20"

definition cstr :: "string \<Rightarrow> string" where
  "cstr s = takeWhile (\<lambda>c. c \<noteq> NUL) s"

definition strlen :: "string \<Rightarrow> nat" where
  "strlen s = length (cstr s)"

lemma cstr_idem [simp]: "NUL \<notin> set s \<Longrightarrow> cstr s = s"
  by (simp add: cstr_def)

lemma cstr_append_NUL: "NUL \<notin> set s \<Longrightarrow> cstr (s @ NUL # t) = s"
  by (simp add: cstr_def takeWhile_tail)

lemma NUL_notin_cstr [simp]: "NUL \<notin> set (cstr s)"
  by (auto simp: cstr_def dest: set_takeWhileD)

lemma strlen_le_length: "strlen s \<le> length s"
  by (simp add: strlen_def cstr_def length_takeWhile_le)

text \<open>\<^verbatim>\<open>strncpy(dst, src, n)\<close> into an array of \<open>n\<close> bytes: padded with NULs.\<close>

definition strncpy :: "string \<Rightarrow> nat \<Rightarrow> string" where
  "strncpy src n = take n (cstr src) @ replicate (n - strlen src) NUL"

lemma length_strncpy [simp]: "length (strncpy src n) = n"
  by (simp add: strncpy_def strlen_def)


subsection \<open>Numbers\<close>

definition isspace :: "char \<Rightarrow> bool" where
  "isspace c \<longleftrightarrow> c = blank \<or> (9 \<le> (of_char c :: nat) \<and> (of_char c :: nat) \<le> 13)"

text \<open>The value of a digit in the bases up to 16; 16 for every other character.\<close>

definition digit_value :: "char \<Rightarrow> nat" where
  "digit_value c =
     (let n = of_char c in
      if 48 \<le> n \<and> n \<le> 57 then n - 48
      else if 97 \<le> n \<and> n \<le> 102 then n - 87
      else if 65 \<le> n \<and> n \<le> 70 then n - 55
      else 16)"

definition is_digit :: "nat \<Rightarrow> char \<Rightarrow> bool" where
  "is_digit base c \<longleftrightarrow> digit_value c < base"

abbreviation isdigit :: "char \<Rightarrow> bool" where "isdigit \<equiv> is_digit 10"

definition digits_value :: "nat \<Rightarrow> string \<Rightarrow> nat" where
  "digits_value base s = foldl (\<lambda>a c. base * a + digit_value c) 0 s"

definition LONG_MAX :: int where "LONG_MAX = 2 ^ 63 - 1"
definition LONG_MIN :: int where "LONG_MIN = - (2 ^ 63)"

text \<open>
  \<^verbatim>\<open>strtol(s, &end, 10)\<close>: the value, the rest of the string at \<open>end\<close>
  (the whole string when there are no digits) and whether \<open>errno\<close> is \<open>ERANGE\<close>.
\<close>

definition strtol10 :: "string \<Rightarrow> int \<times> string \<times> bool" where
  "strtol10 s =
     (let t = dropWhile isspace s;
          neg = (t \<noteq> [] \<and> hd t = CHR ''-'');
          u = (if t \<noteq> [] \<and> (hd t = CHR ''-'' \<or> hd t = CHR ''+'') then tl t else t);
          ds = takeWhile isdigit u;
          v = (if neg then - int (digits_value 10 ds) else int (digits_value 10 ds))
      in if ds = [] then (0, s, False)
         else if v > LONG_MAX then (LONG_MAX, dropWhile isdigit u, True)
         else if v < LONG_MIN then (LONG_MIN, dropWhile isdigit u, True)
         else (v, dropWhile isdigit u, False))"

text \<open>
  \<^verbatim>\<open>strtoul(s, &end, 0)\<close> on a string that starts with a digit: \<open>0x\<close>
  before a hexadecimal digit means base 16, another leading \<open>0\<close> base 8. The value is
  not cut off at \<open>ULONG_MAX\<close>: the caller rejects every value above \<open>0xffffffff\<close>.
\<close>

definition strtoul_base :: "string \<Rightarrow> nat" where
  "strtoul_base s =
     (if s = [] \<or> hd s \<noteq> CHR ''0'' then 10
      else if 2 < length s \<and> (s ! 1 = CHR ''x'' \<or> s ! 1 = CHR ''X'') \<and> is_digit 16 (s ! 2) then 16
      else 8)"

definition strtoul0 :: "string \<Rightarrow> nat \<times> string" where
  "strtoul0 s =
     (let b = strtoul_base s; t = (if b = 16 then drop 2 s else s)
      in (digits_value b (takeWhile (is_digit b) t), dropWhile (is_digit b) t))"


subsection \<open>Internet addresses\<close>

text \<open>
  \<open>inet_aton\<close>: \<open>a.b.c.d\<close>, \<open>a.b.c\<close>, \<open>a.b\<close> or \<open>a\<close>,
  the last number filling the bytes that are left; what follows the address must be the end of
  the string or white space. \<open>dots\<close> is how many more dots may come and \<open>acc\<close>
  the address built so far, as a number.
  The result is in network byte order, \<^const>\<open>None\<close> the return value 0.
\<close>

fun inet_aton_parts :: "nat \<Rightarrow> nat \<Rightarrow> string \<Rightarrow> u32 option" where
  "inet_aton_parts dots acc s =
     (if s = [] \<or> \<not> isdigit (hd s) then None
      else let (v, rest) = strtoul0 s in
        if v > 0xffffffff then None
        else if rest \<noteq> [] \<and> hd rest = CHR ''.'' then
          (case dots of
             0 \<Rightarrow> None
           | Suc d \<Rightarrow> if v > 255 then None
                      else inet_aton_parts d (acc + v * 256 ^ dots) (tl rest))
        else if rest \<noteq> [] \<and> \<not> isspace (hd rest) then None
        else if v \<ge> 256 ^ (dots + 1) then None
        else Some (htonl (of_nat (acc + v))))"

declare inet_aton_parts.simps [simp del]

definition inet_aton :: "string \<Rightarrow> u32 option" where
  "inet_aton s = inet_aton_parts 3 0 s"


subsection \<open>Tokens\<close>

text \<open>
  \<^verbatim>\<open>strtok_r\<close> with the delimiter \<open>d\<close>, on the string at the scan position:
  the token and the new scan position, \<^const>\<open>None\<close> when no token is left.
\<close>

definition strtok_r :: "char \<Rightarrow> string \<Rightarrow> (string \<times> string) option" where
  "strtok_r d s =
     (let t = dropWhile (\<lambda>c. c = d) s
      in if t = [] then None
         else Some (takeWhile (\<lambda>c. c \<noteq> d) t, drop 1 (dropWhile (\<lambda>c. c \<noteq> d) t)))"

lemma strtok_r_first:
  "x \<noteq> [] \<Longrightarrow> d \<notin> set x \<Longrightarrow> strtok_r d (x @ d # y) = Some (x, y)"
  by (simp add: strtok_r_def)

lemma strtok_r_last: "x \<noteq> [] \<Longrightarrow> d \<notin> set x \<Longrightarrow> strtok_r d x = Some (x, [])"
  using dropWhile_other [of x d "[]"] by (simp add: strtok_r_def)


subsection \<open>Streams\<close>

text \<open>
  A stream opened for reading: the characters still to come and what is at their end, the end
  of the file or a read error; and whether \<open>fclose\<close> will succeed.
\<close>

record FILE =
  f_data :: string
  f_error :: bool
  f_close_ok :: bool

text \<open>What \<open>fgets\<close> stores for a buffer of \<open>k + 1\<close> bytes.\<close>

fun get_line :: "nat \<Rightarrow> string \<Rightarrow> string" where
  "get_line 0 s = []"
| "get_line (Suc k) [] = []"
| "get_line (Suc k) (c # s) = (if c = newline then [c] else c # get_line k s)"

text \<open>
  \<^verbatim>\<open>fgets(buf, size, f)\<close>: \<^const>\<open>None\<close> is the null pointer. Reading stops at
  a newline, when the buffer is full, or at the end of the data; only in the last case does the
  end (file or error) come to light, and an error makes the call fail.
\<close>

definition hits_end :: "nat \<Rightarrow> string \<Rightarrow> bool" where
  "hits_end k s \<longleftrightarrow> length s < k \<and> newline \<notin> set s"

definition fgets :: "nat \<Rightarrow> FILE \<Rightarrow> string option \<times> FILE" where
  "fgets bufsize f =
     (let k = bufsize - 1; l = get_line k (f_data f);
          f' = f\<lparr>f_data := drop (length l) (f_data f)\<rparr>
      in if hits_end k (f_data f) \<and> (f_error f \<or> l = []) then (None, f') else (Some l, f'))"

lemma get_line_prefix: "get_line k s = take (length (get_line k s)) s"
  by (induction k s rule: get_line.induct) auto

lemma length_get_line: "length (get_line k s) \<le> k"
  by (induction k s rule: get_line.induct) auto

lemma get_line_Nil_iff [simp]: "get_line k s = [] \<longleftrightarrow> k = 0 \<or> s = []"
  by (cases "(k, s)" rule: get_line.cases) auto

lemma get_line_newline:
  "newline \<notin> set l \<Longrightarrow> length l < k \<Longrightarrow> get_line k (l @ newline # s) = l @ [newline]"
proof (induction l arbitrary: k)
  case Nil
  then show ?case by (cases k) auto
next
  case (Cons c l)
  then show ?case by (cases k) auto
qed

lemma fgets_Some_nonempty:
  assumes "fgets bufsize f = (Some l, f')" "1 < bufsize"
  shows "l \<noteq> [] \<and> f_data f = l @ f_data f'"
proof -
  from assms have l: "l = get_line (bufsize - 1) (f_data f)"
    and f': "f_data f' = drop (length l) (f_data f)"
    and ne: "\<not> (hits_end (bufsize - 1) (f_data f) \<and> l = [])"
    by (auto simp: fgets_def Let_def split: if_splits)
  have "f_data f = l @ f_data f'"
    using get_line_prefix [of "bufsize - 1" "f_data f"] l f'
    by (metis append_take_drop_id)
  moreover have "l \<noteq> []"
    using l ne assms(2) by (auto simp: hits_end_def)
  ultimately show ?thesis by simp
qed

lemma fgets_decreases:
  "fgets bufsize f = (Some l, f') \<Longrightarrow> 1 < bufsize \<Longrightarrow> length (f_data f') < length (f_data f)"
  using fgets_Some_nonempty by fastforce

lemma fgets_line:
  assumes "f_data f = l @ newline # s" "newline \<notin> set l" "length l + 2 \<le> bufsize"
  shows "fgets bufsize f = (Some (l @ [newline]), f\<lparr>f_data := s\<rparr>)"
proof -
  have "get_line (bufsize - 1) (f_data f) = l @ [newline]"
    using assms by (simp add: get_line_newline)
  then show ?thesis
    using assms by (simp add: fgets_def hits_end_def Let_def)
qed

lemma fgets_eof:
  "f_data f = [] \<Longrightarrow> 1 < bufsize \<Longrightarrow> fgets bufsize f = (None, f)"
  by (cases f) (simp add: fgets_def hits_end_def Let_def)

subsection \<open>Printing numbers\<close>

text \<open>
  The conversions of printf that the program uses: \<open>dec\<close> for unsigned numbers,
  \<open>show_int\<close> for signed ones, \<open>show_ip\<close> is \<open>inet_ntop\<close> for an address in host
  order.
\<close>

fun dec :: "nat \<Rightarrow> string" where
  "dec n = (if n < 10 then [char_of (48 + n)] else dec (n div 10) @ [char_of (48 + n mod 10)])"

declare dec.simps [simp del]

lemma digit_value_digit: "d < 10 \<Longrightarrow> digit_value (char_of (48 + d)) = d"
  by (simp add: digit_value_def)

lemma isdigit_dec: "\<forall>c\<in>set (dec n). isdigit c"
proof (induction n rule: dec.induct)
  case (1 n)
  then show ?case
    by (subst dec.simps) (auto simp: is_digit_def digit_value_digit)
qed

lemma dec_nonempty [simp]: "dec n \<noteq> []" "[] \<noteq> dec n"
  by (subst dec.simps, simp)+

lemma digits_value_snoc: "digits_value b (s @ [c]) = b * digits_value b s + digit_value c"
  by (simp add: digits_value_def)

lemma digits_value_dec: "digits_value 10 (dec n) = n"
proof (induction n rule: dec.induct)
  case (1 n)
  show ?case
  proof (cases "n < 10")
    case True
    then show ?thesis
      by (subst dec.simps) (simp add: digits_value_def digit_value_digit)
  next
    case False
    then show ?thesis
      using 1 by (subst dec.simps) (simp add: digits_value_snoc digit_value_digit)
  qed
qed

lemma hd_dec: "0 < n \<Longrightarrow> hd (dec n) \<noteq> CHR ''0''"
proof (induction n rule: dec.induct)
  case (1 n)
  show ?case
  proof (cases "n < 10")
    case True
    have "digit_value (char_of (48 + n)) \<noteq> digit_value CHR ''0''"
      using True "1.prems" digit_value_digit [of n] by (simp add: digit_value_def)
    then show ?thesis using True by (subst dec.simps) auto
  next
    case False
    then have "hd (dec (n div 10)) \<noteq> CHR ''0''" using 1 by simp
    then show ?thesis using False by (subst dec.simps) simp
  qed
qed

lemma dec_0: "dec 0 = ''0''"
  by code_simp

lemma length_dec: "n < 10 ^ Suc k \<Longrightarrow> length (dec n) \<le> Suc k"
proof (induction k arbitrary: n)
  case 0
  then show ?case by (subst dec.simps) simp
next
  case (Suc k)
  then have "length (dec (n div 10)) \<le> Suc k" by (intro Suc.IH) (simp add: div_less_iff_less_mult mult.commute)
  then show ?case by (subst dec.simps) simp
qed

definition show_ip :: "u32 \<Rightarrow> string" where
  "show_ip w =
     dec (unat (ucast (drop_bit 24 w) :: byte)) @ CHR ''.'' #
     dec (unat (ucast (drop_bit 16 w) :: byte)) @ CHR ''.'' #
     dec (unat (ucast (drop_bit 8 w) :: byte)) @ CHR ''.'' #
     dec (unat (ucast w :: byte))"

definition show_int :: "int \<Rightarrow> string" where
  "show_int i = (if i < 0 then CHR ''-'' # dec (nat (- i)) else dec (nat i))"

end
