(* ===== verification/Logger.thy ===== *)
theory Logger
  imports C_Lib
begin

text \<open>
  The log file, logger/logger.c. The module keeps two global variables, the stream of the log file
  and a mutex; a message is written by five calls of \<open>fputs\<close> and \<open>fputc\<close> while the
  mutex is held. What the C library decides is an argument: the clock, and for every write
  whether it fails and how many characters it had put out by then.

  The lemmas say what one call appends to the file, that no failing path keeps the mutex, and that
  a call made while the mutex is held (the signal handler of main.c makes such calls) never
  returns.
\<close>

datatype Type_e = INFO | ERROR | WARNING
datatype Sender_e = INITIATOR | PARSER | SNIFFER | TAGGER | SENDER

definition TIME_BUF_SIZE :: nat where "TIME_BUF_SIZE = 80"
definition USR_MSG_SIZE :: nat where "USR_MSG_SIZE = 8192"

text \<open>The globals: \<^const>\<open>None\<close> is the null stream.\<close>

record Logger =
  l_file :: "string option"
  l_locked :: bool

subsection \<open>Opening and closing\<close>

text \<open>
  \<open>fopen\<close> in mode \<^verbatim>\<open>"a"\<close> either fails or gives a stream positioned after the old
  text of the file.
\<close>

definition start_log :: "string option \<Rightarrow> bool \<Rightarrow> Logger \<Rightarrow> int \<times> Logger" where
  "start_log fopen_result mutex_ok L =
     (case fopen_result of
        None \<Rightarrow> (-1, L\<lparr>l_file := None\<rparr>)
      | Some old \<Rightarrow>
          (if \<not> mutex_ok then (-1, L\<lparr>l_file := Some old\<rparr>)
           else (0, L\<lparr>l_file := Some old, l_locked := False\<rparr>)))"

definition stop_log :: "bool \<Rightarrow> bool \<Rightarrow> int" where
  "stop_log close_ok mutex_ok = (if \<not> close_ok then -1 else if \<not> mutex_ok then -1 else 0)"

subsection \<open>The time\<close>

record tm =
  tm_mday :: nat
  tm_mon :: nat      \<comment> \<open>from 0\<close>
  tm_year :: int     \<comment> \<open>since 1900\<close>
  tm_hour :: nat
  tm_min :: nat
  tm_sec :: nat

definition dec2 :: "nat \<Rightarrow> string" where
  "dec2 n = (if n < 10 then CHR ''0'' # dec n else dec n)"

definition time_text :: "tm \<Rightarrow> string" where
  "time_text t =
     dec2 (tm_mday t) @ CHR ''.'' # dec2 (tm_mon t + 1) @ CHR ''.'' # show_int (tm_year t + 1900)
     @ CHR '' '' # dec2 (tm_hour t) @ CHR '':'' # dec2 (tm_min t) @ CHR '':'' # dec2 (tm_sec t)"

text \<open>\<open>strftime\<close> returns 0 when the text and its NUL do not fit.\<close>

definition strftime :: "nat \<Rightarrow> tm \<Rightarrow> string option" where
  "strftime room t = (if length (time_text t) < room then Some (time_text t) else None)"

definition get_time :: "int option \<Rightarrow> (int \<Rightarrow> tm option) \<Rightarrow> string option" where
  "get_time now localtime =
     (case now of
        None \<Rightarrow> None
      | Some current \<Rightarrow>
          (case localtime current of
             None \<Rightarrow> None
           | Some time_info \<Rightarrow> strftime TIME_BUF_SIZE time_info))"

subsection \<open>Writing a message\<close>

text \<open>
  The stream during a call: what the next writes do (\<^term>\<open>Some k\<close>: the write fails after
  \<open>k\<close> characters; an exhausted list or \<^const>\<open>None\<close>: it succeeds) and its text.
\<close>

type_synonym stream = "nat option list \<times> string"

fun fputs :: "string \<Rightarrow> stream \<Rightarrow> bool \<times> stream" where
  "fputs s ([], f) = (True, [], f @ s)"
| "fputs s (None # ws, f) = (True, ws, f @ s)"
| "fputs s (Some k # ws, f) = (False, ws, f @ take k s)"

datatype log_result =
    Log_ret int Logger
  | Log_deadlock        \<comment> \<open>waits for ever on the mutex\<close>
  | Log_crash           \<comment> \<open>writes to the null stream\<close>

definition unlock :: "Logger \<Rightarrow> string \<Rightarrow> Logger" where
  "unlock L f = L\<lparr>l_file := Some f, l_locked := False\<rparr>"

fun type_text :: "Type_e \<Rightarrow> string" where
  "type_text INFO = tab # ''[INFO]'' @ [tab]"
| "type_text WARNING = tab # ''[WARN]'' @ [tab]"
| "type_text ERROR = tab # ''[ERR] '' @ [tab]"

fun sender_text :: "Sender_e \<Rightarrow> string" where
  "sender_text INITIATOR = ''INIT: ''"
| "sender_text PARSER = ''PARS: ''"
| "sender_text SNIFFER = ''SNIF: ''"
| "sender_text TAGGER = ''TAGG: ''"
| "sender_text SENDER = ''SEND: ''"

text \<open>
  \<open>printL\<close>; \<open>message\<close> is the format after the replacement of its arguments, the text
  that \<open>vsnprintf\<close> measures and of which it stores at most 8191 characters.
\<close>

definition printL :: "Type_e \<Rightarrow> Sender_e \<Rightarrow> string option \<Rightarrow> string option \<Rightarrow> nat option list
    \<Rightarrow> Logger \<Rightarrow> log_result" where
  "printL msg_type sender message time writes L =
     (case message of
        None \<Rightarrow> Log_ret (-1) L
      | Some text \<Rightarrow>
          (let buffer = cstr (take (USR_MSG_SIZE - 1) text);
               returned_val = int (length text)
           in case time of
                None \<Rightarrow> Log_ret (-2) L
              | Some time_buff \<Rightarrow>
                  (if l_locked L then Log_deadlock
                   else case l_file L of
                     None \<Rightarrow> Log_crash
                   | Some f \<Rightarrow>
                       (let (ok, ws, f) = fputs time_buff (writes, f) in
                        if \<not> ok then Log_ret (-3) (unlock L f)
                        else let returned_val = returned_val + int (strlen time_buff);
                                 (ok, ws, f) = fputs (type_text msg_type) (ws, f) in
                        if \<not> ok then Log_ret (-3) (unlock L f)
                        else let returned_val = returned_val + 8;
                                 (ok, ws, f) = fputs (sender_text sender) (ws, f) in
                        if \<not> ok then Log_ret (-3) (unlock L f)
                        else let returned_val = returned_val + 6;
                                 (ok, ws, f) = fputs buffer (ws, f) in
                        if \<not> ok then Log_ret (-3) (unlock L f)
                        else let (ok, ws, f) = fputs [newline] (ws, f) in
                        if \<not> ok then Log_ret (-3) (unlock L f)
                        else Log_ret (returned_val + 1) (unlock L f)))))"

subsection \<open>What a message looks like in the file\<close>

definition log_line :: "string \<Rightarrow> Type_e \<Rightarrow> Sender_e \<Rightarrow> string \<Rightarrow> string" where
  "log_line time ty se text =
     time @ type_text ty @ sender_text se @ take (USR_MSG_SIZE - 1) text @ [newline]"

lemma tag_lengths [simp]: "length (type_text ty) = 8" "length (sender_text se) = 6"
  by (cases ty; simp) (cases se; simp)

lemma fputs_ok: "(\<forall>w\<in>set ws. w = None) \<Longrightarrow>
    \<exists>ws'. fputs s (ws, f) = (True, ws', f @ s) \<and> (\<forall>w\<in>set ws'. w = None)"
  by (cases "(s, ws, f)" rule: fputs.cases) auto

lemma fputs_prefix: "fputs s (ws, f) = (ok, ws', f') \<Longrightarrow> \<exists>n. f' = f @ take n s \<and> (ok \<longrightarrow> n = length s)"
  by (cases "(s, ws, f)" rule: fputs.cases) auto

lemma NUL_notin_dec [simp]: "NUL \<notin> set (dec n)"
  using isdigit_dec [of n] by (auto simp: is_digit_def digit_value_def)

lemma NUL_notin_time_text: "NUL \<notin> set (time_text t)"
  by (auto simp: time_text_def dec2_def show_int_def)

lemma get_time_text: "get_time now localtime = Some s \<Longrightarrow> NUL \<notin> set s \<and> length s < 80"
  using NUL_notin_time_text
  by (auto simp: get_time_def strftime_def TIME_BUF_SIZE_def split: option.splits if_splits)

lemma printL_cases:
  assumes "printL ty se (Some text) (Some time) ws \<lparr>l_file = Some f, l_locked = False\<rparr> = Log_ret r L'"
    and "NUL \<notin> set text" "NUL \<notin> set time"
  shows "(\<exists>n. L' = \<lparr>l_file = Some (f @ take n (log_line time ty se text)), l_locked = False\<rparr> \<and>
      (r = -3 \<or>
       r = int (length (log_line time ty se text) + (length text - 8191)) \<and> length (log_line time ty se text) \<le> n))"
proof -
  have [simp]: "NUL \<notin> set (take n text)" for n using assms(2) by (auto dest: in_set_takeD)
  define b where b: "b = take (USR_MSG_SIZE - Suc 0) text"
  have [simp]: "cstr b = b" by (simp add: b)
  have len: "length text = length b + (length text - 8191)" by (simp add: b USR_MSG_SIZE_def)
  obtain o1 w1 f1 where e1: "fputs time (ws, f) = (o1, w1, f1)" by (cases "fputs time (ws, f)") auto
  obtain o2 w2 f2 where e2: "fputs (type_text ty) (w1, f1) = (o2, w2, f2)" by (cases "fputs (type_text ty) (w1, f1)") auto
  obtain o3 w3 f3 where e3: "fputs (sender_text se) (w2, f2) = (o3, w3, f3)" by (cases "fputs (sender_text se) (w2, f2)") auto
  obtain o4 w4 f4 where e4: "fputs b (w3, f3) = (o4, w4, f4)" by (cases "fputs b (w3, f3)") auto
  obtain o5 w5 f5 where e5: "fputs [newline] (w4, f4) = (o5, w5, f5)" by (cases "fputs [newline] (w4, f4)") auto
  note p = fputs_prefix [OF e1] fputs_prefix [OF e2] fputs_prefix [OF e3] fputs_prefix [OF e4] fputs_prefix [OF e5]
  note u = assms(1) [simplified printL_def Let_def, simplified, folded b]
  let ?l = "log_line time ty se text"
  have l: "?l = time @ type_text ty @ sender_text se @ b @ [newline]" by (simp add: log_line_def b)
  consider "\<not> o1" | "o1" "\<not> o2" | "o1" "o2" "\<not> o3" | "o1" "o2" "o3" "\<not> o4"
    | "o1" "o2" "o3" "o4" "\<not> o5" | "o1" "o2" "o3" "o4" "o5" by blast
  then show ?thesis
  proof cases
    case 1
    obtain n where "f1 = f @ take n time" using p(1) by blast
    then show ?thesis using 1 u
      by (intro exI [of _ "min n (length time)"]) (auto simp: unlock_def e1 l min_def)
  next
    case 2
    then obtain n where "f2 = f @ time @ take n (type_text ty)" using p(1,2) by auto
    then show ?thesis using 2 u
      by (intro exI [of _ "length time + min n 8"]) (auto simp: unlock_def min_def b [symmetric] e1 e2 l)
  next
    case 3
    then obtain n where "f3 = f @ time @ type_text ty @ take n (sender_text se)" using p(1,2,3) by auto
    then show ?thesis using 3 u
      by (intro exI [of _ "length time + 8 + min n 6"]) (auto simp: unlock_def min_def b [symmetric] e1 e2 e3 l)
  next
    case 4
    then obtain n where "f4 = f @ time @ type_text ty @ sender_text se @ take n b" using p(1-4) by auto
    then show ?thesis using 4 u
      by (intro exI [of _ "length time + 14 + min n (length b)"]) (auto simp: unlock_def min_def b [symmetric] e1 e2 e3 e4 l)
  next
    case 5
    then obtain n where "f5 = f @ time @ type_text ty @ sender_text se @ b @ take n [newline]" using p by auto
    then show ?thesis using 5 u
      by (intro exI [of _ "length time + 14 + length b + min n 1"]) (auto simp: unlock_def min_def b [symmetric] e1 e2 e3 e4 e5 l)
  next
    case 6
    then have "f5 = f @ ?l" using p by (auto simp: l)
    then show ?thesis using 6 u len assms(3)
      by (intro exI [of _ "length ?l"]) (auto simp: unlock_def min_def b [symmetric] e1 e2 e3 e4 e5 l strlen_def)
  qed
qed

lemma printL_file:
  assumes "\<forall>w\<in>set ws. w = None" "NUL \<notin> set text"
  shows "\<exists>r L'. printL ty se (Some text) (Some time) ws \<lparr>l_file = Some f, l_locked = False\<rparr> = Log_ret r L' \<and> r \<noteq> -3"
proof -
  obtain w1 where w1: "fputs time (ws, f) = (True, w1, f @ time)" "\<forall>w\<in>set w1. w = None"
    using fputs_ok [OF assms(1)] by blast
  obtain w2 where w2: "fputs (type_text ty) (w1, f @ time) = (True, w2, (f @ time) @ type_text ty)" "\<forall>w\<in>set w2. w = None"
    using fputs_ok [OF w1(2)] by blast
  obtain w3 where w3: "fputs (sender_text se) (w2, (f @ time) @ type_text ty) =
      (True, w3, ((f @ time) @ type_text ty) @ sender_text se)" "\<forall>w\<in>set w3. w = None"
    using fputs_ok [OF w2(2)] by blast
  define b where b: "b = cstr (take (USR_MSG_SIZE - Suc 0) text)"
  obtain w4 where w4: "fputs b (w3, ((f @ time) @ type_text ty) @ sender_text se) =
      (True, w4, (((f @ time) @ type_text ty) @ sender_text se) @ b)" "\<forall>w\<in>set w4. w = None"
    using fputs_ok [OF w3(2)] by blast
  obtain w5 where w5: "fputs [newline] (w4, (((f @ time) @ type_text ty) @ sender_text se) @ b) =
      (True, w5, ((((f @ time) @ type_text ty) @ sender_text se) @ b) @ [newline])"
    using fputs_ok [OF w4(2)] by blast
  show ?thesis
    by (simp add: printL_def Let_def b [symmetric] w1 w2 w3 w4 w5 del: append_assoc)
qed


subsection \<open>Properties of the log\<close>

text \<open>
  C36: With the log open and nobody writing, a message whose writes succeed is appended to the file
  as one line (time, level, module, the first 8191 characters of the text, newline), nothing else
  in the file changes, and the mutex is free again. The result is the number of characters of the
  whole message: what was written, plus the characters beyond the 8191 that fit in the buffer.
\<close>

theorem printL_appends_line:
  assumes "get_time now localtime = Some time" "NUL \<notin> set text" "\<forall>w\<in>set ws. w = None"
  shows "printL ty se (Some text) (get_time now localtime) ws \<lparr>l_file = Some f, l_locked = False\<rparr> =
    Log_ret (int (length (log_line time ty se text) + (length text - 8191)))
      \<lparr>l_file = Some (f @ log_line time ty se text), l_locked = False\<rparr>"
proof -
  obtain r L' where p: "printL ty se (Some text) (Some time) ws \<lparr>l_file = Some f, l_locked = False\<rparr> = Log_ret r L'" "r \<noteq> -3"
    using printL_file [OF assms(3,2)] by blast
  then show ?thesis
    using printL_cases [OF p(1) assms(2)] get_time_text [OF assms(1)] assms(1) by auto
qed


text \<open>
  A call made while the mutex is held never returns: this is what happens to the signal
  handler of the daemon when the signal arrives while its own thread is inside \<open>printL\<close>.
  With the mutex free and the log open it always returns.
\<close>

theorem printL_deadlock_iff:
  "(printL ty se (Some text) (Some time) ws L = Log_deadlock \<longleftrightarrow> l_locked L) \<and>
   (printL ty se (Some text) (Some time) ws L = Log_crash \<longleftrightarrow> \<not> l_locked L \<and> l_file L = None)"
  by (auto simp: printL_def Let_def split: option.splits prod.splits)


definition example_tm :: tm where
  "example_tm = \<lparr>tm_mday = 13, tm_mon = 11, tm_year = 125, tm_hour = 9, tm_min = 5, tm_sec = 0\<rparr>"

lemma example_time: "get_time (Some 1765616700) (\<lambda>_. Some example_tm) = Some ''13.12.2025 09:05:00''"
  by code_simp

lemma printL_appends_line_witness:
  "printL INFO INITIATOR (Some ''hello world'') (get_time (Some 1765616700) (\<lambda>_. Some example_tm)) []
     \<lparr>l_file = Some ''old'', l_locked = False\<rparr> =
   Log_ret 45 \<lparr>l_file = Some (''old13.12.2025 09:05:00'' @ [tab] @ ''[INFO]'' @ [tab] @ ''INIT: hello world'' @ [newline]),
     l_locked = False\<rparr>"
  using printL_appends_line [OF example_time, of "''hello world''" "[]" INFO INITIATOR "''old''"]
  by (simp add: log_line_def USR_MSG_SIZE_def)


end
