(* ===== verification/Packet_Queue.thy ===== *)
theory Packet_Queue
  imports Base
begin

text \<open>
  The packet queue between two nodes, queue/queue.c: a ring of \<open>Q_SIZE\<close> slots in which a
  slot is free exactly when its entry in \<open>sizes\<close> is 0. The operations run under the mutex
  of the queue, so each is one atomic function of the queue; \<open>pop\<close> gives the mutex up
  while it waits on the condition, so it takes the list of its wake-ups, each the result of
  \<open>pthread_cond_wait\<close> and the queue it finds then.
  The queue library is compiled without \<^verbatim>\<open>DEBUG\<close> (CMakeLists.txt defines it for the
  executable alone), so the null checks under that macro are not part of the code.

  \<open>queue_inv\<close> is the representation invariant, \<open>content\<close> the list of packets that a
  ring stands for. The locale \<open>fifo\<close> is the contract its clients rely on; the
  interpretation at the end proves it for the ring.
\<close>

definition Q_SIZE :: nat where "Q_SIZE = 1000"
definition MAX_PKG_SIZE :: nat where "MAX_PKG_SIZE = 1522"

record Queue_t =
  q_slots :: "byte list list"
  q_sizes :: "u16 list"
  q_front :: u16
  q_rear :: u16

subsection \<open>Operations\<close>

definition next_pos :: "u16 \<Rightarrow> u16" where
  "next_pos num = (if unat num = Q_SIZE - 1 then 0 else num + 1)"

text \<open>
  \<open>init\<close> gets the results of the two \<open>pthread\<close> initialisations; memory that it does
  not write keeps what it held.
\<close>

definition queue_init :: "bool \<Rightarrow> bool \<Rightarrow> Queue_t \<Rightarrow> int \<times> Queue_t" where
  "queue_init mutex_ok cond_ok q =
     (if \<not> mutex_ok then (-1, q)
      else if \<not> cond_ok then (-1, q)
      else (0, q\<lparr>q_front := 0, q_rear := 0, q_sizes := replicate Q_SIZE 0\<rparr>))"

definition is_full :: "Queue_t \<Rightarrow> bool" where
  "is_full q \<longleftrightarrow> q_sizes q ! unat (q_rear q) \<noteq> 0"

definition is_empty :: "Queue_t \<Rightarrow> bool" where
  "is_empty q \<longleftrightarrow> q_sizes q ! unat (q_front q) = 0"

text \<open>\<^const>\<open>None\<close>: a copy outside the source buffer or the slot.\<close>

definition push :: "Queue_t \<Rightarrow> byte list \<Rightarrow> u16 \<Rightarrow> (int \<times> Queue_t) option" where
  "push q buf len =
     (if unat len > MAX_PKG_SIZE then Some (-1, q)
      else if len = 0 then Some (0, q)
      else if is_full q then Some (0, q)
      else do {
        slot \<leftarrow> memcpy (q_slots q ! unat (q_rear q)) 0 buf 0 (unat len);
        Some (int (unat len),
          q\<lparr>q_slots := (q_slots q)[unat (q_rear q) := slot],
            q_sizes := (q_sizes q)[unat (q_rear q) := len],
            q_rear := next_pos (q_rear q)\<rparr>)
      })"

definition remove_front :: "Queue_t \<Rightarrow> Queue_t" where
  "remove_front q =
     (if is_empty q then q
      else q\<lparr>q_sizes := (q_sizes q)[unat (q_front q) := 0], q_front := next_pos (q_front q)\<rparr>)"

datatype pop_result =
    Pop_blocked                           \<comment> \<open>still waiting on the condition\<close>
  | Pop_fault                             \<comment> \<open>a copy outside the caller's buffer\<close>
  | Pop_ret int "byte list" Queue_t       \<comment> \<open>result, the caller's buffer, the queue\<close>

definition pop_now :: "Queue_t \<Rightarrow> byte list \<Rightarrow> pop_result" where
  "pop_now q buff =
     (case memcpy buff 0 (q_slots q ! unat (q_front q)) 0 (unat (q_sizes q ! unat (q_front q))) of
        None \<Rightarrow> Pop_fault
      | Some buff' \<Rightarrow>
          Pop_ret (int (unat (q_sizes q ! unat (q_front q)))) buff'
            (q\<lparr>q_sizes := (q_sizes q)[unat (q_front q) := 0], q_front := next_pos (q_front q)\<rparr>))"

fun pop :: "Queue_t \<Rightarrow> byte list \<Rightarrow> (int \<times> Queue_t) list \<Rightarrow> pop_result" where
  "pop q buff wakeups =
     (if is_empty q then
        (case wakeups of
           [] \<Rightarrow> Pop_blocked
         | (rc, q') # ws \<Rightarrow> if rc \<noteq> 0 then Pop_ret (-1) buff q' else pop q' buff ws)
      else pop_now q buff)"

declare pop.simps [simp del]

definition queue_front :: "Queue_t \<Rightarrow> byte list \<Rightarrow> (int \<times> byte list) option" where
  "queue_front q buff =
     (if is_empty q then Some (-1, buff)
      else do {
        buff' \<leftarrow> memcpy buff 0 (q_slots q ! unat (q_front q)) 0 (unat (q_sizes q ! unat (q_front q)));
        Some (int (unat (q_sizes q ! unat (q_front q))), buff')
      })"

definition queue_back :: "Queue_t \<Rightarrow> byte list \<Rightarrow> (int \<times> byte list) option" where
  "queue_back q buff =
     (if is_empty q then Some (-1, buff)
      else
        (let cursor = (if q_rear q = 0 then Q_SIZE - 1 else unat (q_rear q - 1));
             len = unat (q_sizes q ! cursor)
         in do {
           buff' \<leftarrow> memcpy buff 0 (q_slots q ! cursor) 0 len;
           Some (int len, buff')
         }))"

definition queue_destroy :: "bool \<Rightarrow> bool \<Rightarrow> int" where
  "queue_destroy mutex_ok cond_ok =
     (let res = 0; res = (if \<not> mutex_ok then -1 else res); res = (if \<not> cond_ok then -1 else res) in res)"


subsection \<open>The ring as a list\<close>

text \<open>The slot that lies \<open>i\<close> places after the first one.\<close>

definition pos :: "Queue_t \<Rightarrow> nat \<Rightarrow> nat" where
  "pos q i = (unat (q_front q) + i) mod Q_SIZE"

definition packet_at :: "Queue_t \<Rightarrow> nat \<Rightarrow> byte list" where
  "packet_at q j = take (unat (q_sizes q ! j)) (q_slots q ! j)"

definition content :: "Queue_t \<Rightarrow> byte list list" where
  "content q = map (packet_at q) (takeWhile (\<lambda>j. q_sizes q ! j \<noteq> 0) (map (pos q) [0..<Q_SIZE]))"

text \<open>\<open>n\<close> packets lie in consecutive slots from the first one on.\<close>

definition occupied :: "Queue_t \<Rightarrow> nat \<Rightarrow> bool" where
  "occupied q n \<longleftrightarrow> n \<le> Q_SIZE \<and> unat (q_rear q) = pos q n \<and>
     (\<forall>i < Q_SIZE. q_sizes q ! pos q i \<noteq> 0 \<longleftrightarrow> i < n)"

definition queue_inv :: "Queue_t \<Rightarrow> bool" where
  "queue_inv q \<longleftrightarrow>
     length (q_slots q) = Q_SIZE \<and> length (q_sizes q) = Q_SIZE \<and>
     (\<forall>s\<in>set (q_slots q). length s = MAX_PKG_SIZE) \<and>
     (\<forall>s\<in>set (q_sizes q). unat s \<le> MAX_PKG_SIZE) \<and>
     unat (q_front q) < Q_SIZE \<and> (\<exists>n. occupied q n)"

lemma Q_SIZE_pos [simp]: "0 < Q_SIZE" "Q_SIZE \<noteq> 0"
  by (simp_all add: Q_SIZE_def)

lemma pos_less [simp]: "pos q i < Q_SIZE"
  by (simp add: pos_def)

lemma pos_0: "unat (q_front q) < Q_SIZE \<Longrightarrow> pos q 0 = unat (q_front q)"
  by (simp add: pos_def)


lemma pos_inj: "i < Q_SIZE \<Longrightarrow> j < Q_SIZE \<Longrightarrow> pos q i = pos q j \<longleftrightarrow> i = j"
  by (simp add: pos_def mod_add_inj)

lemma pos_range: "j < Q_SIZE \<Longrightarrow> unat (q_front q) < Q_SIZE \<Longrightarrow> \<exists>i < Q_SIZE. pos q i = j"
proof -
  assume "j < Q_SIZE" "unat (q_front q) < Q_SIZE"
  then have "pos q ((j + Q_SIZE - unat (q_front q)) mod Q_SIZE) = j"
    by (simp add: pos_def mod_add_right_eq)
  then show ?thesis using mod_less_divisor [OF Q_SIZE_pos(1)] by blast
qed

lemma pos_Q_SIZE: "unat (q_front q) < Q_SIZE \<Longrightarrow> pos q Q_SIZE = unat (q_front q)"
  by (simp add: pos_def)

lemma next_pos: "unat w < Q_SIZE \<Longrightarrow> unat (next_pos w) = (unat w + 1) mod Q_SIZE"
proof -
  assume w: "unat w < Q_SIZE"
  show ?thesis
  proof (cases "unat w = Q_SIZE - 1")
    case True
    then show ?thesis by (simp add: next_pos_def Q_SIZE_def)
  next
    case False
    then have "unat w + 1 < Q_SIZE" using w by simp
    then show ?thesis using False
      by (simp add: next_pos_def unat_word_ariths Q_SIZE_def)
  qed
qed

text \<open>The occupied part of the ring.\<close>

lemma occupied_content:
  assumes "occupied q n"
  shows "content q = map (\<lambda>i. packet_at q (pos q i)) [0..<n]"
proof -
  have "takeWhile (\<lambda>i. i < n) [0..<m] = [0..<min n m]" for m
    by (induction m) (auto simp: takeWhile_append min_def le_Suc_eq)
  moreover have "takeWhile ((\<lambda>j. q_sizes q ! j \<noteq> 0) \<circ> pos q) [0..<Q_SIZE] = takeWhile (\<lambda>i. i < n) [0..<Q_SIZE]"
    using assms by (intro takeWhile_cong) (auto simp: occupied_def)
  ultimately show ?thesis
    using assms by (simp add: content_def takeWhile_map occupied_def)
qed

lemma occupied_length: "occupied q n \<Longrightarrow> length (content q) = n"
  by (simp add: occupied_content)

lemma queue_inv_occupied: "queue_inv q \<Longrightarrow> occupied q (length (content q))"
  by (auto simp: queue_inv_def occupied_length)

lemma queue_inv_length: "queue_inv q \<Longrightarrow> length (content q) \<le> Q_SIZE"
  using queue_inv_occupied by (auto simp: occupied_def)

lemma queue_inv_rear: "queue_inv q \<Longrightarrow> unat (q_rear q) = pos q (length (content q))"
  using queue_inv_occupied by (auto simp: occupied_def)

lemma is_empty_iff:
  assumes "queue_inv q"
  shows "is_empty q \<longleftrightarrow> content q = []"
proof -
  have "q_sizes q ! pos q 0 \<noteq> 0 \<longleftrightarrow> 0 < length (content q)"
    using queue_inv_occupied [OF assms] Q_SIZE_pos(1) unfolding occupied_def by blast
  then show ?thesis
    using assms by (simp add: is_empty_def pos_0 queue_inv_def)
qed

lemma is_full_iff:
  assumes "queue_inv q"
  shows "is_full q \<longleftrightarrow> length (content q) = Q_SIZE"
proof (cases "length (content q) = Q_SIZE")
  case True
  have "q_sizes q ! pos q 0 \<noteq> 0"
    using queue_inv_occupied [OF assms] True unfolding occupied_def by simp
  then show ?thesis
    using assms True by (simp add: is_full_def queue_inv_rear pos_Q_SIZE pos_0 queue_inv_def)
next
  case False
  then have "length (content q) < Q_SIZE" using queue_inv_length [OF assms] by simp
  then have "q_sizes q ! pos q (length (content q)) = 0"
    using queue_inv_occupied [OF assms] unfolding occupied_def by blast
  then show ?thesis
    using False by (simp add: is_full_def queue_inv_rear [OF assms])
qed

lemma packet_at_length:
  assumes "queue_inv q" "j < Q_SIZE"
  shows "length (packet_at q j) = unat (q_sizes q ! j)" "unat (q_sizes q ! j) \<le> MAX_PKG_SIZE"
    "length (q_slots q ! j) = MAX_PKG_SIZE"
  using assms by (auto simp: queue_inv_def packet_at_def)

text \<open>Packets in the ring have between 1 and 1522 bytes.\<close>

lemma content_packets:
  assumes "queue_inv q" "p \<in> set (content q)"
  shows "0 < length p \<and> length p \<le> MAX_PKG_SIZE"
proof -
  obtain i where i: "i < length (content q)" "p = packet_at q (pos q i)"
    using assms occupied_content [OF queue_inv_occupied [OF assms(1)]]
    by (metis (no_types, lifting) in_set_conv_nth length_map length_upt nth_map nth_upt add_0 minus_nat.diff_0)
  then have "q_sizes q ! pos q i \<noteq> 0"
    using queue_inv_occupied [OF assms(1)] unfolding occupied_def by auto
  then show ?thesis
    using packet_at_length [OF assms(1), of "pos q i"] i(2) by (simp add: unat_gt_0)
qed


subsection \<open>What the operations do to the list\<close>

lemma queue_init_inv:
  assumes "length (q_slots q) = Q_SIZE" "\<forall>s\<in>set (q_slots q). length s = MAX_PKG_SIZE"
  shows "queue_inv (snd (queue_init True True q)) \<and> content (snd (queue_init True True q)) = []"
proof -
  let ?q = "snd (queue_init True True q)"
  have "occupied ?q 0"
    by (simp add: occupied_def queue_init_def pos_def)
  then show ?thesis
    using assms occupied_content [of ?q 0]
    by (auto simp: queue_inv_def queue_init_def MAX_PKG_SIZE_def)
qed

lemma push_inv_content:
  assumes inv: "queue_inv q" and len: "0 < unat k" "unat k \<le> MAX_PKG_SIZE" "unat k \<le> length buf"
    and room: "length (content q) < Q_SIZE"
  shows "\<exists>q'. push q buf k = Some (int (unat k), q') \<and> queue_inv q' \<and> content q' = content q @ [take (unat k) buf]"
proof -
  define n r where "n = length (content q)" and "r = unat (q_rear q)"
  have occ: "occupied q n" and r: "r = pos q n" "r < Q_SIZE"
    using inv by (simp_all add: n_def r_def queue_inv_occupied queue_inv_rear)
  have lens: "length (q_slots q) = Q_SIZE" "length (q_sizes q) = Q_SIZE"
    using inv by (simp_all add: queue_inv_def)
  define slot where "slot = take (unat k) buf @ drop (unat k) (q_slots q ! r)"
  define q' where "q' = q\<lparr>q_slots := (q_slots q)[r := slot], q_sizes := (q_sizes q)[r := k], q_rear := next_pos (q_rear q)\<rparr>"
  have slot: "memcpy (q_slots q ! r) 0 buf 0 (unat k) = Some slot" "length slot = MAX_PKG_SIZE"
    using packet_at_length(3) [OF inv r(2)] len by (auto simp: memcpy_def slot_def)
  have "\<not> is_full q" using room by (simp add: is_full_iff [OF inv])
  then have "push q buf k = Some (int (unat k), q')"
    using len slot(1) by (auto simp: push_def q'_def r_def)
  moreover have pos: "pos q' = pos q" by (simp add: fun_eq_iff pos_def q'_def)
  have "unat (q_rear q') = pos q (Suc n)"
  proof -
    have "unat (q_rear q') = (r + 1) mod Q_SIZE"
      using next_pos [of "q_rear q"] r(2) by (simp add: q'_def r_def)
    then show ?thesis by (simp add: r(1) pos_def mod_Suc_eq)
  qed
  then have occ': "occupied q' (Suc n)"
    using occ room r lens len(1) unfolding occupied_def pos
    by (auto simp: q'_def nth_list_update pos_inj n_def less_Suc_eq)
  moreover have "queue_inv q'"
    using inv occ' slot(2) len(2) lens set_update_subset_insert [of "q_slots q" r slot]
      set_update_subset_insert [of "q_sizes q" r k]
    unfolding queue_inv_def by (fastforce simp: q'_def)
  moreover have "content q' = content q @ [take (unat k) buf]"
  proof -
    have "packet_at q' (pos q i) = packet_at q (pos q i)" if "i < n" for i
      using that room r lens by (simp add: packet_at_def q'_def nth_list_update pos_inj n_def)
    moreover have "packet_at q' (pos q n) = take (unat k) buf"
      using r lens len(3) by (simp add: packet_at_def q'_def slot_def)
    ultimately show ?thesis
      by (simp add: occupied_content [OF occ] occupied_content [OF occ'] pos)
  qed
  ultimately show ?thesis by blast
qed

text \<open>Taking the first packet away, the common part of \<open>pop\<close> and \<open>remove_front\<close>.\<close>

definition drop_first :: "Queue_t \<Rightarrow> Queue_t" where
  "drop_first q = q\<lparr>q_sizes := (q_sizes q)[unat (q_front q) := 0], q_front := next_pos (q_front q)\<rparr>"

lemma drop_first_inv_content:
  assumes inv: "queue_inv q" and ne: "content q \<noteq> []"
  shows "queue_inv (drop_first q) \<and> content (drop_first q) = tl (content q)
    \<and> hd (content q) = packet_at q (unat (q_front q))"
proof -
  let ?f = "unat (q_front q)" and ?q' = "drop_first q"
  obtain n where n: "length (content q) = Suc n" using ne by (cases "content q") auto
  have occ: "occupied q (Suc n)" using queue_inv_occupied [OF inv] n by simp
  have f: "?f < Q_SIZE" "?f = pos q 0" and lens: "length (q_sizes q) = Q_SIZE"
    using inv by (simp_all add: queue_inv_def pos_0)
  have pos: "pos ?q' i = pos q (Suc i)" for i
    using next_pos [of "q_front q"] f(1) by (simp add: pos_def drop_first_def mod_simps)
  have sizes: "q_sizes ?q' ! pos q i = (if i = 0 then 0 else q_sizes q ! pos q i)" if "i < Q_SIZE" for i
    using that f lens by (simp add: drop_first_def nth_list_update pos_inj)
  have "q_sizes ?q' ! pos ?q' i \<noteq> 0 \<longleftrightarrow> i < n" if i: "i < Q_SIZE" for i
  proof (cases "Suc i < Q_SIZE")
    case True
    then show ?thesis using occ sizes [of "Suc i"] by (simp add: pos occupied_def)
  next
    case False
    then have "Suc i = Q_SIZE" using i by simp
    then have "pos q (Suc i) = pos q 0" "\<not> i < n"
      using occ by (auto simp: occupied_def pos_def)
    then show ?thesis using sizes [of 0] by (simp add: pos)
  qed
  then have occ': "occupied ?q' n"
    using occ pos [of n] unfolding occupied_def by (simp add: drop_first_def)
  moreover have "queue_inv ?q'"
    using inv occ' next_pos [of "q_front q"] f(1) set_update_subset_insert [of "q_sizes q" ?f 0]
    unfolding queue_inv_def by (fastforce simp: drop_first_def)
  moreover have "content q = packet_at q (pos q 0) # content ?q'"
  proof -
    have "packet_at ?q' (pos q (Suc i)) = packet_at q (pos q (Suc i))" if "i < n" for i
      using that occ sizes [of "Suc i"] by (simp add: packet_at_def occupied_def) (simp add: drop_first_def)
    then show ?thesis
      by (simp add: occupied_content [OF occ] occupied_content [OF occ'] pos upt_rec [of 0 "Suc n"]
          map_Suc_upt [symmetric] comp_def del: upt_Suc)
  qed
  ultimately show ?thesis using f(2) by simp
qed

lemma drop_first_spec:
  assumes "queue_inv q" "content q \<noteq> []"
  shows "queue_inv (drop_first q)" "content q = hd (content q) # content (drop_first q)"
    "0 < length (hd (content q))" "length (hd (content q)) \<le> MAX_PKG_SIZE"
proof -
  note d = drop_first_inv_content [OF assms]
  show "queue_inv (drop_first q)" using d by simp
  show "content q = hd (content q) # content (drop_first q)"
    using conjunct1 [OF conjunct2 [OF d]] assms(2) by simp
  show "0 < length (hd (content q))" "length (hd (content q)) \<le> MAX_PKG_SIZE"
    using content_packets [OF assms(1) hd_in_set [OF assms(2)]] by simp_all
qed

lemma pop_now_first:
  assumes inv: "queue_inv q" and ne: "content q \<noteq> []" and room: "MAX_PKG_SIZE \<le> length buff"
  shows "pop_now q buff = Pop_ret (int (length (hd (content q))))
    (hd (content q) @ drop (length (hd (content q))) buff) (drop_first q)"
proof -
  let ?f = "unat (q_front q)"
  have f: "?f < Q_SIZE" using inv by (simp add: queue_inv_def)
  have hd: "hd (content q) = packet_at q ?f" using drop_first_inv_content [OF inv ne] by simp
  have "unat (q_sizes q ! ?f) \<le> length buff" "unat (q_sizes q ! ?f) \<le> length (q_slots q ! ?f)"
    using packet_at_length [OF inv f] room by simp_all
  then show ?thesis
    by (simp add: pop_now_def memcpy_def hd packet_at_def drop_first_def)
qed

lemma pop_first:
  "queue_inv q \<Longrightarrow> content q \<noteq> [] \<Longrightarrow> MAX_PKG_SIZE \<le> length buff \<Longrightarrow>
     pop q buff ws = Pop_ret (int (length (hd (content q))))
       (hd (content q) @ drop (length (hd (content q))) buff) (drop_first q)"
  by (subst pop.simps) (simp add: is_empty_iff pop_now_first)

lemma pop_empty: "queue_inv q \<Longrightarrow> content q = [] \<Longrightarrow> pop q buff [] = Pop_blocked"
  by (subst pop.simps) (simp add: is_empty_iff)

subsection \<open>The contract of a queue\<close>

datatype 'p qop = Enq 'p | Deq

text \<open>
  A run of operations: the packets that were accepted, the packets that were taken out and the
  last state. Taking from an empty queue is a step that does nothing (the caller waits).
\<close>

fun run_ops :: "('q \<Rightarrow> 'p \<Rightarrow> bool \<times> 'q) \<Rightarrow> ('q \<Rightarrow> ('p \<times> 'q) option) \<Rightarrow> 'q \<Rightarrow> 'p qop list
    \<Rightarrow> 'p list \<times> 'p list \<times> 'q" where
  "run_ops enq deq q [] = ([], [], q)"
| "run_ops enq deq q (Enq p # ops) =
     (let (b, q1) = enq q p; (acc, out, q2) = run_ops enq deq q1 ops
      in (if b then p # acc else acc, out, q2))"
| "run_ops enq deq q (Deq # ops) =
     (case deq q of
        None \<Rightarrow> run_ops enq deq q ops
      | Some (p, q1) \<Rightarrow> (let (acc, out, q2) = run_ops enq deq q1 ops in (acc, p # out, q2)))"

locale fifo =
  fixes inv :: "'q \<Rightarrow> bool"
    and content :: "'q \<Rightarrow> 'p list"
    and enq :: "'q \<Rightarrow> 'p \<Rightarrow> bool \<times> 'q"
    and deq :: "'q \<Rightarrow> ('p \<times> 'q) option"
    and ok :: "'p \<Rightarrow> bool"
  assumes enq_accepted: "inv q \<Longrightarrow> ok p \<Longrightarrow> enq q p = (True, q') \<Longrightarrow> inv q' \<and> content q' = content q @ [p]"
    and enq_refused: "inv q \<Longrightarrow> ok p \<Longrightarrow> enq q p = (False, q') \<Longrightarrow> q' = q"
    and deq_empty: "inv q \<Longrightarrow> deq q = None \<longleftrightarrow> content q = []"
    and deq_first: "inv q \<Longrightarrow> deq q = Some (p, q') \<Longrightarrow> inv q' \<and> content q = p # content q'"
begin

lemma run_history:
  assumes "inv q" "\<forall>p. Enq p \<in> set ops \<longrightarrow> ok p" "run_ops enq deq q ops = (acc, out, q')"
  shows "inv q' \<and> content q @ acc = out @ content q'"
  using assms
proof (induction ops arbitrary: q acc out q')
  case Nil
  then show ?case by simp
next
  case (Cons x ops)
  show ?case
  proof (cases x)
    case (Enq p)
    obtain b q1 where e: "enq q p = (b, q1)" by (cases "enq q p")
    obtain acc1 out1 q2 where r: "run_ops enq deq q1 ops = (acc1, out1, q2)"
      by (cases "run_ops enq deq q1 ops") auto
    have "inv q1 \<and> content q1 = (if b then content q @ [p] else content q)"
      using e enq_accepted [of q p q1] enq_refused [of q p q1] Cons.prems Enq by (cases b) auto
    then show ?thesis
      using Cons.IH [OF _ _ r] Cons.prems Enq e r by (auto split: if_splits)
  next
    case Deq
    show ?thesis
    proof (cases "deq q")
      case None
      then show ?thesis using Cons Deq by auto
    next
      case (Some a)
      obtain p q1 where a: "a = (p, q1)" by (cases a)
      obtain acc1 out1 q2 where r: "run_ops enq deq q1 ops = (acc1, out1, q2)"
        by (cases "run_ops enq deq q1 ops") auto
      show ?thesis
        using Cons.IH [OF _ _ r] Cons.prems Deq Some a r deq_first [of q p q1] by auto
    qed
  qed
qed

end

text \<open>A queue of bounded capacity refuses a packet exactly when it is full.\<close>

locale bounded_fifo = fifo +
  fixes cap :: nat
  assumes enq_room: "inv q \<Longrightarrow> ok p \<Longrightarrow> fst (enq q p) \<longleftrightarrow> length (content q) < cap"
    and within_cap: "inv q \<Longrightarrow> length (content q) \<le> cap"
begin

lemma burst_accepted:
  assumes "inv q" "\<forall>p\<in>set ps. ok p" "length (content q) + length ps \<le> cap"
  shows "\<exists>q'. run_ops enq deq q (map Enq ps) = (ps, [], q') \<and> inv q' \<and> content q' = content q @ ps"
  using assms
proof (induction ps arbitrary: q)
  case Nil
  then show ?case by simp
next
  case (Cons p ps)
  obtain b q1 where e: "enq q p = (b, q1)" by (cases "enq q p")
  have b: "b" using enq_room [of q p] Cons.prems e by auto
  then have q1: "inv q1 \<and> content q1 = content q @ [p]"
    using enq_accepted [of q p q1] Cons.prems e by simp
  then obtain q' where "run_ops enq deq q1 (map Enq ps) = (ps, [], q') \<and> inv q' \<and> content q' = content q1 @ ps"
    using Cons.IH [of q1] Cons.prems by auto
  then show ?case using e b q1 by auto
qed

end

text \<open>The ring, used with whole packets, keeps the contract.\<close>

definition queue_enq :: "Queue_t \<Rightarrow> byte list \<Rightarrow> bool \<times> Queue_t" where
  "queue_enq q p =
     (case push q p (of_nat (length p)) of
        None \<Rightarrow> (False, q)
      | Some (r, q') \<Rightarrow> (r = int (length p), q'))"

definition queue_deq :: "Queue_t \<Rightarrow> (byte list \<times> Queue_t) option" where
  "queue_deq q =
     (case pop q (replicate MAX_PKG_SIZE 0) [] of
        Pop_ret r buff q' \<Rightarrow> if r < 0 then None else Some (take (nat r) buff, q')
      | _ \<Rightarrow> None)"

definition packet_ok :: "byte list \<Rightarrow> bool" where
  "packet_ok p \<longleftrightarrow> 0 < length p \<and> length p \<le> MAX_PKG_SIZE"

lemma unat_packet_length: "packet_ok p \<Longrightarrow> unat (of_nat (length p) :: u16) = length p"
  by (simp add: packet_ok_def MAX_PKG_SIZE_def unat_of_nat take_bit_nat_eq_self)

lemma push_full:
  "queue_inv q \<Longrightarrow> length (content q) = Q_SIZE \<Longrightarrow> unat k \<le> MAX_PKG_SIZE \<Longrightarrow> push q buf k = Some (0, q)"
  by (simp add: push_def is_full_iff)

lemma queue_enq_room:
  assumes "queue_inv q" "packet_ok p" "length (content q) < Q_SIZE"
  shows "\<exists>q'. queue_enq q p = (True, q') \<and> queue_inv q' \<and> content q' = content q @ [p]"
  using push_inv_content [OF assms(1), of "of_nat (length p)" p] assms(2,3) unat_packet_length [OF assms(2)]
  by (auto simp: queue_enq_def packet_ok_def)

lemma queue_enq_full:
  "queue_inv q \<Longrightarrow> packet_ok p \<Longrightarrow> length (content q) = Q_SIZE \<Longrightarrow> queue_enq q p = (False, q)"
  using unat_packet_length [of p] by (auto simp: queue_enq_def push_full packet_ok_def)

lemma queue_deq_empty: "queue_inv q \<Longrightarrow> content q = [] \<Longrightarrow> queue_deq q = None"
  by (simp add: queue_deq_def pop_empty)

lemma queue_deq_first:
  "queue_inv q \<Longrightarrow> content q \<noteq> [] \<Longrightarrow> queue_deq q = Some (hd (content q), drop_first q)"
  by (simp add: queue_deq_def pop_first)

interpretation ring: bounded_fifo queue_inv content queue_enq queue_deq packet_ok Q_SIZE
proof unfold_locales
  fix q q' p
  assume q: "queue_inv q" and p: "packet_ok p"
  show "fst (queue_enq q p) \<longleftrightarrow> length (content q) < Q_SIZE"
    using queue_enq_room [OF q p] queue_enq_full [OF q p] queue_inv_length [OF q]
    by (cases "length (content q) < Q_SIZE") auto
  then show "queue_inv q' \<and> content q' = content q @ [p]" if "queue_enq q p = (True, q')"
    using queue_enq_room [OF q p] that by auto
  show "q' = q" if "queue_enq q p = (False, q')"
    using queue_enq_room [OF q p] queue_enq_full [OF q p] queue_inv_length [OF q] that
    by (cases "length (content q) < Q_SIZE") auto
next
  fix q
  assume q: "queue_inv q"
  show "queue_deq q = None \<longleftrightarrow> content q = []"
    using queue_deq_empty [OF q] queue_deq_first [OF q] by (cases "content q = []") auto
  show "length (content q) \<le> Q_SIZE" by (rule queue_inv_length [OF q])
  show "queue_inv q' \<and> content q = p # content q'" if "queue_deq q = Some (p, q')" for p q'
    using queue_deq_empty [OF q] queue_deq_first [OF q] drop_first_spec(1,2) [OF q] that
    by (cases "content q = []") auto
qed

text \<open>The cursor of \<open>back\<close> is the slot of the newest packet.\<close>

lemma queue_back_cursor:
  assumes "queue_inv q" "content q \<noteq> []"
  shows "(if q_rear q = 0 then Q_SIZE - 1 else unat (q_rear q - 1)) = pos q (length (content q) - 1)"
proof -
  obtain n where n: "length (content q) = Suc n" using assms(2) by (cases "content q") auto
  then have rear: "unat (q_rear q) = Suc (pos q n) mod Q_SIZE"
    using queue_inv_rear [OF assms(1)] by (simp add: pos_def mod_Suc_eq)
  have less: "pos q n < Q_SIZE" by simp
  show ?thesis
  proof (cases "Suc (pos q n) = Q_SIZE")
    case True
    then have "q_rear q = 0" using rear by (simp add: unat_eq_0)
    then show ?thesis using True n by simp
  next
    case False
    then have r: "unat (q_rear q) = Suc (pos q n)" using rear less by simp
    then have "q_rear q \<noteq> 0" by auto
    then have "unat (q_rear q - 1) = pos q n"
      using r by (simp add: unat_sub unat_gt_0 word_le_nat_alt Suc_leI)
    then show ?thesis using \<open>q_rear q \<noteq> 0\<close> n by simp
  qed
qed

lemma content_nth:
  assumes "queue_inv q" "i < length (content q)"
  shows "content q ! i = packet_at q (pos q i)"
  using arg_cong [OF occupied_content [OF queue_inv_occupied [OF assms(1)]], of "\<lambda>l. l ! i"] assms(2)
  by simp

subsection \<open>A ring to try things on\<close>

definition empty_ring :: Queue_t where
  "empty_ring = snd (queue_init True True
     \<lparr>q_slots = replicate Q_SIZE (replicate MAX_PKG_SIZE 0), q_sizes = replicate Q_SIZE 5, q_front = 7, q_rear = 9\<rparr>)"

definition example_ring :: Queue_t where
  "example_ring = snd (queue_enq (snd (queue_enq empty_ring [1, 2])) [3])"

lemma empty_ring: "queue_inv empty_ring" "content empty_ring = []"
  using queue_init_inv [of "\<lparr>q_slots = replicate Q_SIZE (replicate MAX_PKG_SIZE 0),
    q_sizes = replicate Q_SIZE 5, q_front = 7, q_rear = 9\<rparr>"]
  by (auto simp: empty_ring_def)

text \<open>A ring into which some packets were put.\<close>

definition ring_of :: "byte list list \<Rightarrow> Queue_t" where
  "ring_of ps = snd (snd (run_ops queue_enq queue_deq empty_ring (map Enq ps)))"

lemma ring_of:
  assumes "\<forall>p\<in>set ps. packet_ok p" "length ps \<le> Q_SIZE"
  shows "queue_inv (ring_of ps) \<and> content (ring_of ps) = ps"
  using ring.burst_accepted [OF empty_ring(1) assms(1)] assms(2)
  by (auto simp: ring_of_def empty_ring)

lemma packet_ok_small: "packet_ok [a]" "packet_ok [a, b]"
  by (simp_all add: packet_ok_def MAX_PKG_SIZE_def)

lemma example_ring_steps:
  "\<exists>q1. queue_enq empty_ring [1, 2] = (True, q1) \<and> queue_enq q1 [3] = (True, example_ring) \<and>
     queue_inv example_ring \<and> content example_ring = [[1, 2], [3]]"
proof -
  obtain q1 where q1: "queue_enq empty_ring [1, 2] = (True, q1)" "queue_inv q1" "content q1 = [[1, 2]]"
    using queue_enq_room [OF empty_ring(1) packet_ok_small(2)] by (auto simp: empty_ring Q_SIZE_def)
  obtain q2 where q2: "queue_enq q1 [3] = (True, q2)" "queue_inv q2" "content q2 = [[1, 2], [3]]"
    using queue_enq_room [OF q1(2) packet_ok_small(1)] q1(3) by (auto simp: Q_SIZE_def)
  have "example_ring = q2" by (simp add: example_ring_def q1 q2)
  then show ?thesis using q1 q2 by blast
qed

lemma example_ring: "queue_inv example_ring" "content example_ring = [[1, 2], [3]]"
  using example_ring_steps by auto

subsection \<open>Properties of the queue\<close>

text \<open>
  C7: The queue is a FIFO. In every run of \<open>push\<close> and \<open>pop\<close> with packets of 1 to 1522
  bytes from a queue that satisfies the representation invariant, what was in the queue followed by
  what \<open>push\<close> accepted is what \<open>pop\<close> delivered followed by what is still in it: no
  packet is lost, doubled, changed or overtaken, and the ring never holds more than 1000.
\<close>

theorem queue_history:
  assumes "queue_inv q" "\<forall>p. Enq p \<in> set ops \<longrightarrow> packet_ok p"
    and "run_ops queue_enq queue_deq q ops = (accepted, delivered, q')"
  shows "content q @ accepted = delivered @ content q' \<and> queue_inv q' \<and> length (content q') \<le> 1000"
  using ring.run_history [OF assms] ring.within_cap by (auto simp: Q_SIZE_def)

text \<open>
  C25: \<open>push\<close> on every branch. On a valid ring and a buffer that holds the announced bytes it
  never reads or writes out of bounds, keeps the invariant, and returns -1 for more than 1522
  bytes, 0 for no bytes or a full ring (without effect), and otherwise the size, having appended
  exactly the first \<open>size\<close> bytes of the buffer.
\<close>

theorem push_spec:
  assumes "queue_inv q" "unat k \<le> length buf"
  shows "\<exists>r q'. push q buf k = Some (r, q') \<and> queue_inv q' \<and>
    (if 1522 < unat k then r = -1 \<and> q' = q
     else if k = 0 \<or> length (content q) = 1000 then r = 0 \<and> q' = q
     else r = int (unat k) \<and> content q' = content q @ [take (unat k) buf])"
proof (cases "1522 < unat k \<or> k = 0 \<or> length (content q) = 1000")
  case True
  then show ?thesis
    using assms by (auto simp: push_def is_full_iff MAX_PKG_SIZE_def Q_SIZE_def)
next
  case False
  then have "length (content q) < Q_SIZE"
    using queue_inv_length [OF assms(1)] by (simp add: Q_SIZE_def)
  then show ?thesis
    using push_inv_content [OF assms(1), of k buf] assms(2) False
    by (auto simp: MAX_PKG_SIZE_def unat_gt_0)
qed

text \<open>
  C27: \<open>pop\<close> blocks exactly while it sees an empty queue: it is still waiting iff the queue was
  empty at the call and at every wake-up, and no wait failed. In particular a wake-up alone, as
  \<open>send_signal_queue\<close> causes it, does not end a \<open>pop\<close> on an empty queue.
\<close>

theorem pop_blocked_iff:
  "pop q buff ws = Pop_blocked \<longleftrightarrow> is_empty q \<and> (\<forall>(rc, q')\<in>set ws. rc = 0 \<and> is_empty q')"
proof (induction ws arbitrary: q)
  case Nil
  then show ?case by (subst pop.simps) (simp add: pop_now_def split: option.split)
next
  case (Cons w ws)
  obtain rc q' where "w = (rc, q')" by (cases w)
  then show ?case
    using Cons.IH [of q'] by (subst pop.simps) (auto simp: pop_now_def split: option.split)
qed


text \<open>
  \<open>front\<close> and \<open>back\<close> look at the oldest and at the newest packet: -1 on an empty
  ring, otherwise the size, with the packet's bytes at the start of the buffer and no out-of-bounds
  access; \<open>remove_front\<close> drops the oldest packet and does nothing on an empty ring.
\<close>

theorem queue_peek_spec:
  assumes inv: "queue_inv q" and buff: "length buff = 1522"
  shows "queue_front q buff =
      Some (if content q = [] then (-1, buff)
            else (int (length (hd (content q))), hd (content q) @ drop (length (hd (content q))) buff))
    \<and> queue_back q buff =
      Some (if content q = [] then (-1, buff)
            else (int (length (last (content q))), last (content q) @ drop (length (last (content q))) buff))
    \<and> queue_inv (remove_front q) \<and> content (remove_front q) = tl (content q)"
proof (cases "content q = []")
  case True
  then show ?thesis
    using inv by (simp add: queue_front_def queue_back_def remove_front_def is_empty_iff)
next
  case False
  have copy: "memcpy buff 0 (q_slots q ! j) 0 (unat (q_sizes q ! j)) =
      Some (packet_at q j @ drop (length (packet_at q j)) buff)" if "j < Q_SIZE" for j
    using packet_at_length [OF inv that] buff by (simp add: memcpy_def packet_at_def MAX_PKG_SIZE_def)
  let ?f = "unat (q_front q)" and ?n = "length (content q)"
  have f: "?f < Q_SIZE" using inv by (simp add: queue_inv_def)
  have hd: "hd (content q) = packet_at q ?f"
    using drop_first_inv_content [OF inv False] by simp
  have "queue_front q buff =
      Some (int (length (hd (content q))), hd (content q) @ drop (length (hd (content q))) buff)"
    using False inv f by (simp add: queue_front_def is_empty_iff hd copy packet_at_length)
  moreover
  define c where "c = (if q_rear q = 0 then Q_SIZE - 1 else unat (q_rear q - 1))"
  have c: "c = pos q (?n - 1)"
    by (simp add: c_def queue_back_cursor [OF inv False])
  have last: "last (content q) = packet_at q c"
    using content_nth [OF inv, of "?n - 1"] False by (simp add: last_conv_nth c)
  have "queue_back q buff =
      Some (int (length (last (content q))), last (content q) @ drop (length (last (content q))) buff)"
    using False inv copy [of c] by (simp add: queue_back_def is_empty_iff c_def [symmetric] last c packet_at_length Let_def)
  moreover have "remove_front q = drop_first q"
    using False inv by (simp add: remove_front_def drop_first_def is_empty_iff)
  ultimately show ?thesis
    using False drop_first_inv_content [OF inv False] by simp
qed

subsection \<open>The properties at work\<close>

lemma queue_history_witness:
  "\<exists>q'. run_ops queue_enq queue_deq empty_ring [Enq [1, 2], Enq [3], Deq] = ([[1, 2], [3]], [[1, 2]], q')
     \<and> content q' = [[3]] \<and> queue_inv q'"
proof -
  obtain q1 where "queue_enq empty_ring [1, 2] = (True, q1)" "queue_enq q1 [3] = (True, example_ring)"
    using example_ring_steps by blast
  then have "run_ops queue_enq queue_deq empty_ring [Enq [1, 2], Enq [3], Deq] =
      ([[1, 2], [3]], [[1, 2]], drop_first example_ring)"
    using queue_deq_first [OF example_ring(1)] example_ring(2) by simp
  with queue_history [OF empty_ring(1) _ this] show ?thesis
    by (auto simp: empty_ring packet_ok_small)
qed

lemma push_spec_witness:
  "\<exists>q'. push example_ring [7, 8, 9] 2 = Some (2, q') \<and> queue_inv q' \<and> content q' = [[1, 2], [3], [7, 8]]"
  using push_spec [OF example_ring(1), of 2 "[7, 8, 9]"] by (auto simp: example_ring)

lemma pop_blocked_iff_witness:
  "pop empty_ring (replicate 1522 0) [(0, empty_ring), (0, empty_ring)] = Pop_blocked"
  by (simp add: pop_blocked_iff is_empty_iff empty_ring)


lemma queue_peek_spec_witness:
  "\<exists>rest. queue_front example_ring (replicate 1522 0) = Some (2, [1, 2] @ rest)
     \<and> content (remove_front example_ring) = [[3]]"
  using queue_peek_spec [OF example_ring(1), of "replicate 1522 0"] by (simp add: example_ring)

end
