(* ===== verification/Node_Core.thy ===== *)
theory Node_Core
  imports Logger Packet_Queue
begin

text \<open>
  The node of a pipeline, pipeline/node.c, and what all node threads share. A node refers to its
  queues by their addresses (\<open>qid\<close>); \<open>w_queues\<close> is the heap of queues, \<open>w_log\<close>
  the messages written so far (theory Logger shows what each of them is in the file) and
  \<open>w_exit\<close> the flag \<open>should_exit\<close> of the pipeline. Allocation is explicit: \<open>calloc\<close>
  takes its next result from \<open>m_results\<close> and counts the live blocks in \<open>m_live\<close>.

  A node thread is a loop over a body (\<open>run_loop\<close>); each turn of the loop gets what the
  environment decides during it. Most bodies have the same shape, take a packet from the input
  queue and treat it (\<open>consumer_body\<close>); the nodes differ in the treatment.
\<close>

definition MAX_NODE_OUTPUTS :: nat where "MAX_NODE_OUTPUTS = 16"
definition MAX_NODE_NAME :: nat where "MAX_NODE_NAME = 64"

subsection \<open>Memory\<close>

record Mem =
  m_results :: "bool list"   \<comment> \<open>the results of the next allocations; all succeed after the last\<close>
  m_live :: nat

definition calloc :: "Mem \<Rightarrow> bool \<times> Mem" where
  "calloc m =
     (case m_results m of
        [] \<Rightarrow> (True, m\<lparr>m_live := m_live m + 1\<rparr>)
      | ok # rs \<Rightarrow> (ok, m\<lparr>m_results := rs, m_live := (if ok then m_live m + 1 else m_live m)\<rparr>))"

definition free :: "Mem \<Rightarrow> Mem" where
  "free m = m\<lparr>m_live := m_live m - 1\<rparr>"

subsection \<open>Nodes\<close>

datatype NodeType =
  NODE_TYPE_SNIFFER | NODE_TYPE_TAGGER | NODE_TYPE_SENDER | NODE_TYPE_IP_MODIFIER | NODE_TYPE_CUSTOM

text \<open>The functions that a node may run as its thread.\<close>

datatype node_process_func =
    Sniffer_process | Tagger_process | Sender_process | Ip_modifier_process | Packet_counter_process
  | Logger_process | Collector_process | Dispatcher_process

type_synonym qid = nat

text \<open>
  \<open>n_name\<close> is the array, \<open>node_name\<close> the string in it; \<open>n_should_exit\<close> tells
  whether the pointer to the flag is set (it only ever points to the flag of the pipeline), and
  \<open>n_thread\<close> whether the thread was created.
\<close>

record 'c Node =
  n_name :: string
  n_type :: NodeType
  n_input :: "qid option"
  n_outputs :: "qid option list"
  n_output_count :: nat
  n_process :: node_process_func
  n_context :: "'c option"
  n_thread :: bool
  n_should_exit :: bool

abbreviation node_name :: "'c Node \<Rightarrow> string" where
  "node_name n \<equiv> cstr (n_name n)"

definition node_create :: "string option \<Rightarrow> NodeType \<Rightarrow> node_process_func option \<Rightarrow> 'c option \<Rightarrow> Mem
    \<Rightarrow> 'c Node option \<times> Mem" where
  "node_create name type process context m =
     (case (name, process) of
        (Some name, Some process) \<Rightarrow>
          (let (ok, m) = calloc m in
           if \<not> ok then (None, m)
           else
             (let (outputs_ok, m) = calloc m in
              if \<not> outputs_ok then (None, free m)
              else
                (Some \<lparr>n_name = strncpy name (MAX_NODE_NAME - 1) @ [NUL], n_type = type, n_input = None,
                   n_outputs = replicate MAX_NODE_OUTPUTS None, n_output_count = 0,
                   n_process = process, n_context = context, n_thread = False,
                   n_should_exit = False\<rparr>, m)))
      | _ \<Rightarrow> (None, m))"

definition node_add_output :: "'c Node \<Rightarrow> qid option \<Rightarrow> int \<times> 'c Node" where
  "node_add_output node output_queue =
     (if output_queue = None \<or> n_output_count node \<ge> MAX_NODE_OUTPUTS then (-1, node)
      else (0, node\<lparr>n_outputs := (n_outputs node)[n_output_count node := output_queue],
                    n_output_count := n_output_count node + 1\<rparr>))"

definition node_set_input :: "'c Node \<Rightarrow> qid option \<Rightarrow> int \<times> 'c Node" where
  "node_set_input node input_queue =
     (if input_queue = None then (-1, node) else (0, node\<lparr>n_input := input_queue\<rparr>))"

subsection \<open>What the threads share\<close>

type_synonym log_entry = "Type_e \<times> Sender_e \<times> string"

record world =
  w_queues :: "qid \<Rightarrow> Queue_t option"
  w_log :: "log_entry list"
  w_exit :: bool

definition log_to :: "Type_e \<Rightarrow> Sender_e \<Rightarrow> string \<Rightarrow> world \<Rightarrow> world" where
  "log_to ty se text w = w\<lparr>w_log := w_log w @ [(ty, se, text)]\<rparr>"

definition set_queue :: "qid \<Rightarrow> Queue_t \<Rightarrow> world \<Rightarrow> world" where
  "set_queue q Q w = w\<lparr>w_queues := (w_queues w)(q \<mapsto> Q)\<rparr>"

text \<open>The loop condition of every node thread, \<^verbatim>\<open>!node->should_exit || !*node->should_exit\<close>.\<close>

definition must_exit :: "'c Node \<Rightarrow> world \<Rightarrow> bool" where
  "must_exit node w \<longleftrightarrow> n_should_exit node \<and> w_exit w"

definition node_start :: "bool \<Rightarrow> 'c Node \<Rightarrow> world \<Rightarrow> int \<times> 'c Node \<times> world" where
  "node_start create_ok node w =
     (if \<not> create_ok then (-1, node, log_to ERROR INITIATOR (''Failed to start node: '' @ node_name node) w)
      else (0, node\<lparr>n_thread := True\<rparr>, log_to INFO INITIATOR (''Node started: '' @ node_name node) w))"

text \<open>
  \<open>node_stop\<close> returns only when the thread has ended, which \<open>ended\<close> tells of the state
  that the flag leads to; \<^const>\<open>None\<close>: it waits for ever.
\<close>

definition node_stop :: "(world \<Rightarrow> world option) \<Rightarrow> 'c Node \<Rightarrow> world \<Rightarrow> world option" where
  "node_stop join node w =
     (let w = (if n_should_exit node then w\<lparr>w_exit := True\<rparr> else w) in
      case join w of
        None \<Rightarrow> None
      | Some w \<Rightarrow> Some (log_to INFO INITIATOR (''Node stopped: '' @ node_name node) w))"

text \<open>\<open>node_destroy\<close> releases the outputs and the node, not its context.\<close>

definition node_destroy :: "'c Node option \<Rightarrow> Mem \<Rightarrow> Mem" where
  "node_destroy node m = (case node of None \<Rightarrow> m | Some n \<Rightarrow> free (free m))"

subsection \<open>Sending a packet to the outputs\<close>

text \<open>\<^const>\<open>None\<close>: an access outside a buffer or to a queue that does not exist.\<close>

fun send_outputs :: "'c Node \<Rightarrow> byte list \<Rightarrow> u16 \<Rightarrow> nat list \<Rightarrow> world \<Rightarrow> world option" where
  "send_outputs node buffer len [] w = Some w"
| "send_outputs node buffer len (i # is) w =
     (case n_outputs node ! i of
        None \<Rightarrow> send_outputs node buffer len is w
      | Some q \<Rightarrow> do {
          Q \<leftarrow> w_queues w q;
          (r, Q') \<leftarrow> push Q buffer len;
          let w = set_queue q Q' w;
          if r \<noteq> int (unat len)
          then send_outputs node buffer len is
                 (log_to WARNING INITIATOR
                   (''Node '' @ node_name node @ '': failed to push to output '' @ dec i) w)
          else send_outputs node buffer len is w
        })"

definition node_send_to_outputs :: "'c Node \<Rightarrow> byte list \<Rightarrow> u16 \<Rightarrow> world \<Rightarrow> world option" where
  "node_send_to_outputs node buffer len w = send_outputs node buffer len [0..<n_output_count node] w"

subsection \<open>Invariants\<close>

definition node_inv :: "'c Node \<Rightarrow> bool" where
  "node_inv node \<longleftrightarrow>
     length (n_outputs node) = MAX_NODE_OUTPUTS \<and> n_output_count node \<le> MAX_NODE_OUTPUTS \<and>
     (\<forall>i < MAX_NODE_OUTPUTS. n_outputs node ! i \<noteq> None \<longleftrightarrow> i < n_output_count node) \<and>
     length (n_name node) = MAX_NODE_NAME \<and> NUL \<in> set (n_name node)"

definition world_inv :: "world \<Rightarrow> bool" where
  "world_inv w \<longleftrightarrow> (\<forall>Q\<in>ran (w_queues w). queue_inv Q)"

text \<open>The queues a node sends to, in the order of its outputs, and the packets of a queue.\<close>

definition targets :: "'c Node \<Rightarrow> qid list" where
  "targets node = List.map_filter (\<lambda>i. n_outputs node ! i) [0..<n_output_count node]"

definition packets :: "world \<Rightarrow> qid \<Rightarrow> byte list list" where
  "packets w q = (case w_queues w q of None \<Rightarrow> [] | Some Q \<Rightarrow> content Q)"

lemma world_invD [dest]: "world_inv w \<Longrightarrow> w_queues w q = Some Q \<Longrightarrow> queue_inv Q"
  by (auto simp: world_inv_def ran_def)

lemma world_simps [simp]:
  "w_queues (log_to ty se t w) = w_queues w" "w_exit (log_to ty se t w) = w_exit w"
  "w_log (log_to ty se t w) = w_log w @ [(ty, se, t)]"
  "w_queues (set_queue q Q w) = (w_queues w)(q \<mapsto> Q)" "w_exit (set_queue q Q w) = w_exit w"
  "w_log (set_queue q Q w) = w_log w"
  by (simp_all add: log_to_def set_queue_def)

lemma packets_simps [simp]:
  "packets (log_to ty se t w) q = packets w q"
  "packets (set_queue q Q w) p = (if p = q then content Q else packets w p)"
  by (simp_all add: packets_def)

lemma packets_Some: "w_queues w q = Some Q \<Longrightarrow> packets w q = content Q"
  by (simp add: packets_def)

lemma world_inv_simps [simp]:
  "world_inv (log_to ty se t w) = world_inv w"
  "world_inv w \<Longrightarrow> queue_inv Q \<Longrightarrow> world_inv (set_queue q Q w)"
  by (auto simp: world_inv_def ran_def)

lemma must_exit_simps [simp]:
  "must_exit node (log_to ty se t w) = must_exit node w"
  "must_exit node (set_queue q Q w) = must_exit node w"
  by (simp_all add: must_exit_def)

lemma packets_length: "world_inv w \<Longrightarrow> length (packets w q) \<le> Q_SIZE"
  using queue_inv_length by (auto simp: packets_def split: option.split)

lemma cstr_strncpy: "cstr (strncpy s n @ NUL # t) = take n (cstr s)"
proof -
  have "NUL \<notin> set (take n (cstr s))" by (meson NUL_notin_cstr in_set_takeD)
  moreover have "strncpy s n @ NUL # t = take n (cstr s) @ NUL # (replicate (n - strlen s) NUL @ t)"
    by (simp add: strncpy_def replicate_app_Cons_same)
  ultimately show ?thesis by (metis cstr_append_NUL)
qed

text \<open>What the creation of a node does with the memory.\<close>

lemma node_create_spec:
  "node_create name type process context m = (res, m') \<Longrightarrow>
     (case res of
        None \<Rightarrow> m_live m' = m_live m
      | Some node \<Rightarrow> m_live m' = m_live m + 2 \<and> node_inv node \<and> n_input node = None \<and>
          n_output_count node = 0 \<and> targets node = [] \<and> n_type node = type \<and> Some (n_process node) = process \<and>
          n_context node = context \<and> \<not> n_should_exit node \<and> \<not> n_thread node \<and>
          node_name node = take 63 (cstr (the name)))"
  using unat_of_nat
  by (auto simp: node_create_def calloc_def free_def node_inv_def targets_def map_filter_simps Let_def
      MAX_NODE_OUTPUTS_def MAX_NODE_NAME_def cstr_strncpy split: option.splits if_splits prod.splits list.splits)

text \<open>One push, whatever the state of the ring.\<close>

lemma push_step:
  assumes "queue_inv Q" "0 < unat k" "unat k \<le> MAX_PKG_SIZE" "unat k \<le> length buf"
  shows "\<exists>r Q'. push Q buf k = Some (r, Q') \<and> queue_inv Q' \<and>
    (r = int (unat k) \<longleftrightarrow> length (content Q) < Q_SIZE) \<and>
    content Q' = content Q @ (if length (content Q) < Q_SIZE then [take (unat k) buf] else [])"
proof (cases "length (content Q) < Q_SIZE")
  case True
  then show ?thesis using push_inv_content [OF assms True] by auto
next
  case False
  then have "length (content Q) = Q_SIZE" using queue_inv_length [OF assms(1)] by simp
  moreover have "0 \<noteq> int (unat k)" using assms(2) by (simp add: unat_gt_0 uint_0_iff)
  ultimately show ?thesis using push_full [OF assms(1) _ assms(3)] assms(1) by auto
qed

lemma send_outputs_spec:
  assumes "world_inv w" "0 < unat k" "unat k \<le> MAX_PKG_SIZE" "unat k \<le> length buf"
    and "set (List.map_filter (\<lambda>i. n_outputs node ! i) is) \<subseteq> dom (w_queues w)"
  shows "\<exists>w'. send_outputs node buf k is w = Some w' \<and> world_inv w' \<and> w_exit w' = w_exit w \<and>
    dom (w_queues w') = dom (w_queues w) \<and> (\<exists>msgs. w_log w' = w_log w @ msgs) \<and>
    (\<forall>q. packets w' q = packets w q @
       replicate (min (count_list (List.map_filter (\<lambda>i. n_outputs node ! i) is) q) (Q_SIZE - length (packets w q)))
         (take (unat k) buf))"
  using assms
proof (induction "is" arbitrary: w)
  case Nil
  then show ?case by (simp add: map_filter_simps)
next
  case (Cons i "is")
  show ?case
  proof (cases "n_outputs node ! i")
    case None
    then show ?thesis using Cons by (simp add: map_filter_simps)
  next
    case (Some q)
    then obtain Q where Q: "w_queues w q = Some Q" using Cons.prems(5) by (auto simp: map_filter_simps)
    obtain r Q' where p: "push Q buf k = Some (r, Q')" "queue_inv Q'"
        "r = int (unat k) \<longleftrightarrow> length (content Q) < Q_SIZE"
        "content Q' = content Q @ (if length (content Q) < Q_SIZE then [take (unat k) buf] else [])"
      using push_step [of Q k buf] Cons.prems Q by blast
    define w1 where "w1 = (if r \<noteq> int (unat k)
      then log_to WARNING INITIATOR (''Node '' @ node_name node @ '': failed to push to output '' @ dec i) (set_queue q Q' w)
      else set_queue q Q' w)"
    have w1: "world_inv w1" "w_exit w1 = w_exit w" "dom (w_queues w1) = dom (w_queues w)"
      "\<exists>msgs. w_log w1 = w_log w @ msgs" "\<And>p. packets w1 p = (if p = q then content Q' else packets w p)"
      using Cons.prems(1) p(2) Q by (auto simp: w1_def)
    obtain w' where w': "send_outputs node buf k is w1 = Some w'" "world_inv w'" "w_exit w' = w_exit w1"
      "dom (w_queues w') = dom (w_queues w1)" "\<exists>msgs. w_log w' = w_log w1 @ msgs"
      "\<forall>q. packets w' q = packets w1 q @
       replicate (min (count_list (List.map_filter (\<lambda>i. n_outputs node ! i) is) q) (Q_SIZE - length (packets w1 q)))
         (take (unat k) buf)"
      using Cons.IH [OF w1(1) Cons.prems(2-4)] Cons.prems(5) w1(3) Some by (auto simp: map_filter_simps)
    have "send_outputs node buf k (i # is) w = Some w'"
      using Some Q p(1) w'(1) by (cases "r = int (unat k)") (simp_all add: w1_def Let_def)
    moreover have "packets w' p = packets w p @
       replicate (min (count_list (List.map_filter (\<lambda>i. n_outputs node ! i) (i # is)) p) (Q_SIZE - length (packets w p)))
         (take (unat k) buf)" for p
    proof (cases "p = q")
      case True
      let ?n = "count_list (List.map_filter (\<lambda>i. n_outputs node ! i) is) q"
      have "Q_SIZE - length (content Q) = Suc (Q_SIZE - Suc (length (content Q)))" if "length (content Q) < Q_SIZE"
        using that by simp
      then show ?thesis
        using w'(6) w1(5) True Some Q p(4) by (auto simp: map_filter_simps packets_Some min_Suc_Suc)
    next
      case False
      then show ?thesis using w'(6) w1(5) Some by (simp add: map_filter_simps)
    qed
    ultimately show ?thesis
      using w' w1 by auto
  qed
qed

subsection \<open>Node threads\<close>

text \<open>
  What one turn of a loop leads to: the next turn, the end of the loop, the end of the function,
  waiting in \<open>pop\<close>, or an access outside the memory.
\<close>

datatype 'l outcome =
    Next 'l world
  | Break 'l world
  | Return 'l world
  | Blocked 'l world
  | Fault

fun run_loop :: "('l \<Rightarrow> 'e \<Rightarrow> world \<Rightarrow> 'l outcome) \<Rightarrow> 'c Node \<Rightarrow> 'e list \<Rightarrow> 'l \<Rightarrow> world \<Rightarrow> 'l outcome" where
  "run_loop body node [] l w = (if must_exit node w then Break l w else Next l w)"
| "run_loop body node (e # es) l w =
     (if must_exit node w then Break l w
      else case body l e w of
        Next l' w' \<Rightarrow> run_loop body node es l' w'
      | r \<Rightarrow> r)"

text \<open>After the loop, a process writes its last messages and returns.\<close>

fun finish :: "('l \<Rightarrow> world \<Rightarrow> world) \<Rightarrow> 'l outcome \<Rightarrow> 'l outcome" where
  "finish f (Break l w) = Return l (f l w)"
| "finish f r = r"

text \<open>What a node does with a packet: drop it, or send a buffer to its outputs after writing messages.\<close>

datatype 'l handled =
    Skip 'l
  | Emit 'l "log_entry list" "byte list" u16
  | Handle_fault

definition log_all :: "log_entry list \<Rightarrow> world \<Rightarrow> world" where
  "log_all msgs w = w\<lparr>w_log := w_log w @ msgs\<rparr>"

text \<open>
  The body of the loops of the tagger, the collector, the IP modifier, the packet counter and the
  logger node, which differ in the module named in the messages and in the treatment of the
  packet. \<open>waits\<close> are the results of the waits on the condition while the queue stays empty.
\<close>

definition consumer_body :: "Sender_e \<Rightarrow> ('c Node \<Rightarrow> 'x \<Rightarrow> byte list \<Rightarrow> int \<Rightarrow> ('x \<times> byte list) handled)
    \<Rightarrow> 'c Node \<Rightarrow> 'x \<times> byte list \<Rightarrow> int list \<Rightarrow> world \<Rightarrow> ('x \<times> byte list) outcome" where
  "consumer_body sender handle node l waits w =
     (case n_input node of
        None \<Rightarrow> Break l (log_to ERROR sender (node_name node @ '': No input queue'') w)
      | Some q \<Rightarrow>
     (case w_queues w q of
        None \<Rightarrow> Fault
      | Some Q \<Rightarrow>
     (case pop Q (snd l) (map (\<lambda>rc. (rc, Q)) waits) of
        Pop_blocked \<Rightarrow> Blocked l w
      | Pop_fault \<Rightarrow> Fault
      | Pop_ret packet_size buffer Q' \<Rightarrow>
          (let w = set_queue q Q' w; l = (fst l, buffer) in
           if packet_size < 1 then
             (if packet_size = 0 then Next l w
              else Break l (log_to ERROR sender (node_name node @ '': pop error'') w))
           else
             (case handle node (fst l) buffer packet_size of
                Handle_fault \<Rightarrow> Fault
              | Skip l \<Rightarrow> Next l w
              | Emit l msgs out len \<Rightarrow>
                  (case node_send_to_outputs node out len (log_all msgs w) of
                     None \<Rightarrow> Fault
                   | Some w \<Rightarrow> Next l w))))))"

lemma log_all_simps [simp]:
  "w_queues (log_all ms w) = w_queues w" "w_exit (log_all ms w) = w_exit w"
  "w_log (log_all ms w) = w_log w @ ms" "packets (log_all ms w) q = packets w q"
  "world_inv (log_all ms w) = world_inv w" "must_exit node (log_all ms w) = must_exit node w"
  by (simp_all add: log_all_def packets_def world_inv_def must_exit_def)

text \<open>
  The contract between the loop and the treatment of a packet. The thread's own variables stand
  for an abstract state (\<open>abs\<close>); \<open>out\<close> is what is sent for a packet in a state, if
  anything, and \<open>upd\<close> the state afterwards.
\<close>

fun outputs :: "('s \<Rightarrow> byte list \<Rightarrow> byte list option) \<Rightarrow> ('s \<Rightarrow> byte list \<Rightarrow> 's) \<Rightarrow> 's \<Rightarrow> byte list list
    \<Rightarrow> byte list list" where
  "outputs out upd s [] = []"
| "outputs out upd s (p # ps) =
     (case out s p of None \<Rightarrow> [] | Some p' \<Rightarrow> [p']) @ outputs out upd (upd s p) ps"

text \<open>
  A node whose thread may run alone until its input queue \<open>q\<close> is empty: its outputs are
  different queues, none is its input, and each has room for what is in the input.
\<close>

definition ready :: "'c Node \<Rightarrow> qid \<Rightarrow> world \<Rightarrow> bool" where
  "ready node q w \<longleftrightarrow>
     world_inv w \<and> n_input node = Some q \<and> w_queues w q \<noteq> None \<and> \<not> must_exit node w \<and>
     set (targets node) \<subseteq> dom (w_queues w) \<and> distinct (targets node) \<and> q \<notin> set (targets node) \<and>
     (\<forall>t\<in>set (targets node). length (packets w t) + length (packets w q) \<le> Q_SIZE)"

lemma ready_log [simp]: "ready node q (log_to ty se t w) = ready node q w"
  by (simp add: ready_def)

lemma outputs_const: "outputs out (\<lambda>s p. s) s ps = List.map_filter (out s) ps"
  by (induction ps) (auto simp: map_filter_simps split: option.split)

lemma outputs_all: "outputs (\<lambda>s p. Some p) upd s ps = ps"
  by (induction ps arbitrary: s) auto

lemma count_list_distinct: "distinct xs \<Longrightarrow> count_list xs x = (if x \<in> set xs then 1 else 0)"
  by (induction xs) auto

lemma node_send_distinct:
  assumes w: "world_inv w" and p: "packet_ok p"
    and t: "set (targets node) \<subseteq> dom (w_queues w)" "distinct (targets node)"
      "\<forall>t\<in>set (targets node). length (packets w t) < Q_SIZE"
  shows "\<exists>w'. node_send_to_outputs node (p @ tail) (of_nat (length p)) w = Some w' \<and> world_inv w' \<and>
    w_exit w' = w_exit w \<and> dom (w_queues w') = dom (w_queues w) \<and>
    (\<forall>t. packets w' t = packets w t @ (if t \<in> set (targets node) then [p] else []))"
proof -
  have k: "unat (of_nat (length p) :: u16) = length p" by (rule unat_packet_length [OF p])
  obtain w' where w': "node_send_to_outputs node (p @ tail) (of_nat (length p)) w = Some w'"
    "world_inv w'" "w_exit w' = w_exit w" "dom (w_queues w') = dom (w_queues w)"
    "\<forall>t. packets w' t = packets w t @ replicate (min (count_list (targets node) t) (Q_SIZE - length (packets w t))) p"
    using send_outputs_spec [of w "of_nat (length p)" "p @ tail" node "[0..<n_output_count node]"] p k w t(1)
    by (auto simp: node_send_to_outputs_def targets_def packet_ok_def)
  have c: "count_list (targets node) t = (if t \<in> set (targets node) then 1 else 0)" for t
    using t(2) by (simp add: count_list_distinct)
  have one: "min 1 (Q_SIZE - length (packets w t)) = 1" if "t \<in> set (targets node)" for t
    using t(3) that by (metis Suc_leI One_nat_def min.absorb1 zero_less_diff)
  show ?thesis using w' c one by auto
qed

locale packet_handler =
  fixes handle :: "'c Node \<Rightarrow> 'x \<Rightarrow> byte list \<Rightarrow> int \<Rightarrow> ('x \<times> byte list) handled"
    and ok :: "'x \<Rightarrow> bool"
    and abs :: "'x \<Rightarrow> 's"
    and good :: "'s \<Rightarrow> byte list \<Rightarrow> bool"
    and out :: "'s \<Rightarrow> byte list \<Rightarrow> byte list option"
    and upd :: "'s \<Rightarrow> byte list \<Rightarrow> 's"
  assumes dropped: "ok x \<Longrightarrow> good (abs x) p \<Longrightarrow> packet_ok p \<Longrightarrow> length (p @ rest) = MAX_PKG_SIZE \<Longrightarrow>
      out (abs x) p = None \<Longrightarrow>
      \<exists>x' buf. handle node x (p @ rest) (int (length p)) = Skip (x', buf) \<and> ok x' \<and>
        abs x' = upd (abs x) p \<and> length buf = MAX_PKG_SIZE"
    and sent: "ok x \<Longrightarrow> good (abs x) p \<Longrightarrow> packet_ok p \<Longrightarrow> length (p @ rest) = MAX_PKG_SIZE \<Longrightarrow>
      out (abs x) p = Some p' \<Longrightarrow>
      \<exists>x' buf msgs tail. handle node x (p @ rest) (int (length p)) =
          Emit (x', buf) msgs (p' @ tail) (of_nat (length p')) \<and>
        ok x' \<and> abs x' = upd (abs x) p \<and> length buf = MAX_PKG_SIZE"
    and out_ok: "good s p \<Longrightarrow> packet_ok p \<Longrightarrow> out s p = Some p' \<Longrightarrow> packet_ok p'"
    and good_upd: "good s p \<Longrightarrow> good s p' \<Longrightarrow> good (upd s p) p'"
begin

lemma body_step:
  assumes w: "world_inv w" "n_input node = Some q" "packets w q = p # ps"
    and l: "ok x" "good (abs x) p" "length buf = MAX_PKG_SIZE"
    and t: "set (targets node) \<subseteq> dom (w_queues w)" "distinct (targets node)" "q \<notin> set (targets node)"
      "\<forall>t\<in>set (targets node). length (packets w t) < Q_SIZE"
  shows "\<exists>x' buf' w'. consumer_body se handle node (x, buf) [] w = Next (x', buf') w' \<and>
    ok x' \<and> abs x' = upd (abs x) p \<and> length buf' = MAX_PKG_SIZE \<and>
    world_inv w' \<and> w_exit w' = w_exit w \<and> dom (w_queues w') = dom (w_queues w) \<and> packets w' q = ps \<and>
    (\<forall>t. t \<noteq> q \<longrightarrow> packets w' t = packets w t @
       (if t \<in> set (targets node) then (case out (abs x) p of None \<Rightarrow> [] | Some p' \<Rightarrow> [p']) else []))"
proof -
  obtain Q where Q: "w_queues w q = Some Q" "content Q = p # ps" "queue_inv Q"
    using w by (auto simp: packets_def split: option.splits)
  define w1 where "w1 = set_queue q (drop_first Q) w"
  have d: "queue_inv (drop_first Q)" "content (drop_first Q) = ps" "packet_ok p"
    using drop_first_spec [OF Q(3)] Q(2) by (auto simp: packet_ok_def)
  have pop: "pop Q buf [] = Pop_ret (int (length p)) (p @ drop (length p) buf) (drop_first Q)"
    using pop_first [OF Q(3)] Q(2) l(3) by simp
  have p0: "\<not> int (length p) < 1" using d(3) by (simp add: packet_ok_def)
  have rest: "length (p @ drop (length p) buf) = MAX_PKG_SIZE"
    using d(3) l(3) by (simp add: packet_ok_def)
  have w1: "world_inv w1" "w_exit w1 = w_exit w" "dom (w_queues w1) = dom (w_queues w)" "packets w1 q = ps"
    "\<And>t. t \<noteq> q \<Longrightarrow> packets w1 t = packets w t"
    using w(1) d Q(1) by (auto simp: w1_def)
  show ?thesis
  proof (cases "out (abs x) p")
    case None
    then obtain x' buf' where "handle node x (p @ drop (length p) buf) (int (length p)) = Skip (x', buf')"
        "ok x'" "abs x' = upd (abs x) p" "length buf' = MAX_PKG_SIZE"
      using dropped [OF l(1,2) d(3) rest] by blast
    then show ?thesis
      using w1 None w(2) Q(1) pop p0 by (auto simp: consumer_body_def w1_def Let_def)
  next
    case (Some p')
    then obtain x' buf' msgs tail where h: "handle node x (p @ drop (length p) buf) (int (length p)) =
          Emit (x', buf') msgs (p' @ tail) (of_nat (length p'))"
        "ok x'" "abs x' = upd (abs x) p" "length buf' = MAX_PKG_SIZE"
      using sent [OF l(1,2) d(3) rest] by blast
    have p': "packet_ok p'" by (rule out_ok [OF l(2) d(3) Some])
    have "\<forall>t\<in>set (targets node). length (packets (log_all msgs w1) t) < Q_SIZE"
      using t(3,4) w1(5) by (metis log_all_simps(4))
    then obtain w' where w': "node_send_to_outputs node (p' @ tail) (of_nat (length p')) (log_all msgs w1) = Some w'"
      "world_inv w'" "w_exit w' = w_exit w" "dom (w_queues w') = dom (w_queues w)"
      "\<forall>t. packets w' t = packets w1 t @ (if t \<in> set (targets node) then [p'] else [])"
      using node_send_distinct [of "log_all msgs w1" p' node tail] p' w1 t(1,2) by auto
    have "consumer_body se handle node (x, buf) [] w = Next (x', buf') w'"
      using w(2) Q(1) pop p0 h(1) w'(1) by (simp add: consumer_body_def w1_def Let_def)
    then show ?thesis
      using h w' w1(4,5) t(3) Some by auto
  qed
qed

lemma run_all:
  assumes w: "world_inv w" "n_input node = Some q" "\<not> must_exit node w"
    and l: "ok x" "\<forall>p\<in>set (packets w q). good (abs x) p" "length buf = MAX_PKG_SIZE"
    and t: "set (targets node) \<subseteq> dom (w_queues w)" "distinct (targets node)" "q \<notin> set (targets node)" "w_queues w q \<noteq> None"
      "\<forall>t\<in>set (targets node). length (packets w t) + length (packets w q) \<le> Q_SIZE"
    and es: "length (packets w q) < n"
  shows "\<exists>x' buf' w'. run_loop (consumer_body se handle node) node (replicate n []) (x, buf) w = Blocked (x', buf') w' \<and>
    abs x' = foldl upd (abs x) (packets w q) \<and> world_inv w' \<and> packets w' q = [] \<and>
    (\<forall>t. t \<noteq> q \<longrightarrow> packets w' t = packets w t @
       (if t \<in> set (targets node) then outputs out upd (abs x) (packets w q) else []))"
  using assms
proof (induction "packets w q" arbitrary: w x buf n)
  case Nil
  obtain Q where Q: "w_queues w q = Some Q" "content Q = []" "queue_inv Q"
    using Nil.prems(1,10) Nil.hyps by (auto simp: packets_def split: option.splits)
  obtain n' where n: "n = Suc n'" using Nil.prems(12) by (cases n) auto
  show ?case
    using Q Nil.prems(1-3) Nil.hyps [symmetric] by (simp add: n consumer_body_def pop_empty)
next
  case (Cons p ps)
  obtain n' where n: "n = Suc n'" using Cons.prems(12) by (cases n) auto
  have g: "good (abs x) p" "\<forall>p'\<in>set ps. good (abs x) p'" using Cons.prems(5) Cons.hyps(2) [symmetric] by auto
  have room: "\<forall>t\<in>set (targets node). length (packets w t) < Q_SIZE"
    using Cons.prems(11) Cons.hyps(2) [symmetric] by auto
  obtain x1 buf1 w1 where s: "consumer_body se handle node (x, buf) [] w = Next (x1, buf1) w1"
    "ok x1" "abs x1 = upd (abs x) p" "length buf1 = MAX_PKG_SIZE"
    "world_inv w1" "w_exit w1 = w_exit w" "dom (w_queues w1) = dom (w_queues w)" "packets w1 q = ps"
    "\<forall>t. t \<noteq> q \<longrightarrow> packets w1 t = packets w t @
       (if t \<in> set (targets node) then (case out (abs x) p of None \<Rightarrow> [] | Some p' \<Rightarrow> [p']) else [])"
    using body_step [OF Cons.prems(1,2) Cons.hyps(2) [symmetric] Cons.prems(4) g(1) Cons.prems(6-9) room] by blast
  have e: "\<not> must_exit node w1" using s(6) Cons.prems(3) by (simp add: must_exit_def)
  have r1: "\<forall>t\<in>set (targets node). length (packets w1 t) + length (packets w1 q) \<le> Q_SIZE"
  proof
    fix t assume "t \<in> set (targets node)"
    then show "length (packets w1 t) + length (packets w1 q) \<le> Q_SIZE"
      using Cons.prems(9,11) s(8,9) Cons.hyps(2) [symmetric] by (fastforce split: option.split)
  qed
  have "\<forall>p'\<in>set (packets w1 q). good (abs x1) p'" using g good_upd s(3,8) by auto
  note good1 = this
  have t1: "set (targets node) \<subseteq> dom (w_queues w1)" using s(7) Cons.prems(7) by simp
  have q1: "w_queues w1 q \<noteq> None" using s(7) Cons.prems(10) by (metis domIff)
  have n1: "length (packets w1 q) < n'" using Cons.prems(12) Cons.hyps(2) [symmetric] s(8) n by simp
  from Cons.hyps(1) [OF s(8) [symmetric] s(5) Cons.prems(2) e s(2) good1 s(4) t1 Cons.prems(8,9) q1 r1 n1]
  obtain x' buf' w' where r: "run_loop (consumer_body se handle node) node (replicate n' []) (x1, buf1) w1 = Blocked (x', buf') w'"
    "abs x' = foldl upd (abs x1) ps" "world_inv w'" "packets w' q = []"
    "\<forall>t. t \<noteq> q \<longrightarrow> packets w' t = packets w1 t @
       (if t \<in> set (targets node) then outputs out upd (abs x1) ps else [])"
    using s(8) by auto
  have "run_loop (consumer_body se handle node) node (replicate n []) (x, buf) w = Blocked (x', buf') w'"
    using Cons.prems(3) s(1) r(1) by (simp add: n)
  then show ?case
    using r s Cons.hyps(2) [symmetric] by auto
qed

lemma run_ready:
  assumes "ready node q w" "ok x" "\<forall>p\<in>set (packets w q). good (abs x) p" "length buf = MAX_PKG_SIZE"
    and "length (packets w q) < n"
  shows "\<exists>x' buf' w'. run_loop (consumer_body se handle node) node (replicate n []) (x, buf) w = Blocked (x', buf') w' \<and>
    abs x' = foldl upd (abs x) (packets w q) \<and> world_inv w' \<and> packets w' q = [] \<and>
    (\<forall>t. t \<noteq> q \<longrightarrow> packets w' t = packets w t @
       (if t \<in> set (targets node) then outputs out upd (abs x) (packets w q) else []))"
  using run_all [OF _ _ _ assms(2-4) _ _ _ _ _ assms(5)] assms(1) by (simp add: ready_def)

end

subsection \<open>Properties of nodes\<close>

lemma targets_count: "node_inv node \<Longrightarrow> targets node = map (\<lambda>i. the (n_outputs node ! i)) [0..<n_output_count node]"
proof -
  assume inv: "node_inv node"
  have "n_outputs node ! i \<noteq> None" if "i \<in> set [0..<n_output_count node]" for i
    using inv that by (auto simp: node_inv_def)
  then have "List.map_filter (\<lambda>i. n_outputs node ! i) is = map (\<lambda>i. the (n_outputs node ! i)) is"
    if "set is \<subseteq> set [0..<n_output_count node]" for "is"
    using that by (induction "is") (auto simp: map_filter_simps split: option.split)
  then show ?thesis by (simp add: targets_def)
qed

lemma add_output_facts:
  assumes "node_inv node"
  shows "node_inv (snd (node_add_output node q)) \<and>
    fst (node_add_output node q) = (if q = None \<or> length (targets node) = 16 then -1 else 0) \<and>
    targets (snd (node_add_output node q)) =
      targets node @ (if q = None \<or> length (targets node) = 16 then [] else [the q])"
proof (cases "q = None \<or> MAX_NODE_OUTPUTS \<le> n_output_count node")
  case True
  then show ?thesis
    using assms by (auto simp: node_add_output_def targets_count node_inv_def MAX_NODE_OUTPUTS_def)
next
  case False
  then obtain p where p: "q = Some p" and c: "n_output_count node < MAX_NODE_OUTPUTS" by auto
  let ?n = "node\<lparr>n_outputs := (n_outputs node)[n_output_count node := q], n_output_count := n_output_count node + 1\<rparr>"
  have inv: "node_inv ?n"
    using assms p c by (auto simp: node_inv_def nth_list_update)
  have "targets ?n = targets node @ [p]"
    using assms c p targets_count [OF inv] by (auto simp: targets_count node_inv_def)
  then show ?thesis
    using False p c inv assms by (simp add: node_add_output_def targets_count MAX_NODE_OUTPUTS_def)
qed

lemma add_output_keeps:
  "n_input (snd (node_add_output node q)) = n_input node"
  "n_should_exit (snd (node_add_output node q)) = n_should_exit node"
  "n_name (snd (node_add_output node q)) = n_name node"
  by (simp_all add: node_add_output_def)

text \<open>
  Connecting an output to a well-formed node. It fails, without effect, exactly for a null
  queue and when all 16 places are taken; otherwise the queue becomes the last of the node's
  targets, and the node stays well formed: its outputs are the first entries of the array and
  there are at most 16 of them.
\<close>

theorem node_add_output_spec:
  assumes "node_inv node"
  shows "node_inv (snd (node_add_output node q)) \<and>
    fst (node_add_output node q) = (if q = None \<or> length (targets node) = 16 then -1 else 0) \<and>
    targets (snd (node_add_output node q)) =
      targets node @ (if q = None \<or> length (targets node) = 16 then [] else [the q])"
  using add_output_facts [OF assms] .

text \<open>
  \<open>node_send_to_outputs\<close> on valid queues and a buffer that holds the announced 1 to 1522
  bytes makes no access out of bounds. Every queue gets the packet once for each output that leads
  to it, as far as there is room; queues that are no output, and the exit flag, stay as they are.
\<close>

theorem node_send_to_outputs_spec:
  assumes "world_inv w" "set (targets node) \<subseteq> dom (w_queues w)"
    and "0 < unat k" "unat k \<le> 1522" "unat k \<le> length buffer"
  shows "\<exists>w'. node_send_to_outputs node buffer k w = Some w' \<and> world_inv w' \<and> w_exit w' = w_exit w \<and>
    (\<forall>q. packets w' q = packets w q @
       replicate (min (count_list (targets node) q) (1000 - length (packets w q))) (take (unat k) buffer))"
proof -
  have "set (List.map_filter ((!) (n_outputs node)) [0..<n_output_count node]) \<subseteq> dom (w_queues w)"
    using assms(2) by (simp add: targets_def)
  then show ?thesis
    using send_outputs_spec [OF assms(1,3) _ assms(5), of node "[0..<n_output_count node]"] assms(4)
    by (auto simp: node_send_to_outputs_def targets_def MAX_PKG_SIZE_def Q_SIZE_def)
qed

text \<open>A node with two outputs, to try things on.\<close>

definition wired :: "'c Node \<Rightarrow> 'c Node" where
  "wired node = snd (node_add_output (snd (node_add_output (snd (node_set_input node (Some 0))) (Some 5))) (Some 6))"

definition example_node :: "nat Node" where
  "example_node = wired (the (fst (node_create (Some ''Node'') NODE_TYPE_CUSTOM (Some Collector_process) None
     \<lparr>m_results = [], m_live = 0\<rparr>)))"

definition fresh :: "'c Node \<Rightarrow> bool" where
  "fresh node \<longleftrightarrow> n_outputs node = replicate 16 None \<and> n_output_count node = 0"

lemma wired:
  assumes "fresh node"
  shows "n_outputs (wired node) = Some 5 # Some 6 # replicate 14 None" "n_output_count (wired node) = 2"
    "n_input (wired node) = Some 0" "targets (wired node) = [5, 6]" "n_context (wired node) = n_context node"
    "n_name (wired node) = n_name node"
  using assms
  by (simp_all add: fresh_def wired_def node_set_input_def node_add_output_def
      MAX_NODE_OUTPUTS_def targets_def map_filter_simps upt_rec numeral_nat)

definition world_of :: "byte list list \<Rightarrow> world" where
  "world_of ps = \<lparr>w_queues = [0 \<mapsto> ring_of ps, 5 \<mapsto> empty_ring, 6 \<mapsto> empty_ring], w_log = [], w_exit = False\<rparr>"

lemma node_create_fresh: "node_create name type process context m = (Some node, m') \<Longrightarrow> fresh node"
  by (auto simp: node_create_def fresh_def MAX_NODE_OUTPUTS_def Let_def split: option.splits if_splits prod.splits)

lemma example_node:
  "n_outputs example_node = Some 5 # Some 6 # replicate 14 None" "n_output_count example_node = 2"
  "n_input example_node = Some 0" "targets example_node = [5, 6]"
  "length (n_name example_node) = 64" "NUL \<in> set (n_name example_node)"
proof -
  obtain node m' where n: "node_create (Some ''Node'') NODE_TYPE_CUSTOM (Some Collector_process) (None :: nat option)
     \<lparr>m_results = [], m_live = 0\<rparr> = (Some node, m')" "length (n_name node) = 64" "NUL \<in> set (n_name node)"
    by (simp add: node_create_def calloc_def MAX_NODE_NAME_def)
  show "n_outputs example_node = Some 5 # Some 6 # replicate 14 None" "n_output_count example_node = 2"
    "n_input example_node = Some 0" "targets example_node = [5, 6]"
    "length (n_name example_node) = 64" "NUL \<in> set (n_name example_node)"
    using wired [OF node_create_fresh [OF n(1)]] n by (simp_all add: example_node_def)
qed

lemma example_node_inv: "node_inv example_node"
proof -
  have "(\<forall>i<16. ((Some 5 # Some 6 # replicate 14 None) :: qid option list) ! i \<noteq> None \<longleftrightarrow> i < 2)"
    by (auto simp: nth_Cons split: nat.splits)
  then show ?thesis
    using example_node by (auto simp: node_inv_def MAX_NODE_OUTPUTS_def MAX_NODE_NAME_def)
qed

lemma world_of:
  assumes "\<forall>p\<in>set ps. packet_ok p" "length ps \<le> Q_SIZE"
  shows "world_inv (world_of ps)" "dom (w_queues (world_of ps)) = {0, 5, 6}" "\<not> w_exit (world_of ps)"
    "packets (world_of ps) 0 = ps" "packets (world_of ps) 5 = []" "packets (world_of ps) 6 = []"
    "w_queues (world_of ps) 0 = Some (ring_of ps)"
  using ring_of [OF assms] empty_ring
  by (auto simp: world_inv_def world_of_def packets_def ran_def split: if_splits)

lemma example_packets: "\<forall>p\<in>set [[1, 2], [3]]. packet_ok p" "length [[1, 2], [3]] \<le> Q_SIZE"
  by (simp_all add: packet_ok_small Q_SIZE_def)

lemma node_add_output_spec_witness:
  "targets (snd (node_add_output example_node (Some 7))) = [5, 6, 7]"
  using node_add_output_spec [OF example_node_inv, of "Some 7"] by (simp add: example_node)

lemma node_send_to_outputs_spec_witness:
  "\<exists>w'. node_send_to_outputs example_node [7, 8, 9] 2 (world_of [[1, 2], [3]]) = Some w' \<and>
     packets w' 0 = [[1, 2], [3]] \<and> packets w' 5 = [[7, 8]] \<and> packets w' 6 = [[7, 8]]"
  using node_send_to_outputs_spec [OF world_of(1) [OF example_packets], of example_node 2 "[7, 8, 9]"]
    world_of [OF example_packets]
  by (auto simp: example_node)

lemma wired_ready:
  assumes "fresh node" "\<forall>p\<in>set ps. packet_ok p" "length ps \<le> Q_SIZE"
  shows "ready (wired node) 0 (world_of ps)"
  using world_of [OF assms(2,3)] wired [OF assms(1)] assms(3)
  by (simp add: ready_def must_exit_def Q_SIZE_def)

end
