(* ===== verification/Dispatcher_Node.thy ===== *)
theory Dispatcher_Node
  imports Node_Core
begin

text \<open>
  The dispatcher, nodes/src/dispatcher_node.c, which gives every packet of its input queue to one
  of its outputs, in turn or at random. \<open>next_index\<close> is an \<^verbatim>\<open>unsigned int\<close>; the
  results of \<open>rand\<close> come with the turn of the loop in which they are used.
\<close>

datatype DispatchStrategy = DISPATCH_ROUND_ROBIN | DISPATCH_RANDOM

record DispatcherContext =
  strategy :: DispatchStrategy
  next_index :: u32
  packets_sent :: u64

definition dispatcher_node_create :: "string option \<Rightarrow> DispatchStrategy \<Rightarrow> Mem
    \<Rightarrow> DispatcherContext Node option \<times> Mem" where
  "dispatcher_node_create name strat m =
     (case name of
        None \<Rightarrow> (None, m)
      | Some name \<Rightarrow>
          (let (ok, m) = calloc m in
           if \<not> ok then (None, m)
           else
             (let ctx = \<lparr>strategy = strat, next_index = 0, packets_sent = 0\<rparr>;
                  (node, m) = node_create (Some name) NODE_TYPE_CUSTOM (Some Dispatcher_process) (Some ctx) m
              in case node of
                   None \<Rightarrow> (None, free m)
                 | Some node \<Rightarrow> (Some node, m))))"

text \<open>
  The target of a packet. The count of outputs is an \<^verbatim>\<open>int\<close> that is converted to
  unsigned for the remainder of \<open>next_index\<close>.
\<close>

definition choose_target :: "DispatcherContext \<Rightarrow> nat \<Rightarrow> nat \<Rightarrow> nat \<times> DispatcherContext" where
  "choose_target ctx output_count rand =
     (case strategy ctx of
        DISPATCH_ROUND_ROBIN \<Rightarrow>
          (unat (next_index ctx mod of_nat output_count),
           ctx\<lparr>next_index := (next_index ctx + 1) mod of_nat output_count\<rparr>)
      | DISPATCH_RANDOM \<Rightarrow> (rand mod output_count, ctx))"

text \<open>One turn; the environment gives the results of the waits and of \<open>rand\<close>.\<close>

definition dispatcher_body :: "'c Node \<Rightarrow> DispatcherContext \<times> byte list \<Rightarrow> int list \<times> nat \<Rightarrow> world
    \<Rightarrow> (DispatcherContext \<times> byte list) outcome" where
  "dispatcher_body node l env w =
     (case n_input node of
        None \<Rightarrow> Break l (log_to ERROR INITIATOR (node_name node @ '': No input queue'') w)
      | Some q \<Rightarrow>
     (if n_output_count node = 0
      then Break l (log_to ERROR INITIATOR (node_name node @ '': No output queues configured'') w)
      else
     (case w_queues w q of
        None \<Rightarrow> Fault
      | Some Q \<Rightarrow>
     (case pop Q (snd l) (map (\<lambda>rc. (rc, Q)) (fst env)) of
        Pop_blocked \<Rightarrow> Blocked l w
      | Pop_fault \<Rightarrow> Fault
      | Pop_ret packet_size buffer Q' \<Rightarrow>
          (let w = set_queue q Q' w; ctx = fst l in
           if packet_size < 1 then
             (if packet_size = 0 then Next (ctx, buffer) w
              else Break (ctx, buffer) (log_to ERROR INITIATOR (node_name node @ '': pop error'') w))
           else
             (let (target_index, ctx) = choose_target ctx (n_output_count node) (snd env) in
              case n_outputs node ! target_index of
                None \<Rightarrow> Next (ctx, buffer) w
              | Some t \<Rightarrow>
                  (case w_queues w t of
                     None \<Rightarrow> Fault
                   | Some T \<Rightarrow>
                  (case push T buffer (of_int packet_size) of
                     None \<Rightarrow> Fault
                   | Some (r, T') \<Rightarrow>
                       (let w = set_queue t T' w in
                        if r \<noteq> packet_size
                        then Next (ctx, buffer) (log_to WARNING INITIATOR
                               (node_name node @ '': failed to push to output '' @ dec target_index) w)
                        else Next (ctx\<lparr>packets_sent := packets_sent ctx + 1\<rparr>, buffer) w))))))))) "

fun strategy_name :: "DispatchStrategy \<Rightarrow> string" where
  "strategy_name DISPATCH_ROUND_ROBIN = ''Round-Robin''"
| "strategy_name DISPATCH_RANDOM = ''Random''"

definition dispatcher_node_process :: "DispatcherContext Node \<Rightarrow> (int list \<times> nat) list \<Rightarrow> world
    \<Rightarrow> world + (DispatcherContext \<times> byte list) outcome" where
  "dispatcher_node_process node es w =
     (case n_context node of
        None \<Rightarrow> Inl (log_to ERROR INITIATOR (node_name node @ '': Invalid context'') w)
      | Some ctx \<Rightarrow>
          (let w = log_to INFO INITIATOR (''Dispatcher node started: '' @ node_name node @ '' (strategy: ''
                     @ strategy_name (strategy ctx) @ '')'') w in
           Inr (finish (\<lambda>l. log_to INFO INITIATOR (''Dispatcher node stopped: '' @ node_name node
                     @ '' (total packets: '' @ dec (unat (packets_sent (fst l))) @ '')''))
             (run_loop (dispatcher_body node) node es (ctx, replicate ETHERNET_FRAME_LENGTH 0) w))))"

subsection \<open>Dealing packets out\<close>

text \<open>What output \<open>j\<close> of \<open>n\<close> gets when the first packet goes to output \<open>k\<close>.\<close>

fun share :: "nat \<Rightarrow> nat \<Rightarrow> nat \<Rightarrow> 'a list \<Rightarrow> 'a list" where
  "share n k j [] = []"
| "share n k j (p # ps) = (if k = j then [p] else []) @ share n ((k + 1) mod n) j ps"

lemma share_nth: "k < n \<Longrightarrow> share n k j ps = map ((!) ps) (filter (\<lambda>i. (k + i) mod n = j) [0..<length ps])"
proof (induction ps arbitrary: k)
  case (Cons p ps)
  have "(k + 1) mod n < n" using Cons.prems by simp
  have up: "[0..<length (p # ps)] = 0 # map Suc [0..<length ps]" by (simp add: map_Suc_upt upt_conv_Cons del: upt_Suc)
  have eq: "(Suc k mod n + i) mod n = Suc (k + i) mod n" for i
    using mod_add_left_eq [of "Suc k" n i] by simp
  show ?case
    unfolding up using Cons.IH [OF \<open>(k + 1) mod n < n\<close>] Cons.prems
    by (auto simp add: filter_map comp_def eq)
qed simp

text \<open>How many packets an output gets; two outputs differ by at most one.\<close>

lemma length_share_period:
  "k < n \<Longrightarrow> j < n \<Longrightarrow> length (share n k j ps) = (length ps + (if k \<le> j then n - 1 - (j - k) else k - j - 1)) div n"
proof (induction ps arbitrary: k)
  case Nil
  then show ?case by (auto simp: div_eq_0_iff)
next
  case (Cons p ps)
  have n: "0 < n" using Cons.prems by simp
  let ?d = "\<lambda>k. if k \<le> j then n - 1 - (j - k) else k - j - 1"
  show ?case
  proof (cases "k = j")
    case True
    have nxt: "?d ((k + 1) mod n) = 0"
    proof (cases "k + 1 = n")
      case True
      then show ?thesis using \<open>k = j\<close> by simp
    next
      case False
      then show ?thesis using \<open>k = j\<close> Cons.prems by simp
    qed
    have A: "length (share n k j (p # ps)) = 1 + (length ps + 0) div n"
      using Cons.IH [of "(k + 1) mod n"] True Cons.prems nxt by simp
    have B: "length (p # ps) + ?d k = length ps + n" using True n by simp
    show ?thesis unfolding A B using n by (simp add: div_add_self2)
  next
    case False
    have nxt: "?d k + 1 = ?d ((k + 1) mod n)"
    proof (cases "k + 1 = n")
      case True
      then show ?thesis using False Cons.prems by auto
    next
      case False
      then show ?thesis using \<open>k \<noteq> j\<close> Cons.prems by auto
    qed
    have A: "length (share n k j (p # ps)) = (length ps + ?d ((k + 1) mod n)) div n"
      using Cons.IH [of "(k + 1) mod n"] False Cons.prems n by simp
    have B: "length (p # ps) + ?d k = length ps + ?d ((k + 1) mod n)"
      unfolding nxt [symmetric] by simp
    show ?thesis unfolding A B ..
  qed
qed

lemma share_fair:
  assumes "k < n" "i < n" "j < n"
  shows "length (share n k i ps) \<le> length (share n k j ps) + 1"
proof -
  let ?d = "\<lambda>j. if k \<le> j then n - 1 - (j - k) else k - j - 1"
  have "?d i < n" using assms by auto
  then have "(length ps + ?d i) div n \<le> (length ps + n) div n" by (intro div_le_mono) simp
  also have "\<dots> = length ps div n + 1" using assms(1) by (simp add: div_add_self2)
  also have "length ps div n \<le> (length ps + ?d j) div n" by (intro div_le_mono) simp
  finally show ?thesis
    unfolding length_share_period [OF assms(1,2)] length_share_period [OF assms(1,3)] by simp
qed

subsection \<open>The thread\<close>

lemma targets_nth: "node_inv node \<Longrightarrow> i < n_output_count node \<Longrightarrow> n_outputs node ! i = Some (targets node ! i)"
  using targets_count [of node] by (auto simp: node_inv_def)

lemma length_targets: "node_inv node \<Longrightarrow> length (targets node) = n_output_count node"
  by (simp add: targets_count)

lemma choose_round_robin:
  assumes "strategy ctx = DISPATCH_ROUND_ROBIN" "unat (next_index ctx) < n" "n \<le> 16"
  shows "\<exists>ctx'. choose_target ctx n r = (unat (next_index ctx), ctx') \<and>
    strategy ctx' = DISPATCH_ROUND_ROBIN \<and> unat (next_index ctx') = (unat (next_index ctx) + 1) mod n \<and>
    packets_sent ctx' = packets_sent ctx"
proof -
  have n: "unat (of_nat n :: u32) = n" using assms(3) by (simp add: unat_of_nat take_bit_nat_eq_self)
  have "unat (next_index ctx + 1) = unat (next_index ctx) + 1"
    using assms(2,3) by (simp add: unat_word_ariths)
  then show ?thesis
    using assms(1,2) n by (simp add: choose_target_def unat_mod_distrib)
qed

lemma dispatcher_step:
  assumes w: "world_inv w" "n_input node = Some q" "packets w q = p # ps"
    and node: "node_inv node" "unat (next_index ctx) < n_output_count node" "strategy ctx = DISPATCH_ROUND_ROBIN"
    and buf: "length buf = MAX_PKG_SIZE"
    and t: "set (targets node) \<subseteq> dom (w_queues w)" "q \<notin> set (targets node)"
      "\<forall>t\<in>set (targets node). length (packets w t) < Q_SIZE"
  shows "\<exists>ctx' buf' w'. dispatcher_body node (ctx, buf) ([], r) w = Next (ctx', buf') w' \<and>
    strategy ctx' = DISPATCH_ROUND_ROBIN \<and>
    unat (next_index ctx') = (unat (next_index ctx) + 1) mod n_output_count node \<and>
    packets_sent ctx' = packets_sent ctx + 1 \<and> length buf' = MAX_PKG_SIZE \<and>
    world_inv w' \<and> w_exit w' = w_exit w \<and> dom (w_queues w') = dom (w_queues w) \<and> packets w' q = ps \<and>
    (\<forall>t. t \<noteq> q \<longrightarrow> packets w' t = packets w t @ (if t = targets node ! unat (next_index ctx) then [p] else []))"
proof -
  let ?n = "n_output_count node" and ?k = "unat (next_index ctx)"
  obtain Q where Q: "w_queues w q = Some Q" "content Q = p # ps" "queue_inv Q"
    using w by (auto simp: packets_def split: option.splits)
  have d: "queue_inv (drop_first Q)" "content (drop_first Q) = ps" "packet_ok p"
    using drop_first_spec [OF Q(3)] Q(2) by (auto simp: packet_ok_def)
  have pop: "pop Q buf [] = Pop_ret (int (length p)) (p @ drop (length p) buf) (drop_first Q)"
    using pop_first [OF Q(3)] Q(2) buf by simp
  have len: "unat (of_int (int (length p)) :: u16) = length p" using unat_packet_length [OF d(3)] by simp
  have len_int: "uint (of_int (int (length p)) :: u16) = int (length p)" using arg_cong [OF len, of int] by simp
  define t where "t = targets node ! ?k"
  have tin: "t \<in> set (targets node)" using node(2) length_targets [OF node(1)] by (simp add: t_def)
  then obtain T where T: "w_queues w t = Some T" "queue_inv T" "length (content T) < Q_SIZE" "t \<noteq> q"
    using t w(1) packets_Some by fastforce
  obtain r' T' where p: "push T (p @ drop (length p) buf) (of_int (int (length p))) = Some (r', T')" "queue_inv T'"
      "r' = int (length p)" "content T' = content T @ [p]"
    using push_step [OF T(2), of "of_int (int (length p))" "p @ drop (length p) buf"] len len_int d(3) T(3)
    by (auto simp: packet_ok_def)
  obtain ctx' where c: "choose_target ctx ?n r = (?k, ctx')" "strategy ctx' = DISPATCH_ROUND_ROBIN"
      "unat (next_index ctx') = (?k + 1) mod ?n" "packets_sent ctx' = packets_sent ctx"
    using choose_round_robin [OF node(3,2), of r] node(1) by (auto simp: node_inv_def MAX_NODE_OUTPUTS_def)
  define w' where "w' = set_queue t T' (set_queue q (drop_first Q) w)"
  have "dispatcher_body node (ctx, buf) ([], r) w =
      Next (ctx'\<lparr>packets_sent := packets_sent ctx' + 1\<rparr>, p @ drop (length p) buf) w'"
    using w(2) node(2) Q(1) pop d(3) c(1) targets_nth [OF node(1,2)] T(1,4) p(1,3)
    by (simp add: dispatcher_body_def packet_ok_def t_def [symmetric] w'_def)
  moreover have "world_inv w'" "w_exit w' = w_exit w" "dom (w_queues w') = dom (w_queues w)" "packets w' q = ps"
    using w(1) d(1,2) p(2) Q(1) T(1,4) by (auto simp: w'_def)
  moreover have "\<forall>u. u \<noteq> q \<longrightarrow> packets w' u = packets w u @ (if u = t then [p] else [])"
    using p(4) T(1) by (auto simp: w'_def packets_Some)
  ultimately show ?thesis
    using c d(3) buf by (auto simp: t_def packet_ok_def)
qed

lemma dispatcher_run:
  assumes "ready node q w" "node_inv node" "unat (next_index ctx) < n_output_count node"
    and "strategy ctx = DISPATCH_ROUND_ROBIN" "length buf = MAX_PKG_SIZE" "length (packets w q) < length es"
    and "\<forall>e\<in>set es. fst e = []"
  shows "\<exists>ctx' buf' w'. run_loop (dispatcher_body node) node es (ctx, buf) w = Blocked (ctx', buf') w' \<and>
    packets_sent ctx' = packets_sent ctx + of_nat (length (packets w q)) \<and> world_inv w' \<and> packets w' q = [] \<and>
    (\<forall>j < n_output_count node. packets w' (targets node ! j) = packets w (targets node ! j) @
       share (n_output_count node) (unat (next_index ctx)) j (packets w q)) \<and>
    (\<forall>t. t \<noteq> q \<longrightarrow> t \<notin> set (targets node) \<longrightarrow> packets w' t = packets w t)"
  using assms
proof (induction "packets w q" arbitrary: w ctx buf es)
  case Nil
  obtain Q where Q: "w_queues w q = Some Q" "content Q = []" "queue_inv Q"
    using Nil.prems(1) Nil.hyps by (auto simp: packets_def ready_def split: option.splits)
  obtain e es' where e: "es = ([], e) # es'" using Nil.prems(6,7) by (cases es) auto
  show ?case
    using Q Nil.prems(1,3) Nil.hyps [symmetric] by (simp add: e ready_def dispatcher_body_def pop_empty)
next
  case (Cons p ps)
  let ?n = "n_output_count node"
  obtain e es' where e: "es = ([], e) # es'" using Cons.prems(6,7) by (cases es) auto
  note r = Cons.prems(1) [unfolded ready_def]
  have room: "\<forall>t\<in>set (targets node). length (packets w t) < Q_SIZE" using r Cons.hyps(2) [symmetric] by auto
  obtain ctx1 buf1 w1 where s: "dispatcher_body node (ctx, buf) ([], e) w = Next (ctx1, buf1) w1"
    "strategy ctx1 = DISPATCH_ROUND_ROBIN" "unat (next_index ctx1) = (unat (next_index ctx) + 1) mod ?n"
    "packets_sent ctx1 = packets_sent ctx + 1" "length buf1 = MAX_PKG_SIZE" "world_inv w1" "w_exit w1 = w_exit w"
    "dom (w_queues w1) = dom (w_queues w)" "packets w1 q = ps"
    "\<forall>t. t \<noteq> q \<longrightarrow> packets w1 t = packets w t @ (if t = targets node ! unat (next_index ctx) then [p] else [])"
    using dispatcher_step [OF _ _ Cons.hyps(2) [symmetric] Cons.prems(2,3,4,5) _ _ room, of e] r by blast
  have "\<forall>t\<in>set (targets node). length (packets w1 t) + length (packets w1 q) \<le> Q_SIZE"
  proof
    fix t assume "t \<in> set (targets node)"
    then show "length (packets w1 t) + length (packets w1 q) \<le> Q_SIZE"
      using r s(9,10) Cons.hyps(2) [symmetric] by fastforce
  qed
  moreover have "w_queues w1 q \<noteq> None" using s(8) r by (metis domIff)
  ultimately have ready1: "ready node q w1" using r s(6-8) by (auto simp: ready_def must_exit_def)
  have k1: "unat (next_index ctx1) < ?n" using s(3) Cons.prems(3) by simp
  from Cons.hyps(1) [OF s(9) [symmetric] ready1 Cons.prems(2) k1 s(2,5), of es'] Cons.prems(6,7) s(9) Cons.hyps(2) [symmetric]
  obtain ctx' buf' w' where u: "run_loop (dispatcher_body node) node es' (ctx1, buf1) w1 = Blocked (ctx', buf') w'"
    "packets_sent ctx' = packets_sent ctx1 + of_nat (length ps)" "world_inv w'" "packets w' q = []"
    "\<forall>j < ?n. packets w' (targets node ! j) = packets w1 (targets node ! j) @ share ?n (unat (next_index ctx1)) j ps"
    "\<forall>t. t \<noteq> q \<longrightarrow> t \<notin> set (targets node) \<longrightarrow> packets w' t = packets w1 t"
    by (auto simp: e)
  have inj: "targets node ! j = targets node ! unat (next_index ctx) \<longleftrightarrow> unat (next_index ctx) = j" if "j < ?n" for j
    using r that Cons.prems(3) length_targets [OF Cons.prems(2)] nth_eq_iff_index_eq by metis
  have tin: "targets node ! j \<in> set (targets node)" if "j < ?n" for j
    using that length_targets [OF Cons.prems(2)] by simp
  have "packets w' (targets node ! j) = packets w (targets node ! j) @ share ?n (unat (next_index ctx)) j (p # ps)" if j: "j < ?n" for j
  proof -
    have "targets node ! j \<noteq> q" using tin [OF j] r by metis
    then show ?thesis using u(5) s(3,10) j inj [OF j] by simp
  qed
  moreover have "\<forall>t. t \<noteq> q \<longrightarrow> t \<notin> set (targets node) \<longrightarrow> packets w' t = packets w t"
    using u(6) s(10) tin [OF Cons.prems(3)] by auto
  ultimately show ?case
    using u(1-4) s(1,4) Cons.hyps(2) [symmetric] r by (simp add: e)
qed


subsection \<open>Properties of the dispatcher\<close>

text \<open>
  C15: The round-robin dispatcher run on its own empties its input queue and deals the packets out
  in turn: with \<open>n\<close> outputs and \<open>next_index = k\<close>, packet number \<open>i\<close> goes to
  output \<open>(k + i) mod n\<close> and to no other, unchanged and in order; every packet is counted in
  \<open>packets_sent\<close>.
\<close>

theorem dispatcher_process_run:
  assumes "ready node q w" "node_inv node" "n_context node = Some ctx" "strategy ctx = DISPATCH_ROUND_ROBIN"
    and "unat (next_index ctx) < n_output_count node"
    and "length (packets w q) < length es" "\<forall>e\<in>set es. fst e = []"
  shows "\<exists>ctx' buf' w'. dispatcher_node_process node es w = Inr (Blocked (ctx', buf') w') \<and> world_inv w' \<and>
    packets w' q = [] \<and>
    packets_sent ctx' = packets_sent ctx + of_nat (length (packets w q)) \<and>
    (\<forall>j < n_output_count node. packets w' (targets node ! j) = packets w (targets node ! j) @
       map ((!) (packets w q))
         (filter (\<lambda>i. (unat (next_index ctx) + i) mod n_output_count node = j) [0..<length (packets w q)])) \<and>
    (\<forall>t. t \<noteq> q \<longrightarrow> t \<notin> set (targets node) \<longrightarrow> packets w' t = packets w t)"
proof -
  let ?w = "log_to INFO INITIATOR (''Dispatcher node started: '' @ node_name node @ '' (strategy: ''
                     @ strategy_name (strategy ctx) @ '')'') w"
  show ?thesis
    using dispatcher_run [of node q ?w ctx "replicate ETHERNET_FRAME_LENGTH 0" es] assms
    by (auto simp: dispatcher_node_process_def MAX_PKG_SIZE_def ETHERNET_FRAME_LENGTH_def Let_def share_nth)
qed

text \<open>
  The dispatcher is fair: after such a run, the numbers of packets that two of its outputs have
  received differ by at most one.
\<close>

theorem dispatcher_fair:
  assumes "ready node q w" "node_inv node" "unat (next_index ctx) < n_output_count node"
    and "strategy ctx = DISPATCH_ROUND_ROBIN" "length buf = 1522" "length (packets w q) < length es"
    and "\<forall>e\<in>set es. fst e = []" "i < n_output_count node" "j < n_output_count node"
  shows "\<exists>l w'. run_loop (dispatcher_body node) node es (ctx, buf) w = Blocked l w' \<and>
    length (packets w' (targets node ! i)) - length (packets w (targets node ! i)) \<le>
    length (packets w' (targets node ! j)) - length (packets w (targets node ! j)) + 1"
  using dispatcher_run [OF assms(1-4) _ assms(6,7), of buf] share_fair [OF assms(3,8,9)] assms(5,8,9)
  by (auto simp: MAX_PKG_SIZE_def)

subsection \<open>The properties at work\<close>

definition example_dispatcher :: "DispatcherContext Node" where
  "example_dispatcher = the (fst (dispatcher_node_create (Some ''Disp_Sniffer'') DISPATCH_ROUND_ROBIN
     \<lparr>m_results = [], m_live = 0\<rparr>))"

abbreviation dispatcher0 :: DispatcherContext where
  "dispatcher0 \<equiv> \<lparr>strategy = DISPATCH_ROUND_ROBIN, next_index = 0, packets_sent = 0\<rparr>"

lemma example_dispatcher: "n_context example_dispatcher = Some dispatcher0" "fresh example_dispatcher"
  "length (n_name example_dispatcher) = 64" "NUL \<in> set (n_name example_dispatcher)"
  by (simp_all add: example_dispatcher_def dispatcher_node_create_def node_create_def calloc_def fresh_def
      MAX_NODE_OUTPUTS_def Let_def MAX_NODE_NAME_def)

lemma wired_inv:
  assumes "fresh node" "length (n_name node) = 64" "NUL \<in> set (n_name node)"
  shows "node_inv (wired node)"
proof -
  have "(\<forall>i<16. ((Some 5 # Some 6 # replicate 14 None) :: qid option list) ! i \<noteq> None \<longleftrightarrow> i < 2)"
    by (auto simp: nth_Cons split: nat.splits)
  then show ?thesis
    using wired [OF assms(1)] assms(2,3) by (auto simp: node_inv_def MAX_NODE_OUTPUTS_def MAX_NODE_NAME_def)
qed

lemma example_stream3: "\<forall>p\<in>set [[1], [2], [3 :: byte]]. packet_ok p" "length [[1], [2], [3 :: byte]] \<le> Q_SIZE"
  by (auto simp: Q_SIZE_def packet_ok_small)

lemma dispatcher_process_run_witness:
  "\<exists>ctx' buf' w'. dispatcher_node_process (wired example_dispatcher) (replicate 4 ([], 9)) (world_of [[1], [2], [3]]) =
      Inr (Blocked (ctx', buf') w') \<and> packets_sent ctx' = 3 \<and> packets w' 5 = [[1], [3]]"
proof -
  have u: "[0..<3] = [0, 1, 2 :: nat]" by (simp add: upt_rec)
  show ?thesis
    using dispatcher_process_run [OF wired_ready [OF example_dispatcher(2) example_stream3]
        wired_inv [OF example_dispatcher(2,3,4)], of dispatcher0 "replicate 4 ([], 9)"]
      wired [OF example_dispatcher(2)] example_dispatcher(1) world_of [OF example_stream3]
    by (auto simp: u less_2_cases_iff imp_disjL all_conj_distrib)
qed

lemma dispatcher_fair_witness:
  "\<exists>l w'. run_loop (dispatcher_body (wired example_dispatcher)) (wired example_dispatcher) (replicate 4 ([], 9))
       (dispatcher0, replicate 1522 0) (world_of [[1], [2], [3]]) = Blocked l w' \<and>
     length (packets w' 5) \<le> length (packets w' 6) + 1"
  using dispatcher_fair [OF wired_ready [OF example_dispatcher(2) example_stream3]
      wired_inv [OF example_dispatcher(2,3,4)], of dispatcher0 "replicate 1522 0" "replicate 4 ([], 9)" 0 1]
    wired [OF example_dispatcher(2)] world_of [OF example_stream3]
  by simp

end
