(* ===== verification/Config_Parser.thy ===== *)
theory Config_Parser
  imports C_Lib
begin

text \<open>
  The configuration parser, config_parser/config_parser.c: \<open>tag_rules_load\<close> reads the
  rules file line by line through a buffer of 100 bytes, edits each line in place, splits it at
  the dashes and converts the parts; \<open>validate_rules\<close> checks the table that results.

  An address is an \<^verbatim>\<open>s_addr\<close>, in network byte order. The file system is the argument
  \<open>fs\<close>: what \<open>fopen\<close> finds under a path. The only memory access of the component
  that the code does not bound is the scan of \<open>line_editor\<close>; it is modelled on the
  100-byte array itself, and an access outside the array is the value \<open>LE_overrun\<close>,
  \<open>Line_overrun\<close> and \<open>Overrun\<close> of the three levels.
\<close>

definition MAX_RULES :: nat where "MAX_RULES = 128"
definition MAX_LINE_LENGTH :: nat where "MAX_LINE_LENGTH = 100"
definition MAX_RULE_CONTENT_LENGTH :: nat where "MAX_RULE_CONTENT_LENGTH = 37"
definition MIN_VLAN_ID :: int where "MIN_VLAN_ID = 0"
definition MAX_VLAN_ID :: int where "MAX_VLAN_ID = 4095"
definition INT_MAX :: int where "INT_MAX = 2 ^ 31 - 1"
definition INT_MIN :: int where "INT_MIN = - (2 ^ 31)"

record tag_rule_t =
  ip_left :: u32
  ip_right :: u32
  tag :: int

record tag_rules_t =
  rules :: "tag_rule_t list"
  rules_size :: nat

subsection \<open>Converting the parts of a rule\<close>

text \<open>Status and new value of the object written to; a null string is \<^const>\<open>None\<close>.\<close>

definition ip_converting :: "u32 \<Rightarrow> string option \<Rightarrow> int \<times> u32" where
  "ip_converting obj ip_str =
     (case ip_str of
        None \<Rightarrow> (-1, obj)
      | Some s \<Rightarrow> (case inet_aton s of None \<Rightarrow> (-1, obj) | Some a \<Rightarrow> (0, a)))"

definition tag_converting :: "int \<Rightarrow> string option \<Rightarrow> int \<times> int" where
  "tag_converting obj tag_str =
     (case tag_str of
        None \<Rightarrow> (-1, obj)
      | Some s \<Rightarrow>
          (let (tag_long, endptr, erange) = strtol10 s in
           if erange \<or> tag_long < INT_MIN \<or> tag_long > INT_MAX then (-1, obj)
           else if endptr = s \<or> endptr \<noteq> [] then (-1, obj)
           else (0, tag_long)))"

text \<open>The counting loop over the characters before the NUL.\<close>

definition char_count :: "string option \<Rightarrow> char \<Rightarrow> int" where
  "char_count str symbol =
     (case str of
        None \<Rightarrow> -1
      | Some s \<Rightarrow> fold (\<lambda>i n. if s ! i = symbol then n + 1 else n) [0..<strlen s] 0)"


subsection \<open>Editing a line in its buffer\<close>

datatype line_editor_result =
    LE_null              \<comment> \<open>the null pointer\<close>
  | LE_at nat string     \<comment> \<open>offset of the content and the edited array\<close>
  | LE_overrun           \<comment> \<open>an access outside the array\<close>

text \<open>The first loop: the offset of the first character that is no blank, 0 if there is none.\<close>

definition find_start :: "string \<Rightarrow> nat" where
  "find_start s =
     (case find (\<lambda>i. s ! i \<noteq> blank \<and> s ! i \<noteq> tab) [0..<strlen s] of
        None \<Rightarrow> 0 | Some i \<Rightarrow> i)"

definition is_terminator :: "char \<Rightarrow> bool" where
  "is_terminator c \<longleftrightarrow> c = blank \<or> c = tab \<or> c = CHR ''#'' \<or> c = newline"

text \<open>
  The second loop: at most \<open>k\<close> characters from offset \<open>p\<close> are looked at, past the
  NUL of the string if it comes first; the first terminator is overwritten with a NUL.
\<close>

fun cut_loop :: "nat \<Rightarrow> nat \<Rightarrow> string \<Rightarrow> string option" where
  "cut_loop 0 p s = Some s"
| "cut_loop (Suc k) p s =
     (if length s \<le> p then None
      else if is_terminator (s ! p) then Some (s[p := NUL])
      else cut_loop k (Suc p) s)"

definition line_editor :: "string option \<Rightarrow> line_editor_result" where
  "line_editor str =
     (case str of
        None \<Rightarrow> LE_null
      | Some s \<Rightarrow>
          (let start = find_start s in
           if s ! start = CHR ''#'' then LE_at start s
           else (case cut_loop MAX_RULE_CONTENT_LENGTH start s of
                   None \<Rightarrow> LE_overrun
                 | Some s' \<Rightarrow> LE_at start s')))"


subsection \<open>Validating the table\<close>

definition rule_left :: "tag_rules_t \<Rightarrow> nat \<Rightarrow> u32" where
  "rule_left t i = ntohl (ip_left (rules t ! i))"

definition rule_right :: "tag_rules_t \<Rightarrow> nat \<Rightarrow> u32" where
  "rule_right t i = ntohl (ip_right (rules t ! i))"

definition validate_rules :: "tag_rules_t \<Rightarrow> int" where
  "validate_rules t =
     (if list_ex (\<lambda>i. rule_left t i > rule_right t i) [0..<rules_size t] then -11
      else if list_ex (\<lambda>i. list_ex (\<lambda>j.
             \<not> (rule_right t i < rule_left t j \<or> rule_right t j < rule_left t i))
             [i + 1..<rules_size t]) [0..<rules_size t] then -12
      else if list_ex (\<lambda>i. tag (rules t ! i) < MIN_VLAN_ID \<or> tag (rules t ! i) > MAX_VLAN_ID)
             [0..<rules_size t] then -13
      else 0)"


subsection \<open>Loading\<close>

datatype line_outcome =
    Line_skip
  | Line_rule tag_rules_t
  | Line_error int tag_rules_t
  | Line_overrun

definition set_rule :: "nat \<Rightarrow> (tag_rule_t \<Rightarrow> tag_rule_t) \<Rightarrow> tag_rules_t \<Rightarrow> tag_rules_t" where
  "set_rule i f t = t\<lparr>rules := (rules t)[i := f (rules t ! i)]\<rparr>"

text \<open>The last part of a line: the VLAN id, at scan position \<open>save\<close> of \<open>strtok_r\<close>.\<close>

definition load_tag :: "tag_rules_t \<Rightarrow> nat \<Rightarrow> string \<Rightarrow> line_outcome" where
  "load_tag t n save =
     (case strtok_r CHR ''-'' save of
        None \<Rightarrow> Line_error (-7) t
      | Some (rule_part, _) \<Rightarrow>
          (case tag_converting (tag (rules t ! n)) (Some rule_part) of
             (rc, v) \<Rightarrow>
               if rc \<noteq> 0 then Line_error (-9) t
               else Line_rule (set_rule n (\<lambda>r. r\<lparr>tag := v\<rparr>) t)))"

definition load_right :: "tag_rules_t \<Rightarrow> nat \<Rightarrow> string \<Rightarrow> line_outcome" where
  "load_right t n save =
     (case strtok_r CHR ''-'' save of
        None \<Rightarrow> Line_error (-7) t
      | Some (rule_part, save') \<Rightarrow>
          (case ip_converting (ip_right (rules t ! n)) (Some rule_part) of
             (rc, a) \<Rightarrow>
               if rc \<noteq> 0 then Line_error (-8) t
               else load_tag (set_rule n (\<lambda>r. r\<lparr>ip_right := a\<rparr>) t) n save'))"

text \<open>A line that holds a rule, from the count of its dashes on.\<close>

definition load_rule :: "tag_rules_t \<Rightarrow> nat \<Rightarrow> string \<Rightarrow> line_outcome" where
  "load_rule t n real_start =
     (let dash_count = char_count (Some real_start) CHR ''-'' in
      if dash_count < 1 \<or> dash_count > 2 then Line_error (-5) t
      else if n \<ge> MAX_RULES then Line_error (-6) t
      else
        (case strtok_r CHR ''-'' real_start of
           None \<Rightarrow> Line_error (-7) t
         | Some (rule_part, save) \<Rightarrow>
             (case ip_converting (ip_left (rules t ! n)) (Some rule_part) of
                (rc, a) \<Rightarrow>
                  if rc \<noteq> 0 then Line_error (-8) t
                  else
                    (let t' = set_rule n (\<lambda>r. r\<lparr>ip_left := a\<rparr>) t in
                     if dash_count = 1
                     then load_tag (set_rule n (\<lambda>r. r\<lparr>ip_right := ip_left r\<rparr>) t') n save
                     else load_right t' n save))))"

text \<open>The body of the reading loop, on the array \<open>rule\<close> that \<open>fgets\<close> has filled.\<close>

definition load_line :: "tag_rules_t \<Rightarrow> nat \<Rightarrow> string \<Rightarrow> line_outcome" where
  "load_line t n rule =
     (case line_editor (Some rule) of
        LE_overrun \<Rightarrow> Line_overrun
      | LE_null \<Rightarrow> Line_error (-4) t
      | LE_at start rule' \<Rightarrow>
          (let c = rule' ! start in
           if c = NUL \<or> c = CHR ''#'' \<or> c = newline then Line_skip
           else load_rule t n (cstr (drop start rule'))))"

datatype load_outcome =
    Loaded tag_rules_t nat       \<comment> \<open>end of file, with \<open>loaded_count\<close>\<close>
  | Failed int tag_rules_t       \<comment> \<open>a negative return from the loop\<close>
  | Overrun                      \<comment> \<open>undefined behaviour\<close>

definition fgets_array :: "string \<Rightarrow> string" where
  "fgets_array l = l @ replicate (MAX_LINE_LENGTH - length l) NUL"

function load_loop :: "FILE \<Rightarrow> tag_rules_t \<Rightarrow> nat \<Rightarrow> load_outcome" where
  "load_loop f t n =
     (case fgets MAX_LINE_LENGTH f of
        (None, f') \<Rightarrow> if \<not> f_error f' then Loaded t n else Failed (-3) t
      | (Some l, f') \<Rightarrow>
          (case load_line t n (fgets_array l) of
             Line_overrun \<Rightarrow> Overrun
           | Line_error e t' \<Rightarrow> Failed e t'
           | Line_skip \<Rightarrow> load_loop f' t n
           | Line_rule t' \<Rightarrow> load_loop f' t' (n + 1)))"
  by pat_completeness auto
termination
  by (relation "measure (\<lambda>(f, t, n). length (f_data f))")
    (auto simp: MAX_LINE_LENGTH_def dest: fgets_decreases [OF sym])

declare load_loop.simps [simp del]

definition zero_rules :: tag_rules_t where
  "zero_rules = \<lparr>rules = replicate MAX_RULES \<lparr>ip_left = 0, ip_right = 0, tag = 0\<rparr>, rules_size = 0\<rparr>"

text \<open>
  The return value and the table, \<^const>\<open>None\<close> for undefined behaviour. Null pointers are
  \<^const>\<open>None\<close> arguments.
\<close>

definition tag_rules_load ::
  "(string \<Rightarrow> FILE option) \<Rightarrow> tag_rules_t option \<Rightarrow> string option \<Rightarrow> (int \<times> tag_rules_t option) option"
where
  "tag_rules_load fs tag_rules config_path =
     (case (tag_rules, config_path) of
        (Some t0, Some path) \<Rightarrow>
          (case fs path of
             None \<Rightarrow> Some (-2, Some t0)
           | Some f \<Rightarrow>
               (case load_loop f zero_rules 0 of
                  Overrun \<Rightarrow> None
                | Failed e t \<Rightarrow> Some (e, Some t)
                | Loaded t n \<Rightarrow>
                    if \<not> f_close_ok f then Some (-10, Some t)
                    else
                      (let t' = t\<lparr>rules_size := n\<rparr> in
                       if n > 0 \<and> validate_rules t' \<noteq> 0 then Some (validate_rules t', Some t')
                       else Some (int n, Some t'))))
      | _ \<Rightarrow> Some (-1, tag_rules))"


subsection \<open>Properties of the line editor\<close>

lemma find_start_less: "find_start s < length s \<or> find_start s = 0"
proof (cases "find (\<lambda>i. s ! i \<noteq> blank \<and> s ! i \<noteq> tab) [0..<strlen s]")
  case (Some i)
  then have "i < strlen s"
    by (auto simp: find_Some_iff)
  then show ?thesis
    using strlen_le_length [of s] Some by (simp add: find_start_def)
qed (simp add: find_start_def)

lemma cut_loop_length: "cut_loop k p s = Some s' \<Longrightarrow> length s' = length s"
  by (induction k p s rule: cut_loop.induct) (auto split: if_splits)

text \<open>The scan stays in the array when it can run for all its steps, or meets a terminator.\<close>

lemma cut_loop_in_bounds:
  assumes "p + k \<le> length s \<or> (\<exists>q. p \<le> q \<and> q < length s \<and> is_terminator (s ! q))"
  shows "cut_loop k p s \<noteq> None"
  using assms
proof (induction k p s rule: cut_loop.induct)
  case (1 p s)
  then show ?case by simp
next
  case (2 k p s)
  show ?case
  proof (cases "p < length s \<and> \<not> is_terminator (s ! p)")
    case True
    with "2.prems" have "Suc p + k \<le> length s \<or>
        (\<exists>q. Suc p \<le> q \<and> q < length s \<and> is_terminator (s ! q))"
      by (metis Suc_leI add_Suc_right add_Suc_shift le_neq_implies_less)
    with "2.IH" True show ?thesis by auto
  next
    case False
    with "2.prems" show ?thesis by auto
  qed
qed

lemma cut_loop_overrun:
  assumes "length s < p + k" "p \<le> length s" "\<forall>q. p \<le> q \<and> q < length s \<longrightarrow> \<not> is_terminator (s ! q)"
  shows "cut_loop k p s = None"
  using assms
proof (induction k p s rule: cut_loop.induct)
  case (1 p s)
  then show ?case by simp
next
  case (2 k p s)
  then show ?case by (cases "p < length s") auto
qed

lemma cut_loop_first:
  assumes "\<forall>q. p \<le> q \<and> q < m \<longrightarrow> \<not> is_terminator (s ! q)" "p \<le> m" "m < p + k"
    "m < length s" "is_terminator (s ! m)"
  shows "cut_loop k p s = Some (s[m := NUL])"
  using assms
proof (induction k p s rule: cut_loop.induct)
  case (1 p s)
  then show ?case by simp
next
  case (2 k p s)
  then show ?case by (cases "p = m") auto
qed

lemma find_start_blanks: "i < find_start s \<Longrightarrow> s ! i = blank \<or> s ! i = tab"
  by (auto simp: find_start_def find_Some_iff split: option.splits)

lemma length_fgets_array: "length l \<le> MAX_LINE_LENGTH \<Longrightarrow> length (fgets_array l) = MAX_LINE_LENGTH"
  by (simp add: fgets_array_def)

lemma line_editor_complete_line:
  assumes "newline \<in> set l" "length l \<le> MAX_LINE_LENGTH"
  shows "line_editor (Some (fgets_array l)) \<noteq> LE_overrun"
proof -
  let ?s = "fgets_array l"
  from assms(1) obtain m where m: "m < length l" "l ! m = newline"
    by (auto simp: in_set_conv_nth)
  then have sm: "m < length ?s" "?s ! m = newline"
    by (simp_all add: fgets_array_def nth_append)
  then have "find_start ?s \<le> m"
    using find_start_blanks [of m ?s] by (auto simp: not_less [symmetric])
  with sm have "cut_loop MAX_RULE_CONTENT_LENGTH (find_start ?s) ?s \<noteq> None"
    by (intro cut_loop_in_bounds) (auto simp: is_terminator_def)
  then show ?thesis
    by (auto simp: line_editor_def Let_def)
qed

lemma load_line_complete_line:
  "newline \<in> set l \<Longrightarrow> length l \<le> MAX_LINE_LENGTH \<Longrightarrow> load_line t n (fgets_array l) \<noteq> Line_overrun"
  using line_editor_complete_line [of l]
  by (auto simp: load_line_def load_rule_def load_right_def load_tag_def Let_def
      split: line_editor_result.splits option.splits prod.splits if_splits)

text \<open>Text made of complete lines that fit into the buffer.\<close>

definition text_of_lines :: "string list \<Rightarrow> string" where
  "text_of_lines ls = concat (map (\<lambda>l. l @ [newline]) ls)"

definition short_line :: "string \<Rightarrow> bool" where
  "short_line l \<longleftrightarrow> newline \<notin> set l \<and> length l + 2 \<le> MAX_LINE_LENGTH"

text \<open>One step of the loop on a complete line.\<close>

lemma load_loop_line:
  assumes "short_line l" "f_data f = l @ newline # s"
  shows "load_loop f t n =
     (case load_line t n (fgets_array (l @ [newline])) of
        Line_overrun \<Rightarrow> Overrun
      | Line_error e t' \<Rightarrow> Failed e t'
      | Line_skip \<Rightarrow> load_loop (f\<lparr>f_data := s\<rparr>) t n
      | Line_rule t' \<Rightarrow> load_loop (f\<lparr>f_data := s\<rparr>) t' (n + 1))"
  using assms fgets_line [of f l s MAX_LINE_LENGTH]
  by (subst load_loop.simps) (simp add: short_line_def)

lemma load_loop_end:
  "f_data f = [] \<Longrightarrow> load_loop f t n = (if f_error f then Failed (-3) t else Loaded t n)"
  using fgets_eof [of f MAX_LINE_LENGTH]
  by (subst load_loop.simps) (simp add: MAX_LINE_LENGTH_def)

lemma load_loop_no_overrun:
  assumes "\<forall>l\<in>set ls. short_line l" "f_data f = text_of_lines ls"
  shows "load_loop f t n \<noteq> Overrun"
  using assms
proof (induction ls arbitrary: f t n)
  case Nil
  then show ?case by (simp add: text_of_lines_def load_loop_end)
next
  case (Cons l ls)
  have step: "load_loop f t n =
     (case load_line t n (fgets_array (l @ [newline])) of
        Line_overrun \<Rightarrow> Overrun
      | Line_error e t' \<Rightarrow> Failed e t'
      | Line_skip \<Rightarrow> load_loop (f\<lparr>f_data := text_of_lines ls\<rparr>) t n
      | Line_rule t' \<Rightarrow> load_loop (f\<lparr>f_data := text_of_lines ls\<rparr>) t' (n + 1))"
    using Cons.prems by (intro load_loop_line) (auto simp: text_of_lines_def)
  have "load_line t n (fgets_array (l @ [newline])) \<noteq> Line_overrun"
    using Cons.prems by (intro load_line_complete_line) (auto simp: short_line_def)
  moreover have "load_loop (f\<lparr>f_data := text_of_lines ls\<rparr>) t' n' \<noteq> Overrun" for t' n'
    using Cons by (intro Cons.IH) auto
  ultimately show ?case
    by (simp add: step split: line_outcome.splits)
qed

subsection \<open>What loading keeps\<close>

lemma load_tag_rules:
  "load_tag t n s = Line_rule t' \<Longrightarrow> length (rules t') = length (rules t) \<and> rules_size t' = rules_size t"
  by (auto simp: load_tag_def set_rule_def split: option.splits prod.splits if_splits)

lemma load_right_rules:
  "load_right t n s = Line_rule t' \<Longrightarrow> length (rules t') = length (rules t) \<and> rules_size t' = rules_size t"
  by (auto simp: load_right_def set_rule_def split: option.splits prod.splits if_splits dest!: load_tag_rules)

lemma load_line_rule:
  "load_line t n r = Line_rule t' \<Longrightarrow>
     length (rules t') = length (rules t) \<and> rules_size t' = rules_size t \<and> n < MAX_RULES"
  by (auto simp: load_line_def load_rule_def set_rule_def Let_def
      split: line_editor_result.splits option.splits prod.splits if_splits
      dest!: load_tag_rules load_right_rules)

text \<open>Induction over the reading loop: an invariant of the table and the count.\<close>

lemma load_loop_invariant:
  assumes start: "I t n"
    and step: "\<And>t n r t'. I t n \<Longrightarrow> load_line t n r = Line_rule t' \<Longrightarrow> I t' (n + 1)"
  shows "case load_loop f t n of
      Loaded t' n' \<Rightarrow> I t' n'
    | Failed e t' \<Rightarrow> e = -3 \<or> (\<exists>t n r. I t n \<and> load_line t n r = Line_error e t')
    | Overrun \<Rightarrow> True"
  using start
proof (induction f t n rule: load_loop.induct)
  case (1 f t n)
  obtain l f' where fg: "fgets MAX_LINE_LENGTH f = (l, f')" by (cases "fgets MAX_LINE_LENGTH f")
  show ?case
  proof (cases l)
    case None
    then show ?thesis using "1.prems" by (subst load_loop.simps) (simp add: fg)
  next
    case (Some x)
    note IH = "1.IH" [OF fg [symmetric] Some]
    show ?thesis
    proof (cases "load_line t n (fgets_array x)")
      case Line_skip
      then show ?thesis using IH(1) "1.prems" by (subst load_loop.simps) (simp add: fg Some)
    next
      case (Line_rule t')
      then show ?thesis
        using IH(2) step [OF "1.prems" Line_rule] by (subst load_loop.simps) (simp add: fg Some)
    next
      case (Line_error e t')
      then show ?thesis using "1.prems" by (subst load_loop.simps) (auto simp: fg Some)
    next
      case Line_overrun
      then show ?thesis by (subst load_loop.simps) (simp add: fg Some)
    qed
  qed
qed

lemma load_loop_Loaded:
  assumes "load_loop f zero_rules 0 = Loaded t n"
  shows "length (rules t) = MAX_RULES \<and> rules_size t = 0 \<and> n \<le> MAX_RULES"
proof -
  let ?I = "\<lambda>t n. length (rules t) = MAX_RULES \<and> rules_size t = 0 \<and> n \<le> MAX_RULES"
  have "?I zero_rules 0" by (simp add: zero_rules_def)
  moreover have "?I t' (n + 1)" if "?I t n" "load_line t n r = Line_rule t'" for t t' n r
    using load_line_rule [OF that(2)] that(1) by simp
  ultimately have "case load_loop f zero_rules 0 of
      Loaded t' n' \<Rightarrow> ?I t' n'
    | Failed e t' \<Rightarrow> e = -3 \<or> (\<exists>t n r. ?I t n \<and> load_line t n r = Line_error e t')
    | Overrun \<Rightarrow> True"
    by (rule load_loop_invariant)
  then show ?thesis by (simp add: assms)
qed

lemma load_tag_error: "load_tag t n s = Line_error e t' \<Longrightarrow> e = -7 \<or> e = -9"
  by (auto simp: load_tag_def split: option.splits prod.splits if_splits)

lemma load_right_error: "load_right t n s = Line_error e t' \<Longrightarrow> e = -7 \<or> e = -8 \<or> e = -9"
  by (auto simp: load_right_def split: option.splits prod.splits if_splits dest: load_tag_error)

lemma load_rule_error:
  "load_rule t n s = Line_error e t' \<Longrightarrow> e = -5 \<or> e = -6 \<or> e = -7 \<or> e = -8 \<or> e = -9"
  by (auto simp: load_rule_def Let_def split: option.splits prod.splits if_splits
      dest: load_tag_error load_right_error)

lemma load_line_error_code: "load_line t n r = Line_error e t' \<Longrightarrow> e \<in> {-9..-4}"
  by (auto simp: load_line_def Let_def split: line_editor_result.splits if_splits dest!: load_rule_error)

lemma load_loop_error_code:
  assumes "load_loop f t n = Failed e t'"
  shows "e \<in> {-9..-3}"
proof -
  have "e = -3 \<or> (\<exists>t n r. load_line t n r = Line_error e t')"
    using load_loop_invariant [where I = "\<lambda>t n. True" and f = f and t = t and n = n] assms
    by simp
  then show ?thesis by (auto dest: load_line_error_code)
qed

subsection \<open>What validation means\<close>

definition rule_range :: "tag_rules_t \<Rightarrow> nat \<Rightarrow> u32 set" where
  "rule_range t i = {rule_left t i .. rule_right t i}"

text \<open>
  A table the tagger may use: no empty range, no two ranges with a common address, every VLAN id
  in the range of the 802.1Q field.
\<close>

definition well_formed_rules :: "tag_rules_t \<Rightarrow> bool" where
  "well_formed_rules t \<longleftrightarrow>
     (\<forall>i < rules_size t. rule_range t i \<noteq> {}) \<and>
     (\<forall>i < rules_size t. \<forall>j < rules_size t. i \<noteq> j \<longrightarrow> rule_range t i \<inter> rule_range t j = {}) \<and>
     (\<forall>i < rules_size t. tag (rules t ! i) \<in> {0..4095})"

lemma ranges_disjoint_iff:
  fixes a b c d :: "'a::linorder"
  assumes "a \<le> b" "c \<le> d"
  shows "{a..b} \<inter> {c..d} = {} \<longleftrightarrow> b < c \<or> d < a"
proof
  assume disj: "{a..b} \<inter> {c..d} = {}"
  show "b < c \<or> d < a"
  proof (rule ccontr)
    assume "\<not> (b < c \<or> d < a)"
    then have "max a c \<in> {a..b} \<inter> {c..d}" using assms by auto
    with disj show False by auto
  qed
qed auto

lemma all_pairs_iff:
  fixes m :: nat
  assumes "\<And>i j. P i j \<longleftrightarrow> P j i"
  shows "(\<forall>i < m. \<forall>j < m. i \<noteq> j \<longrightarrow> P i j) \<longleftrightarrow> (\<forall>i < m. \<forall>j < m. i < j \<longrightarrow> P i j)"
  using assms by (metis linorder_neqE_nat order_less_irrefl)

lemma rule_range_nonempty: "rule_range t i \<noteq> {} \<longleftrightarrow> rule_left t i \<le> rule_right t i"
  by (simp add: rule_range_def)

lemma rule_range_disjoint:
  "rule_range t i \<noteq> {} \<Longrightarrow> rule_range t j \<noteq> {} \<Longrightarrow>
     rule_range t i \<inter> rule_range t j = {} \<longleftrightarrow> rule_right t i < rule_left t j \<or> rule_right t j < rule_left t i"
  unfolding rule_range_nonempty unfolding rule_range_def by (rule ranges_disjoint_iff)

lemma ranges_ordered_iff:
  "list_ex (\<lambda>i. rule_left t i > rule_right t i) [0..<rules_size t] \<longleftrightarrow>
     \<not> (\<forall>i < rules_size t. rule_range t i \<noteq> {})"
  unfolding rule_range_nonempty list_ex_iff by (auto simp: not_le)

lemma ranges_overlap_iff:
  assumes "\<forall>i < rules_size t. rule_range t i \<noteq> {}"
  shows "list_ex (\<lambda>i. list_ex (\<lambda>j.
             \<not> (rule_right t i < rule_left t j \<or> rule_right t j < rule_left t i))
             [i + 1..<rules_size t]) [0..<rules_size t] \<longleftrightarrow>
     \<not> (\<forall>i < rules_size t. \<forall>j < rules_size t. i \<noteq> j \<longrightarrow> rule_range t i \<inter> rule_range t j = {})"
proof -
  have pair: "\<not> (rule_right t i < rule_left t j \<or> rule_right t j < rule_left t i) \<longleftrightarrow>
      rule_range t i \<inter> rule_range t j \<noteq> {}" if "i \<in> set [0..<rules_size t]" "j \<in> set [i + 1..<rules_size t]" for i j
    using assms that rule_range_disjoint [of t i j] by auto
  have "list_ex (\<lambda>i. list_ex (\<lambda>j.
             \<not> (rule_right t i < rule_left t j \<or> rule_right t j < rule_left t i))
             [i + 1..<rules_size t]) [0..<rules_size t] \<longleftrightarrow>
      (\<exists>i \<in> set [0..<rules_size t]. \<exists>j \<in> set [i + 1..<rules_size t]. rule_range t i \<inter> rule_range t j \<noteq> {})"
    unfolding list_ex_iff by (intro bex_cong refl pair)
  also have "\<dots> \<longleftrightarrow>
      (\<exists>i < rules_size t. \<exists>j < rules_size t. i < j \<and> rule_range t i \<inter> rule_range t j \<noteq> {})"
    by (simp add: Bex_def Suc_le_eq) blast
  finally have "list_ex (\<lambda>i. list_ex (\<lambda>j.
             \<not> (rule_right t i < rule_left t j \<or> rule_right t j < rule_left t i))
             [i + 1..<rules_size t]) [0..<rules_size t] \<longleftrightarrow>
      (\<exists>i < rules_size t. \<exists>j < rules_size t. i < j \<and> rule_range t i \<inter> rule_range t j \<noteq> {})" .
  moreover have "(\<forall>i < rules_size t. \<forall>j < rules_size t. i \<noteq> j \<longrightarrow> rule_range t i \<inter> rule_range t j = {})
      \<longleftrightarrow> (\<forall>i < rules_size t. \<forall>j < rules_size t. i < j \<longrightarrow> rule_range t i \<inter> rule_range t j = {})"
    by (rule all_pairs_iff) (simp add: inf_commute)
  ultimately show ?thesis by auto
qed

lemma validate_rules_cases:
  "validate_rules t =
     (if \<not> (\<forall>i < rules_size t. rule_range t i \<noteq> {}) then -11
      else if \<not> (\<forall>i < rules_size t. \<forall>j < rules_size t. i \<noteq> j \<longrightarrow> rule_range t i \<inter> rule_range t j = {})
      then -12
      else if \<not> (\<forall>i < rules_size t. tag (rules t ! i) \<in> {0..4095}) then -13
      else 0)"
proof -
  have tags: "list_ex (\<lambda>i. tag (rules t ! i) < MIN_VLAN_ID \<or> tag (rules t ! i) > MAX_VLAN_ID) [0..<rules_size t]
      \<longleftrightarrow> \<not> (\<forall>i < rules_size t. tag (rules t ! i) \<in> {0..4095})"
    by (auto simp: list_ex_iff MIN_VLAN_ID_def MAX_VLAN_ID_def not_le)
  show ?thesis
    unfolding validate_rules_def ranges_ordered_iff tags
    by (rule if_cong [OF refl refl], subst ranges_overlap_iff) auto
qed

lemma validate_rules_ok_iff: "validate_rules t = 0 \<longleftrightarrow> well_formed_rules t"
proof -
  have "(if \<not> A then -11 else if \<not> B then -12 else if \<not> C then -13 else 0) = (0 :: int) \<longleftrightarrow> A \<and> B \<and> C"
    for A B C by simp
  then show ?thesis
    unfolding validate_rules_cases well_formed_rules_def .
qed



subsection \<open>Guarantees of the loader\<close>

lemma validate_rules_values: "validate_rules t \<in> {-11, -12, -13, 0}"
  unfolding validate_rules_cases by simp

lemma validate_rules_not_pos: "\<not> 0 \<le> validate_rules t \<longleftrightarrow> validate_rules t \<noteq> 0"
  using validate_rules_values [of t] by auto

lemma validate_rules_empty [simp]: "rules_size t = 0 \<Longrightarrow> validate_rules t = 0"
  by (simp add: validate_rules_ok_iff well_formed_rules_def)

lemma tag_rules_load_table:
  assumes "tag_rules_load fs r path = Some (k, Some t)" "0 \<le> k"
  shows "rules_size t = nat k \<and> k \<le> int MAX_RULES \<and> length (rules t) = MAX_RULES \<and> well_formed_rules t"
proof -
  obtain f t1 where l: "load_loop f zero_rules 0 = Loaded t1 (nat k)"
    and t: "t = t1\<lparr>rules_size := nat k\<rparr>" and v: "0 < nat k \<longrightarrow> validate_rules t = 0"
    using assms validate_rules_not_pos
    by (auto simp: tag_rules_load_def Let_def
        split: option.splits load_outcome.splits if_splits dest: load_loop_error_code)
  have "length (rules t1) = MAX_RULES" "nat k \<le> MAX_RULES"
    using load_loop_Loaded [OF l] by simp_all
  moreover have "well_formed_rules t"
    using v t by (cases "nat k = 0") (simp_all add: validate_rules_ok_iff well_formed_rules_def)
  ultimately show ?thesis using t assms(2) by simp
qed

text \<open>
  C9: When \<open>tag_rules_load\<close> succeeds, with return value \<open>k\<close>, the table it leaves holds
  \<open>k\<close> rules, at most 128, and is well formed: every range is non-empty, no two ranges
  share an address and every VLAN id is in 0..4095.
\<close>

theorem tag_rules_load_sound:
  assumes "tag_rules_load fs r path = Some (k, Some t)" "0 \<le> k"
  shows "rules_size t = nat k \<and> k \<le> 128 \<and> length (rules t) = 128 \<and> well_formed_rules t"
  using tag_rules_load_table [OF assms] by (simp add: MAX_RULES_def)


text \<open>
  C38: Memory safety on well-made files. If every line of the file is at most 98 characters long
  and ends with a newline, whatever the characters are, loading it makes no access outside the
  line buffer.
\<close>

theorem tag_rules_load_memory_safe:
  assumes "fs p = Some f" "\<forall>l\<in>set ls. newline \<notin> set l \<and> length l \<le> 98"
    "f_data f = text_of_lines ls"
  shows "tag_rules_load fs r (Some p) \<noteq> None"
proof -
  have "load_loop f zero_rules 0 \<noteq> Overrun"
    using assms(2,3) by (intro load_loop_no_overrun) (auto simp: short_line_def MAX_LINE_LENGTH_def)
  then show ?thesis
    using assms(1) by (auto simp: tag_rules_load_def Let_def split: option.splits load_outcome.splits)
qed


lemma get_line_whole: "newline \<notin> set s \<Longrightarrow> length s \<le> k \<Longrightarrow> get_line k s = s"
  by (induction k s rule: get_line.induct) auto

lemma cstr_blanks [simp]: "cstr (replicate k blank @ s) = replicate k blank @ cstr s"
  by (induction k) (simp_all add: cstr_def)

lemma find_start_prefix:
  assumes "c \<noteq> blank" "c \<noteq> tab" "c \<noteq> NUL"
  shows "find_start (replicate k blank @ c # s) = k"
proof -
  let ?s = "replicate k blank @ c # s"
  have "k < strlen ?s"
    using assms(3) by (simp add: strlen_def) (simp add: cstr_def)
  then have "find (\<lambda>i. ?s ! i \<noteq> blank \<and> ?s ! i \<noteq> tab) [0..<strlen ?s] = Some k"
    using assms(1,2) by (auto simp: find_Some_iff nth_append intro!: exI [of _ k])
  then show ?thesis by (simp add: find_start_def)
qed

text \<open>
  C39: The bound of the editing loop is not enough for memory safety. A last line without newline
  that has 64 or more blanks before its content and no terminator after it makes
  \<open>line_editor\<close> read (and possibly write) past the end of its 100-byte array.
\<close>

theorem indented_last_line_overruns:
  assumes "fs p = Some f" "f_data f = replicate k blank @ x" "\<not> f_error f"
    "64 \<le> k" "k + length x \<le> 99" "x \<noteq> []" "\<forall>c\<in>set x. \<not> is_terminator c \<and> c \<noteq> NUL"
  shows "tag_rules_load fs (Some t) (Some p) = None"
proof -
  let ?l = "replicate k blank @ x"
  obtain c y where x: "x = c # y" using assms(6) by (cases x) auto
  then have c: "\<not> is_terminator c" "c \<noteq> NUL" using assms(7) by simp_all
  have nl: "newline \<notin> set ?l" using assms(7) by (auto simp: is_terminator_def)
  have fg: "fgets MAX_LINE_LENGTH f = (Some ?l, f\<lparr>f_data := []\<rparr>)"
    using assms(2,3,5,6) nl get_line_whole [of ?l 99]
    by (simp add: fgets_def MAX_LINE_LENGTH_def Let_def)
  have fa: "fgets_array ?l = replicate k blank @ c # y @ replicate (100 - k - length x) NUL"
    by (simp add: fgets_array_def MAX_LINE_LENGTH_def x)
  have st: "find_start (fgets_array ?l) = k"
    using c unfolding fa by (intro find_start_prefix) (auto simp: is_terminator_def)
  have "set (drop k (fgets_array ?l)) \<subseteq> set x \<union> {NUL}"
    by (auto simp: fgets_array_def)
  then have after: "\<forall>c \<in> set (drop k (fgets_array ?l)). \<not> is_terminator c"
    using assms(7) by (auto simp: is_terminator_def)
  have noterm: "\<not> is_terminator (fgets_array ?l ! q)" if "k \<le> q" "q < length (fgets_array ?l)" for q
    using after nth_mem [of "q - k" "drop k (fgets_array ?l)"] that by simp
  have "cut_loop MAX_RULE_CONTENT_LENGTH k (fgets_array ?l) = None"
    using assms(4,5) noterm
    by (intro cut_loop_overrun) (auto simp: MAX_RULE_CONTENT_LENGTH_def fgets_array_def MAX_LINE_LENGTH_def)
  moreover have "fgets_array ?l ! k = c" by (simp add: fa nth_append)
  ultimately have "load_line zero_rules 0 (fgets_array ?l) = Line_overrun"
    using c by (simp add: load_line_def line_editor_def st is_terminator_def)
  then have "load_loop f zero_rules 0 = Overrun"
    by (subst load_loop.simps) (simp add: fg)
  then show ?thesis using assms(1) by (simp add: tag_rules_load_def)
qed


lemma nth_cstr: "i < strlen s \<Longrightarrow> cstr s ! i = s ! i"
  unfolding strlen_def cstr_def by (rule takeWhile_nth)

lemma fold_count_upto:
  "m \<le> length s \<Longrightarrow>
     fold (\<lambda>i n. if s ! i = c then n + 1 else n) [0..<m] (0 :: int) = int (count_list (take m s) c)"
  by (induction m) (auto simp: take_Suc_conv_app_nth)

lemma char_count_eq: "char_count (Some s) c = int (count_list (cstr s) c)"
proof -
  have "fold (\<lambda>i n. if s ! i = c then n + 1 else n) [0..<strlen s] (0 :: int)
      = fold (\<lambda>i n. if cstr s ! i = c then n + 1 else n) [0..<strlen s] 0"
    by (rule fold_cong) (auto simp: nth_cstr)
  then show ?thesis
    using fold_count_upto [of "strlen s" "cstr s" c] by (simp add: char_count_def strlen_def)
qed

lemma cut_loop_cases:
  "cut_loop k p s = Some s' \<Longrightarrow> s' = s \<or> (\<exists>q\<ge>p. q < length s \<and> is_terminator (s ! q) \<and> s' = s[q := NUL])"
proof (induction k p s rule: cut_loop.induct)
  case (2 k p s)
  then show ?case
    by (cases "is_terminator (s ! p)") (auto split: if_splits dest: Suc_leD)
qed simp

text \<open>A line whose content starts in the first column and holds no dash.\<close>

lemma load_line_no_dash:
  assumes "l = c # y" "\<not> is_terminator c" "c \<noteq> NUL" "CHR ''-'' \<notin> set l"
    "newline \<in> set l" "length l \<le> MAX_LINE_LENGTH"
  shows "load_line t n (fgets_array l) = Line_error (-5) t"
proof -
  let ?s = "fgets_array l"
  have start: "find_start ?s = 0"
    using find_start_prefix [of c 0] assms(1-3) by (simp add: fgets_array_def is_terminator_def)
  obtain s' where s': "cut_loop MAX_RULE_CONTENT_LENGTH 0 ?s = Some s'"
    using line_editor_complete_line [OF assms(5,6)] start assms(1,2)
    by (auto simp: line_editor_def is_terminator_def fgets_array_def split: option.splits)
  then have dis: "s' = ?s \<or> (\<exists>q. is_terminator (?s ! q) \<and> s' = ?s[q := NUL])"
    by (blast dest: cut_loop_cases)
  then have "set s' \<subseteq> set l \<union> {NUL}"
    using set_update_subset_insert [of ?s _ NUL] by (fastforce simp: fgets_array_def)
  then have "CHR ''-'' \<notin> set (cstr s')"
    using assms(4) by (auto simp: cstr_def dest!: set_takeWhileD)
  then have "char_count (Some (cstr s')) CHR ''-'' = 0"
    by (simp add: char_count_eq count_list_0_iff)
  moreover have "s' ! 0 = c"
  proof -
    have s0: "?s ! 0 = c" using assms(1) by (simp add: fgets_array_def)
    then have "q \<noteq> 0" if "is_terminator (?s ! q)" for q
      using that assms(2) by (cases q) simp_all
    then show ?thesis using dis s0 by (metis nth_list_update_neq)
  qed
  moreover have "?s ! 0 = c" using assms(1) by (simp add: fgets_array_def)
  then have "line_editor (Some ?s) = LE_at 0 s'"
    using assms(2) by (simp add: line_editor_def start s' is_terminator_def)
  ultimately show ?thesis
    using assms(2,3) by (simp add: load_line_def load_rule_def is_terminator_def)
qed

text \<open>
  A comment longer than the line buffer is not ignored. The text after its first 99
  characters is read as a line of its own; if it holds no dash and does not start with a blank or
  a comment sign, the whole file is refused with -5.
\<close>

theorem long_comment_refused:
  assumes "fs p = Some f" "f_data f = CHR ''#'' # c1 @ c # c2 @ newline # rest"
    "length c1 = 98" "newline \<notin> set c1" "newline \<notin> set c2" "length c2 \<le> 97"
    "\<not> is_terminator c" "c \<noteq> NUL" "CHR ''-'' \<notin> set (c # c2)"
  shows "tag_rules_load fs (Some t) (Some p) = Some (-5, Some zero_rules)"
proof -
  let ?l = "CHR ''#'' # c1" and ?r = "c # c2" and ?f = "f\<lparr>f_data := c # c2 @ newline # rest\<rparr>"
  have "get_line 99 (f_data f) = ?l"
  proof -
    have "get_line (length l) (l @ m) = l" if "newline \<notin> set l" for l m
      using that by (induction l) auto
    from this [of ?l "c # c2 @ newline # rest"] show ?thesis using assms(2-4) by simp
  qed
  then have fg: "fgets MAX_LINE_LENGTH f = (Some ?l, ?f)"
    using assms(2,3) by (simp add: fgets_def hits_end_def MAX_LINE_LENGTH_def Let_def)
  have "find_start (fgets_array ?l) = 0"
    using find_start_prefix [of "CHR ''#''" 0] by (simp add: fgets_array_def)
  then have "load_line zero_rules 0 (fgets_array ?l) = Line_skip"
    by (simp add: load_line_def line_editor_def fgets_array_def)
  moreover have "load_loop ?f zero_rules 0 = Failed (-5) zero_rules"
  proof -
    have "newline \<notin> set ?r" using assms(5,7) by (auto simp: is_terminator_def)
    moreover have "load_line zero_rules 0 (fgets_array (?r @ [newline])) = Line_error (-5) zero_rules"
      using assms(6-9) by (intro load_line_no_dash [of _ c "c2 @ [newline]"]) (auto simp: MAX_LINE_LENGTH_def)
    ultimately show ?thesis
      using assms(6) by (subst load_loop_line [of ?r _ rest]) (auto simp: short_line_def MAX_LINE_LENGTH_def)
  qed
  ultimately have "load_loop f zero_rules 0 = Failed (-5) zero_rules"
    by (subst load_loop.simps) (simp add: fg)
  then show ?thesis using assms(1) by (simp add: tag_rules_load_def)
qed

theorem tag_rules_load_memory_safe_witness:
  "tag_rules_load (\<lambda>_. Some \<lparr>f_data = ''1.2.3.4-5'' @ [newline], f_error = False, f_close_ok = True\<rparr>)
     (Some zero_rules) (Some ''cfg'') \<noteq> None"
  by (rule tag_rules_load_memory_safe [where ls = "[''1.2.3.4-5'']"]) (auto simp: text_of_lines_def)

theorem indented_last_line_overruns_witness:
  "tag_rules_load (\<lambda>_. Some \<lparr>f_data = replicate 80 blank @ ''1.2.3.4-5'', f_error = False, f_close_ok = True\<rparr>)
     (Some zero_rules) (Some ''cfg'') = None"
  by (rule indented_last_line_overruns [where k = 80 and x = "''1.2.3.4-5''"])
    (auto simp: is_terminator_def)

theorem long_comment_refused_witness:
  "tag_rules_load (\<lambda>_. Some \<lparr>f_data = CHR ''#'' # replicate 98 CHR ''x'' @ CHR ''y'' # ''yyy'' @ newline # '''',
       f_error = False, f_close_ok = True\<rparr>)
     (Some zero_rules) (Some ''cfg'') = Some (-5, Some zero_rules)"
  by (rule long_comment_refused [where ?c1.0 = "replicate 98 CHR ''x''" and c = "CHR ''y''" and ?c2.0 = "''yyy''" and rest = "[]"])
    (auto simp: is_terminator_def)


end
