(* ===== verification/Config_Text.thy ===== *)
theory Config_Text
  imports Config_Parser
begin

text \<open>
  Writing a rules file and reading it back. \<open>rule_text\<close> writes a rule in the two forms the
  README of config_parser/ documents, a single address or a range, with decimal numbers
  (\<open>dec\<close>, \<open>show_ip\<close>); the lemmas follow such a line through \<open>fgets\<close>, the line
  editor, \<open>strtok_r\<close> and the two conversions up to the entry of the table. This theory
  specifies the file format; the code it is about is that of Config_Parser.
\<close>

subsection \<open>Numbers and addresses\<close>

lemma isdigit_cases: "isdigit c \<Longrightarrow> c \<notin> {NUL, newline, tab, blank, CHR ''-'', CHR ''#'', CHR ''.'', CHR ''+''} \<and> \<not> isspace c"
  by (auto simp: is_digit_def digit_value_def isspace_def)

text \<open>Reading back a number, by both conversion functions.\<close>

lemma takeWhile_digits:
  assumes "\<forall>c\<in>set x. P c" "y = [] \<or> \<not> P (hd y)"
  shows "takeWhile P (x @ y) = x" "dropWhile P (x @ y) = y"
proof -
  show "takeWhile P (x @ y) = x" using assms by (cases y) (auto simp: takeWhile_append)
  show "dropWhile P (x @ y) = y" using assms by (cases y) (auto simp: dropWhile_append)
qed

lemma strtoul0_dec:
  assumes "rest = [] \<or> hd rest = CHR ''.''"
  shows "strtoul0 (dec n @ rest) = (n, rest)"
proof (cases "n = 0")
  case True
  have dot: "\<not> is_digit 8 CHR ''.''" by (simp add: is_digit_def digit_value_def)
  have "strtoul_base (dec n @ rest) = 8"
    using assms True by (cases rest) (auto simp: strtoul_base_def dec_0)
  moreover have "is_digit 8 CHR ''0''" "digits_value 8 ''0'' = 0"
    by (simp_all add: is_digit_def digit_value_def digits_value_def)
  ultimately show ?thesis
    using assms True dot by (cases rest) (auto simp: strtoul0_def dec_0)
next
  case False
  have "\<not> isdigit CHR ''.''" by (simp add: is_digit_def digit_value_def)
  then have r: "rest = [] \<or> \<not> isdigit (hd rest)" using assms by auto
  have "strtoul_base (dec n @ rest) = 10"
    using hd_dec [of n] False by (simp add: strtoul_base_def)
  then show ?thesis
    using takeWhile_digits [OF isdigit_dec r] by (simp add: strtoul0_def digits_value_dec)
qed

lemma strtol10_dec:
  assumes "n \<le> 4095"
  shows "strtol10 (dec n) = (int n, [], False)"
proof -
  obtain c y where cy: "dec n = c # y" by (cases "dec n") auto
  then have "isdigit c" using isdigit_dec [of n] by auto
  then have c: "c \<noteq> CHR ''-''" "c \<noteq> CHR ''+''" "\<not> isspace c" using isdigit_cases [of c] by auto
  then have "dropWhile isspace (dec n) = dec n" by (simp add: cy)
  moreover have tw: "takeWhile isdigit (dec n) = dec n" "dropWhile isdigit (dec n) = []"
    using takeWhile_digits [of "dec n" isdigit "[]"] isdigit_dec [of n] by simp_all
  moreover have "hd (dec n) = c" by (simp add: cy)
  ultimately show ?thesis
    using c assms by (simp add: strtol10_def Let_def tw digits_value_dec LONG_MAX_def LONG_MIN_def)
qed

text \<open>Addresses in dotted form, from the number in host byte order.\<close>

lemma inet_aton_dot:
  assumes "n \<le> 255"
  shows "inet_aton_parts (Suc d) acc (dec n @ CHR ''.'' # s) = inet_aton_parts d (acc + n * 256 ^ Suc d) s"
proof -
  have "isdigit (hd (dec n))" using isdigit_dec [of n] by (cases "dec n") auto
  then show ?thesis
    using assms by (subst inet_aton_parts.simps) (simp add: strtoul0_dec)
qed

lemma inet_aton_end:
  assumes "n \<le> 255"
  shows "inet_aton_parts 0 acc (dec n) = Some (htonl (of_nat (acc + n)))"
proof -
  have "isdigit (hd (dec n))" using isdigit_dec [of n] by (cases "dec n") auto
  then show ?thesis
    using assms strtoul0_dec [of "[]" n] by (subst inet_aton_parts.simps) simp
qed

lemma unat_byte_le: "unat (b :: byte) \<le> 255"
proof -
  have "unat b < 256" using unsigned_less [of b] by simp
  then show ?thesis by simp
qed

lemma inet_aton_show_ip: "inet_aton (show_ip w) = Some (htonl w)"
proof -
  define b where "b k = (ucast (drop_bit k w) :: byte)" for k
  have w: "w = load32 (b 0) (b 8) (b 16) (b 24)"
    by (simp add: b_def)
  have "inet_aton (show_ip w) = inet_aton_parts (Suc (Suc (Suc 0))) 0 (dec (unat (b 24)) @ CHR ''.'' #
     dec (unat (b 16)) @ CHR ''.'' # dec (unat (b 8)) @ CHR ''.'' # dec (unat (b 0)))"
    by (simp add: inet_aton_def show_ip_def b_def numeral_3_eq_3)
  also have "\<dots> = Some (htonl (of_nat (unat w)))"
    by (subst w) (simp add: inet_aton_dot inet_aton_end unat_byte_le unat_load32 algebra_simps)
  finally show ?thesis by simp
qed


subsection \<open>The text of a rule\<close>

definition plain :: "string \<Rightarrow> bool" where
  "plain x \<longleftrightarrow> x \<noteq> [] \<and> (\<forall>c\<in>set x. c \<notin> {NUL, newline, tab, blank, CHR ''-'', CHR ''#''})"

lemma plain_dec: "plain (dec n)"
  using isdigit_dec [of n] by (auto simp: plain_def dest!: bspec isdigit_cases)

lemma plain_dot: "plain x \<Longrightarrow> plain y \<Longrightarrow> plain (x @ CHR ''.'' # y)"
  by (auto simp: plain_def)

lemma plain_show_ip: "plain (show_ip w)"
  unfolding show_ip_def by (intro plain_dot plain_dec)

lemma length_dec_byte: "length (dec (unat (b :: byte))) \<le> 3"
  using unat_byte_le [of b] length_dec [of "unat b" 2] by simp

lemma length_show_ip: "length (show_ip w) \<le> 15"
  using length_dec_byte [of "ucast (drop_bit 24 w)"] length_dec_byte [of "ucast (drop_bit 16 w)"]
    length_dec_byte [of "ucast (drop_bit 8 w)"] length_dec_byte [of "ucast w"]
  by (simp add: show_ip_def)

text \<open>The two forms of the configuration file: a single address and a range.\<close>

definition rule_text :: "tag_rule_t \<Rightarrow> string" where
  "rule_text r =
     (if ip_left r = ip_right r
      then show_ip (ntohl (ip_left r)) @ CHR ''-'' # dec (nat (tag r))
      else show_ip (ntohl (ip_left r)) @ CHR ''-'' # show_ip (ntohl (ip_right r)) @ CHR ''-'' # dec (nat (tag r)))"

definition rules_text :: "tag_rule_t list \<Rightarrow> string" where
  "rules_text rs = text_of_lines (map rule_text rs)"

lemma plain_chars:
  "plain x \<Longrightarrow> c \<in> set x \<Longrightarrow> c \<notin> {NUL, newline, tab, blank, CHR ''#''} \<and> c \<noteq> CHR ''-''"
  unfolding plain_def by blast

lemma rule_text_chars:
  "\<forall>c\<in>set (rule_text r). c \<notin> {NUL, newline, tab, blank, CHR ''#''}"
proof -
  define S where "S = {NUL, newline, tab, blank, CHR ''#''}"
  have "CHR ''-'' \<notin> S" by (simp add: S_def)
  moreover have "\<forall>c\<in>set x. c \<notin> S" if "plain x" for x
    using plain_chars [OF that] unfolding S_def by blast
  note this [OF plain_show_ip, of "ntohl (ip_left r)"] this [OF plain_show_ip, of "ntohl (ip_right r)"]
    this [OF plain_dec, of "nat (tag r)"]
  ultimately show ?thesis
    unfolding S_def [symmetric] by (auto simp: rule_text_def)
qed

lemma rule_text_nonempty [simp]: "rule_text r \<noteq> []"
  by (simp add: rule_text_def)

lemma length_rule_text:
  assumes "tag r \<le> 4095"
  shows "length (rule_text r) \<le> 36"
proof -
  have "length (dec (nat (tag r))) \<le> 4"
    using assms length_dec [of "nat (tag r)" 3] by simp
  then show ?thesis
    using length_show_ip [of "ntohl (ip_left r)"] length_show_ip [of "ntohl (ip_right r)"]
    by (simp add: rule_text_def)
qed

text \<open>A line of at most 36 characters without blanks or comment is handed over whole.\<close>

lemma load_line_content:
  assumes "\<forall>c\<in>set x. c \<notin> {NUL, newline, tab, blank, CHR ''#''}" "x \<noteq> []" "length x \<le> 36"
  shows "load_line t n (fgets_array (x @ [newline])) = load_rule t n x"
proof -
  let ?s = "fgets_array (x @ [newline])"
  obtain c y where x: "x = c # y" using assms(2) by (cases x) auto
  then have c: "c \<notin> {NUL, newline, tab, blank, CHR ''#''}" using assms(1) by simp
  have s: "?s = x @ newline # replicate (99 - length x) NUL"
    by (simp add: fgets_array_def MAX_LINE_LENGTH_def)
  have s0: "?s ! 0 = c" unfolding s by (simp add: x)
  have start: "find_start ?s = 0"
    using find_start_prefix [of c 0] c unfolding s unfolding x by simp
  have "cut_loop MAX_RULE_CONTENT_LENGTH 0 ?s = Some (?s[length x := NUL])"
  proof (rule cut_loop_first)
    show "\<forall>q. 0 \<le> q \<and> q < length x \<longrightarrow> \<not> is_terminator (?s ! q)"
      using assms(1) nth_mem [of _ x] by (auto simp: s nth_append is_terminator_def)
  qed (use assms(3) in \<open>auto simp: s MAX_RULE_CONTENT_LENGTH_def is_terminator_def\<close>)
  moreover have "?s[length x := NUL] = x @ NUL # replicate (99 - length x) NUL"
    by (simp add: s)
  ultimately have "line_editor (Some ?s) = LE_at 0 (x @ NUL # replicate (99 - length x) NUL)"
    using c s0 by (simp add: line_editor_def start)
  moreover have "cstr (x @ NUL # replicate (99 - length x) NUL) = x"
    using assms(1) by (intro cstr_append_NUL) auto
  ultimately show ?thesis
    using c x by (simp add: load_line_def)
qed

lemma count_plain: "plain x \<Longrightarrow> count_list x CHR ''-'' = 0"
  by (auto simp: plain_def count_list_0_iff)

lemma strtok_plain:
  "plain x \<Longrightarrow> strtok_r CHR ''-'' (x @ CHR ''-'' # y) = Some (x, y)"
  "plain x \<Longrightarrow> strtok_r CHR ''-'' x = Some (x, [])"
  by (auto simp: plain_def intro!: strtok_r_first strtok_r_last)

lemma tag_converting_dec:
  "v \<le> 4095 \<Longrightarrow> tag_converting obj (Some (dec v)) = (0, int v)"
  by (simp add: tag_converting_def strtol10_dec INT_MAX_def INT_MIN_def)

lemma ip_converting_show_ip: "ip_converting obj (Some (show_ip w)) = (0, htonl w)"
  by (simp add: ip_converting_def inet_aton_show_ip)

lemma load_tag_dec:
  assumes "v \<le> 4095"
  shows "load_tag t n (dec v) = Line_rule (set_rule n (\<lambda>r. r\<lparr>tag := int v\<rparr>) t)"
  using assms by (simp add: load_tag_def strtok_plain plain_dec tag_converting_dec)

lemma load_right_text:
  assumes "v \<le> 4095"
  shows "load_right t n (show_ip w @ CHR ''-'' # dec v) =
     Line_rule (set_rule n (\<lambda>r. r\<lparr>tag := int v\<rparr>) (set_rule n (\<lambda>r. r\<lparr>ip_right := htonl w\<rparr>) t))"
  using assms by (simp add: load_right_def strtok_plain plain_show_ip ip_converting_show_ip load_tag_dec)

lemma char_count_one:
  assumes "plain x" "plain y"
  shows "char_count (Some (x @ CHR ''-'' # y)) CHR ''-'' = 1"
proof -
  have "cstr (x @ CHR ''-'' # y) = x @ CHR ''-'' # y"
    using assms by (intro cstr_idem) (auto simp: plain_def)
  then show ?thesis using assms by (simp add: char_count_eq count_plain)
qed

lemma char_count_two:
  assumes "plain x" "plain y" "plain z"
  shows "char_count (Some (x @ CHR ''-'' # y @ CHR ''-'' # z)) CHR ''-'' = 2"
proof -
  have "cstr (x @ CHR ''-'' # y @ CHR ''-'' # z) = x @ CHR ''-'' # y @ CHR ''-'' # z"
    using assms by (intro cstr_idem) (auto simp: plain_def)
  then show ?thesis using assms by (simp add: char_count_eq count_plain)
qed

lemma load_rule_single:
  assumes "n < MAX_RULES" "v \<le> 4095"
  shows "load_rule t n (show_ip a @ CHR ''-'' # dec v) =
     Line_rule (set_rule n (\<lambda>r. r\<lparr>tag := int v\<rparr>) (set_rule n (\<lambda>r. r\<lparr>ip_right := ip_left r\<rparr>)
       (set_rule n (\<lambda>r. r\<lparr>ip_left := htonl a\<rparr>) t)))"
  using assms
  by (simp add: load_rule_def char_count_one plain_show_ip plain_dec strtok_plain
      ip_converting_show_ip load_tag_dec)

lemma load_rule_range:
  assumes "n < MAX_RULES" "v \<le> 4095"
  shows "load_rule t n (show_ip a @ CHR ''-'' # show_ip b @ CHR ''-'' # dec v) =
     Line_rule (set_rule n (\<lambda>r. r\<lparr>tag := int v\<rparr>) (set_rule n (\<lambda>r. r\<lparr>ip_right := htonl b\<rparr>)
       (set_rule n (\<lambda>r. r\<lparr>ip_left := htonl a\<rparr>) t)))"
  using assms
  by (simp add: load_rule_def char_count_two plain_show_ip plain_dec strtok_plain
      ip_converting_show_ip load_right_text)

lemma rule_overwritten:
  fixes q r :: tag_rule_t
  shows "q\<lparr>ip_left := ip_left r, ip_right := ip_right r, tag := tag r\<rparr> = r"
    and "ip_left r = ip_right r \<Longrightarrow> q\<lparr>ip_left := ip_right r, ip_right := ip_right r, tag := tag r\<rparr> = r"
  by (cases q; cases r; simp)+

lemma load_rule_text:
  assumes "n < MAX_RULES" "length (rules t) = MAX_RULES" "0 \<le> tag r" "tag r \<le> 4095"
  shows "load_rule t n (rule_text r) = Line_rule (t\<lparr>rules := (rules t)[n := r]\<rparr>)"
proof -
  have v: "nat (tag r) \<le> 4095" "int (nat (tag r)) = tag r" using assms(3,4) by auto
  show ?thesis
    using assms(1,2) v
    by (cases "ip_left r = ip_right r")
      (simp_all add: rule_text_def load_rule_single load_rule_range set_rule_def rule_overwritten)
qed

text \<open>Reading the text of a list of rules fills the table from position \<open>n\<close> on.\<close>

lemma load_loop_rules_text:
  assumes "\<forall>r\<in>set rs. tag r \<in> {0..4095}" "n + length rs \<le> MAX_RULES" "length (rules t) = MAX_RULES"
    "f_data f = rules_text rs" "\<not> f_error f"
  shows "load_loop f t n =
     Loaded (t\<lparr>rules := take n (rules t) @ rs @ drop (n + length rs) (rules t)\<rparr>) (n + length rs)"
  using assms
proof (induction rs arbitrary: f t n)
  case Nil
  then show ?case by (simp add: rules_text_def text_of_lines_def load_loop_end)
next
  case (Cons r rs)
  let ?t = "t\<lparr>rules := (rules t)[n := r]\<rparr>" and ?f = "f\<lparr>f_data := rules_text rs\<rparr>"
  have sl: "short_line (rule_text r)"
    using Cons.prems(1) length_rule_text [of r] rule_text_chars [of r]
    by (auto simp: short_line_def MAX_LINE_LENGTH_def)
  have "load_line t n (fgets_array (rule_text r @ [newline])) = Line_rule ?t"
    using Cons.prems length_rule_text [of r]
    by (subst load_line_content [OF rule_text_chars]) (simp_all add: load_rule_text)
  then have "load_loop f t n = load_loop ?f ?t (n + 1)"
    using Cons.prems(4) by (subst load_loop_line [OF sl, of _ "rules_text rs"])
      (simp_all add: rules_text_def text_of_lines_def)
  also have "\<dots> = Loaded (?t\<lparr>rules := take (n + 1) (rules ?t) @ rs @ drop (n + 1 + length rs) (rules ?t)\<rparr>)
      (n + 1 + length rs)"
    using Cons.prems by (intro Cons.IH) auto
  also have "take (n + 1) (rules ?t) @ rs @ drop (n + 1 + length rs) (rules ?t)
      = take n (rules t) @ (r # rs) @ drop (n + length (r # rs)) (rules t)"
    using Cons.prems(2,3) by (simp add: take_Suc_conv_app_nth)
  finally show ?case by simp
qed

lemma load_rules_text_table:
  assumes "length rs \<le> MAX_RULES" "well_formed_rules \<lparr>rules = rs, rules_size = length rs\<rparr>"
    and "fs p = Some \<lparr>f_data = rules_text rs, f_error = False, f_close_ok = True\<rparr>"
  shows "tag_rules_load fs (Some t0) (Some p) = Some (int (length rs),
    Some (zero_rules\<lparr>rules := rs @ drop (length rs) (rules zero_rules), rules_size := length rs\<rparr>))"
proof -
  let ?n = "length rs"
  have "\<forall>r\<in>set rs. tag r \<in> {0..4095}"
    using assms(2) by (auto simp: well_formed_rules_def in_set_conv_nth)
  then have "load_loop \<lparr>f_data = rules_text rs, f_error = False, f_close_ok = True\<rparr> zero_rules 0
      = Loaded (zero_rules\<lparr>rules := rs @ drop ?n (rules zero_rules)\<rparr>) ?n"
    using assms(1) by (subst load_loop_rules_text) (auto simp: zero_rules_def)
  moreover have "well_formed_rules (zero_rules\<lparr>rules := rs @ drop ?n (rules zero_rules), rules_size := ?n\<rparr>)"
    using assms(2)
    by (auto simp: well_formed_rules_def rule_range_def rule_left_def rule_right_def nth_append)
  ultimately show ?thesis
    using assms(3) by (simp add: tag_rules_load_def Let_def validate_rules_ok_iff [symmetric])
qed

text \<open>
  C24: Round trip of the configuration file. The text written from any well-formed list of at
  most 128 rules, with the single-address form for a range of one address, is loaded back as
  exactly these rules, in their order, with their number as the result.
\<close>

theorem tag_rules_load_rules_text:
  assumes "length rs \<le> 128"
    and "well_formed_rules \<lparr>rules = rs, rules_size = length rs\<rparr>"
    and "fs p = Some \<lparr>f_data = rules_text rs, f_error = False, f_close_ok = True\<rparr>"
  shows "\<exists>t. tag_rules_load fs (Some t0) (Some p) = Some (int (length rs), Some t)
    \<and> rules_size t = length rs \<and> take (rules_size t) (rules t) = rs"
  using load_rules_text_table [of rs fs p t0] assms by (simp add: MAX_RULES_def)

subsection \<open>The example of the tests\<close>

text \<open>
  The rules of tests/config_parser_test.c: 10.0.0.1-10.0.0.10-100, 172.16.0.5-200 and
  192.168.0.0-192.168.0.10-300.
\<close>

definition example_rules :: "tag_rule_t list" where
  "example_rules =
     [\<lparr>ip_left = htonl 0x0A000001, ip_right = htonl 0x0A00000A, tag = 100\<rparr>,
      \<lparr>ip_left = htonl 0xAC100005, ip_right = htonl 0xAC100005, tag = 200\<rparr>,
      \<lparr>ip_left = htonl 0xC0A80000, ip_right = htonl 0xC0A8000A, tag = 300\<rparr>]"

definition example_fs :: "string \<Rightarrow> FILE option" where
  "example_fs p = (if p = ''vlan-tagger.cfg''
     then Some \<lparr>f_data = rules_text example_rules, f_error = False, f_close_ok = True\<rparr> else None)"

lemma length_example_rules [simp]: "length example_rules = 3"
  by (simp add: example_rules_def)

lemma example_rules_well_formed:
  "well_formed_rules \<lparr>rules = example_rules, rules_size = length example_rules\<rparr>"
proof -
  have three: "(\<forall>i < (3 :: nat). P i) \<longleftrightarrow> P 0 \<and> P 1 \<and> P 2" for P
    by (auto simp: less_Suc_eq numeral_3_eq_3 numeral_2_eq_2)
  show ?thesis
    unfolding validate_rules_ok_iff [symmetric]
    by (simp add: validate_rules_def rule_left_def rule_right_def example_rules_def upt_rec
        MIN_VLAN_ID_def MAX_VLAN_ID_def)
qed

lemma example_load:
  "tag_rules_load example_fs (Some zero_rules) (Some ''vlan-tagger.cfg'') = Some (3,
     Some (zero_rules\<lparr>rules := example_rules @ drop 3 (rules zero_rules), rules_size := 3\<rparr>))"
  using load_rules_text_table [OF _ example_rules_well_formed, of example_fs "''vlan-tagger.cfg''"]
  by (simp add: example_fs_def MAX_RULES_def)

theorem tag_rules_load_rules_text_witness:
  "\<exists>t. tag_rules_load example_fs (Some zero_rules) (Some ''vlan-tagger.cfg'') = Some (3, Some t)
    \<and> rules_size t = 3 \<and> take (rules_size t) (rules t) = example_rules"
  using tag_rules_load_rules_text [OF _ example_rules_well_formed, of example_fs "''vlan-tagger.cfg''" zero_rules]
  by (simp add: example_fs_def)

theorem tag_rules_load_sound_witness:
  "well_formed_rules (zero_rules\<lparr>rules := example_rules @ drop 3 (rules zero_rules), rules_size := 3\<rparr>)"
  using tag_rules_load_sound [OF example_load] by simp


end
