(* ===== verification/Tagger_Node.thy ===== *)
theory Tagger_Node
  imports Node_Core Config_Text
begin

text \<open>
  The tagger, nodes/src/tagger_node.c: it keeps the frames whose IPv4 destination lies in the
  range of a rule and puts an 802.1Q tag with the rule's VLAN id into them. The thread's variables
  are the context, \<open>output_buffer\<close> and \<open>buffer\<close>, both arrays of 1522 bytes.
  \<open>tag_frame\<close> is the specification: the frame with the four bytes of the tag after the
  two addresses.
\<close>

definition VLAN_VID_MASK :: u16 where "VLAN_VID_MASK = 0x0FFF"
definition VLAN_HLEN :: u16 where "VLAN_HLEN = 4"
definition IP_HEADER_MIN_LEN :: int where "IP_HEADER_MIN_LEN = 20"
definition ETH_HLEN :: nat where "ETH_HLEN = 14"
definition ETH_DATA_LEN :: nat where "ETH_DATA_LEN = 1500"
definition ETH_P_IP :: u16 where "ETH_P_IP = 0x0800"
definition ETH_P_8021Q :: u16 where "ETH_P_8021Q = 0x8100"
definition ETH_P_IPV6 :: u16 where "ETH_P_IPV6 = 0x86DD"

record tagger_rule_t =
  tr_left :: u32      \<comment> \<open>host byte order\<close>
  tr_right :: u32     \<comment> \<open>host byte order\<close>
  tr_tag :: int

record TaggerContext =
  tc_rules :: "tagger_rule_t list"
  tc_size :: int

subsection \<open>Creation\<close>

definition copy_rule :: "tag_rule_t \<Rightarrow> tagger_rule_t" where
  "copy_rule r = \<lparr>tr_left = ntohl (ip_left r), tr_right = ntohl (ip_right r), tr_tag = tag r\<rparr>"

definition tagger_node_create :: "string option \<Rightarrow> tag_rule_t list option \<Rightarrow> int \<Rightarrow> Mem
    \<Rightarrow> TaggerContext Node option \<times> Mem" where
  "tagger_node_create name tag_rules tag_rules_size m =
     (case (name, tag_rules) of
        (Some name, Some tag_rules) \<Rightarrow>
          (if tag_rules_size \<le> 0 then (None, m)
           else
             (let (ok, m) = calloc m in
              if \<not> ok then (None, m)
              else
             (let (rules_ok, m) = calloc m in
              if \<not> rules_ok then (None, free m)
              else
             (let ctx = \<lparr>tc_rules = map (\<lambda>i. copy_rule (tag_rules ! i)) [0..<nat tag_rules_size],
                         tc_size = tag_rules_size\<rparr>;
                  (node, m) = node_create (Some name) NODE_TYPE_TAGGER (Some Tagger_process) (Some ctx) m
              in case node of
                   None \<Rightarrow> (None, free (free m))
                 | Some node \<Rightarrow> (Some node, m)))))
      | _ \<Rightarrow> (None, m))"

subsection \<open>Finding the tag\<close>

fun get_tag_from :: "u32 \<Rightarrow> tagger_rule_t list \<Rightarrow> int" where
  "get_tag_from addr [] = 0"
| "get_tag_from addr (r # rs) =
     (if tr_left r \<le> addr \<and> tr_right r \<ge> addr then tr_tag r else get_tag_from addr rs)"

definition tagger_node_get_tag :: "u32 \<Rightarrow> tagger_rule_t list \<Rightarrow> int \<Rightarrow> int" where
  "tagger_node_get_tag addr tag_rules_obj num_rules = get_tag_from addr (take (nat num_rules) tag_rules_obj)"

definition tagger_node_get_ip_offset :: "byte list \<Rightarrow> nat option" where
  "tagger_node_get_ip_offset buffer =
     (let ether_type = ntohs (load16 (buffer ! 12) (buffer ! 13)) in
      if unat ether_type \<le> ETH_DATA_LEN then None
      else if ether_type = ETH_P_IPV6 then None
      else if ether_type = ETH_P_8021Q then None
      else if ether_type = ETH_P_IP then Some ETH_HLEN
      else None)"

definition tagger_node_get_ip :: "byte list \<Rightarrow> u32" where
  "tagger_node_get_ip ip_buffer =
     (case tagger_node_get_ip_offset ip_buffer of
        None \<Rightarrow> 0
      | Some ip_offset \<Rightarrow>
          (let dst_addr = ip_offset + 16 in
           ntohl (load32 (ip_buffer ! dst_addr) (ip_buffer ! (dst_addr + 1))
             (ip_buffer ! (dst_addr + 2)) (ip_buffer ! (dst_addr + 3)))))"

subsection \<open>Writing the tag\<close>

text \<open>\<^const>\<open>None\<close>: a copy outside one of the buffers.\<close>

definition tagger_node_edit_packet :: "byte list \<Rightarrow> byte list \<Rightarrow> u16 \<Rightarrow> u16 \<Rightarrow> (byte list \<times> u16) option" where
  "tagger_node_edit_packet input_buffer output_buffer vlan_id packet_size =
     (if unat packet_size < 12 then None
      else do {
        output_buffer \<leftarrow> memcpy output_buffer 0 input_buffer 0 12;
        output_buffer \<leftarrow> memcpy output_buffer 12 (bytes16 (htons ETH_P_8021Q)) 0 2;
        output_buffer \<leftarrow> memcpy output_buffer 14 (bytes16 (htons (vlan_id AND VLAN_VID_MASK))) 0 2;
        output_buffer \<leftarrow> memcpy output_buffer 16 input_buffer 12 (unat packet_size - 12);
        Some (output_buffer, packet_size + VLAN_HLEN)
      })"

subsection \<open>The thread\<close>

definition tagger_handle :: "'c Node \<Rightarrow> TaggerContext \<times> byte list \<Rightarrow> byte list \<Rightarrow> int
    \<Rightarrow> ((TaggerContext \<times> byte list) \<times> byte list) handled" where
  "tagger_handle node x buffer packet_size =
     (let (ctx, output_buffer) = x in
      if packet_size < int ETH_HLEN + IP_HEADER_MIN_LEN then Skip (x, buffer)
      else
        (let addr = tagger_node_get_ip buffer in
         if addr = 0 then Skip (x, buffer)
         else
           (let tag = tagger_node_get_tag addr (tc_rules ctx) (tc_size ctx) in
            if tag = 0 then Skip (x, buffer)
            else
              (case tagger_node_edit_packet buffer output_buffer (of_int tag) (of_int packet_size) of
                 None \<Rightarrow> Handle_fault
               | Some (output_buffer, packet_size) \<Rightarrow>
                   Emit ((ctx, output_buffer), buffer) [] output_buffer packet_size))))"

definition tagger_body :: "'c Node \<Rightarrow> (TaggerContext \<times> byte list) \<times> byte list \<Rightarrow> int list \<Rightarrow> world
    \<Rightarrow> ((TaggerContext \<times> byte list) \<times> byte list) outcome" where
  "tagger_body = consumer_body TAGGER tagger_handle"

text \<open>
  The buffers of the thread are not initialised; \<open>junk\<close> is what they hold. The left side of the
  sum is a return before the loop.
\<close>

definition tagger_node_process :: "TaggerContext Node \<Rightarrow> byte list \<times> byte list \<Rightarrow> int list list \<Rightarrow> world
    \<Rightarrow> world + ((TaggerContext \<times> byte list) \<times> byte list) outcome" where
  "tagger_node_process node junk es w =
     (case n_context node of
        None \<Rightarrow> Inl (log_to ERROR TAGGER (node_name node @ '': Invalid context'') w)
      | Some ctx \<Rightarrow>
          (if tc_size ctx \<le> 0 then Inl (log_to ERROR TAGGER (node_name node @ '': Invalid context'') w)
           else
             (let w = log_to INFO TAGGER (''Tagger node started: '' @ node_name node) w in
              Inr (finish (\<lambda>l. log_to INFO TAGGER (''Tagger node stopped: '' @ node_name node))
                (run_loop (tagger_body node) node es ((ctx, fst junk), snd junk) w)))))"

subsection \<open>Specification\<close>

text \<open>The IPv4 destination of a frame, the rule that covers it and the tagged frame.\<close>

definition ipv4_destination :: "byte list \<Rightarrow> u32 option" where
  "ipv4_destination p =
     (if 34 \<le> length p \<and> take 2 (drop 12 p) = [0x08, 0x00]
      then Some (load32 (p ! 33) (p ! 32) (p ! 31) (p ! 30)) else None)"

definition tag_frame :: "u16 \<Rightarrow> byte list \<Rightarrow> byte list" where
  "tag_frame vid p = take 12 p @ [0x81, 0x00, ucast (drop_bit 8 (vid AND 0x0FFF)), ucast (vid AND 0x0FFF)] @ drop 12 p"

definition tagger_out :: "TaggerContext \<Rightarrow> byte list \<Rightarrow> byte list option" where
  "tagger_out ctx p =
     (case ipv4_destination p of
        None \<Rightarrow> None
      | Some a \<Rightarrow>
          (let t = tagger_node_get_tag a (tc_rules ctx) (tc_size ctx) in
           if a = 0 \<or> t = 0 then None else Some (tag_frame (of_int t) p)))"

lemma length_tag_frame [simp]: "length (tag_frame v p) = length p + 4"
  by (simp add: tag_frame_def)

lemma tag_frame_nonempty [simp]: "tag_frame v p \<noteq> []"
  by (simp add: tag_frame_def)

lemma take_2_nth: "14 \<le> length p \<Longrightarrow> take 2 (drop 12 p) = [p ! 12, p ! 13]"
  by (simp add: take_Suc_conv_app_nth numeral_2_eq_2 hd_drop_conv_nth)

lemma ether_type_ip:
  "tagger_node_get_ip_offset buffer = (if buffer ! 12 = 0x08 \<and> buffer ! 13 = 0x00 then Some 14 else None)"
proof -
  have "(load16 (buffer ! 13) (buffer ! 12) = ETH_P_IP) = (buffer ! 12 = 0x08 \<and> buffer ! 13 = 0x00)"
  proof -
    have "ETH_P_IP = load16 0x00 0x08" by (simp add: ETH_P_IP_def load16_def)
    then show ?thesis by (metis load16_inject)
  qed
  moreover have "\<not> unat ETH_P_IP \<le> ETH_DATA_LEN" "ETH_P_IP \<noteq> ETH_P_IPV6" "ETH_P_IP \<noteq> ETH_P_8021Q"
    by (simp_all add: ETH_P_IP_def ETH_P_IPV6_def ETH_P_8021Q_def ETH_DATA_LEN_def)
  ultimately show ?thesis
    by (auto simp: tagger_node_get_ip_offset_def Let_def ETH_HLEN_def)
qed

lemma get_ip_destination:
  assumes "34 \<le> length p"
  shows "tagger_node_get_ip (p @ rest) = (case ipv4_destination p of None \<Rightarrow> 0 | Some a \<Rightarrow> a)"
  using assms
  by (simp add: tagger_node_get_ip_def ether_type_ip ipv4_destination_def take_2_nth nth_append Let_def)

lemma edit_packet_frame:
  assumes "length out = 1522" "12 \<le> length p" "length p \<le> 1518" "unat k = length p"
  shows "tagger_node_edit_packet (p @ rest) out v k =
    Some (tag_frame v p @ drop (length p + 4) out, of_nat (length p + 4))"
proof -
  have "bytes16 (htons ETH_P_8021Q) = [0x81, 0x00]"
    by (simp add: bytes16_htons ETH_P_8021Q_def)
  moreover have "k = of_nat (length p)" using arg_cong [OF assms(4), of "of_nat :: nat \<Rightarrow> u16"] by simp
  moreover have "length p - 8 = Suc (Suc (Suc (Suc (length p - 12))))" using assms(2) by simp
  ultimately show ?thesis
    using assms
    by (simp add: tagger_node_edit_packet_def memcpy_def bytes16_htons tag_frame_def VLAN_VID_MASK_def VLAN_HLEN_def add.commute)
qed

lemma edit_packet_overrun:
  assumes "length out = 1522" "1518 < unat k"
  shows "tagger_node_edit_packet inp out v k = None"
  using assms by (auto simp: tagger_node_edit_packet_def memcpy_def)

lemma tagger_handle_out:
  assumes "length (snd x) = 1522" "length p \<le> 1518" "packet_ok p"
  shows "tagger_handle node x (p @ rest) (int (length p)) =
    (case tagger_out (fst x) p of
       None \<Rightarrow> Skip (x, p @ rest)
     | Some p' \<Rightarrow> Emit ((fst x, p' @ drop (length p') (snd x)), p @ rest) []
         (p' @ drop (length p') (snd x)) (of_nat (length p')))"
proof (cases "length p < 34")
  case True
  then show ?thesis
    by (simp add: tagger_handle_def ETH_HLEN_def IP_HEADER_MIN_LEN_def tagger_out_def ipv4_destination_def split: prod.split)
next
  case False
  have k: "unat (of_int (int (length p)) :: u16) = length p"
    using unat_packet_length [OF assms(3)] by simp
  show ?thesis
    using False assms edit_packet_frame [OF assms(1) _ assms(2) k] get_ip_destination [of p rest]
    by (auto simp: tagger_handle_def ETH_HLEN_def IP_HEADER_MIN_LEN_def tagger_out_def Let_def
        split: prod.split option.splits)
qed

interpretation tagger: packet_handler tagger_handle "\<lambda>x. length (snd x) = MAX_PKG_SIZE" fst
  "\<lambda>ctx p. length p \<le> 1518" tagger_out "\<lambda>ctx p. ctx"
proof unfold_locales
  fix x :: "TaggerContext \<times> byte list" and p rest p' :: "byte list" and node
  assume "length (snd x) = MAX_PKG_SIZE" "length p \<le> 1518" "packet_ok p" "length (p @ rest) = MAX_PKG_SIZE"
  note h = tagger_handle_out [OF this(1) [unfolded MAX_PKG_SIZE_def] this(2,3), of node rest] this
  show "\<exists>x' buf. tagger_handle node x (p @ rest) (int (length p)) = Skip (x', buf) \<and>
      length (snd x') = MAX_PKG_SIZE \<and> fst x' = fst x \<and> length buf = MAX_PKG_SIZE" if "tagger_out (fst x) p = None"
    using h that by (intro exI [of _ x] exI [of _ "p @ rest"]) simp
  show "\<exists>x' buf msgs tail. tagger_handle node x (p @ rest) (int (length p)) =
        Emit (x', buf) msgs (p' @ tail) (of_nat (length p')) \<and>
      length (snd x') = MAX_PKG_SIZE \<and> fst x' = fst x \<and> length buf = MAX_PKG_SIZE" if "tagger_out (fst x) p = Some p'"
  proof -
    have "length p' \<le> 1522" using that h(3) by (auto simp: tagger_out_def Let_def split: option.splits if_splits)
    then show ?thesis using h that
      by (intro exI [of _ "(fst x, p' @ drop (length p') (snd x))"] exI [of _ "p @ rest"] exI [of _ "[]"]
          exI [of _ "drop (length p') (snd x)"]) (simp add: MAX_PKG_SIZE_def)
  qed
next
  fix ctx p p'
  assume "length p \<le> 1518" "packet_ok p" "tagger_out ctx p = Some p'"
  then show "packet_ok p'"
    by (auto simp: tagger_out_def packet_ok_def MAX_PKG_SIZE_def Let_def split: option.splits if_splits)
qed


lemma get_tag_from_nth:
  "get_tag_from a rs = (case find (\<lambda>r. tr_left r \<le> a \<and> a \<le> tr_right r) rs of None \<Rightarrow> 0 | Some r \<Rightarrow> tr_tag r)"
  by (induction rs) auto

lemma get_tag_unique:
  assumes "i < n" "n \<le> length rs" "tr_left (rs ! i) \<le> a" "a \<le> tr_right (rs ! i)"
    and "\<And>j. j < n \<Longrightarrow> tr_left (rs ! j) \<le> a \<Longrightarrow> a \<le> tr_right (rs ! j) \<Longrightarrow> j = i"
  shows "get_tag_from a (take n rs) = tr_tag (rs ! i)"
proof -
  have none: "\<not> (tr_left (rs ! j) \<le> a \<and> a \<le> tr_right (rs ! j))" if "j < i" for j
    using assms(5) [of j] that assms(1) by auto
  have "find (\<lambda>r. tr_left r \<le> a \<and> a \<le> tr_right r) (take n rs) = Some (rs ! i)"
    unfolding find_Some_iff by (rule exI [of _ i]) (use assms(1-4) none in simp)
  then show ?thesis by (simp add: get_tag_from_nth)
qed

lemma get_tag_none:
  assumes "n \<le> length rs" "\<And>j. j < n \<Longrightarrow> \<not> (tr_left (rs ! j) \<le> a \<and> a \<le> tr_right (rs ! j))"
  shows "get_tag_from a (take n rs) = 0"
proof -
  have "find (\<lambda>r. tr_left r \<le> a \<and> a \<le> tr_right r) (take n rs) = None"
    using assms by (auto simp: find_None_iff in_set_conv_nth)
  then show ?thesis by (simp add: get_tag_from_nth)
qed

lemma tagger_create_context:
  assumes "tagger_node_create name tag_rules n m = (Some node, m')"
  shows "0 < n \<and> (\<exists>rs. tag_rules = Some rs \<and>
    n_context node = Some \<lparr>tc_rules = map (\<lambda>i. copy_rule (rs ! i)) [0..<nat n], tc_size = n\<rparr>)"
  using assms node_create_spec
  by (fastforce simp: tagger_node_create_def Let_def split: option.splits if_splits prod.splits)

subsection \<open>Properties of the tagger\<close>

text \<open>
  C10: A tagger created from the table that \<open>tag_rules_load\<close> has read looks addresses up as the
  file says: an address in the range of a rule gets that rule's VLAN id, whichever place the rule
  has in the file, and an address in no range gets 0.
\<close>

theorem tagger_lookup:
  assumes "tag_rules_load fs r path = Some (k, Some t)" "0 \<le> k"
    and "tagger_node_create name (Some (rules t)) k m = (Some node, m')" "n_context node = Some ctx"
  shows "(\<forall>i < nat k. addr \<in> rule_range t i \<longrightarrow>
      tagger_node_get_tag addr (tc_rules ctx) (tc_size ctx) = tag (rules t ! i)) \<and>
    ((\<forall>i < nat k. addr \<notin> rule_range t i) \<longrightarrow> tagger_node_get_tag addr (tc_rules ctx) (tc_size ctx) = 0)"
proof -
  have c: "ctx = \<lparr>tc_rules = map (\<lambda>i. copy_rule (rules t ! i)) [0..<nat k], tc_size = k\<rparr>"
    using tagger_create_context [OF assms(3)] assms(4) by auto
  have t: "rules_size t = nat k" "well_formed_rules t"
    using tag_rules_load_table [OF assms(1,2)] by auto
  have range: "tr_left (copy_rule (rules t ! i)) \<le> addr \<and> addr \<le> tr_right (copy_rule (rules t ! i)) \<longleftrightarrow> addr \<in> rule_range t i" for i
    by (simp add: copy_rule_def rule_range_def rule_left_def rule_right_def)
  have uniq: "j = i" if "i < nat k" "j < nat k" "addr \<in> rule_range t i" "addr \<in> rule_range t j" for i j
    using t that by (auto simp: well_formed_rules_def)
  have nth: "tc_rules ctx ! j = copy_rule (rules t ! j)" if "j < nat k" for j using that by (simp add: c)
  have len: "nat k \<le> length (tc_rules ctx)" by (simp add: c)
  show ?thesis
  proof (intro conjI allI impI)
    fix i assume i: "i < nat k" "addr \<in> rule_range t i"
    have "get_tag_from addr (take (nat k) (tc_rules ctx)) = tr_tag (tc_rules ctx ! i)"
    proof (rule get_tag_unique [OF i(1) len])
      show "tr_left (tc_rules ctx ! i) \<le> addr" "addr \<le> tr_right (tc_rules ctx ! i)"
        using range [of i] i nth by simp_all
      show "j = i" if "j < nat k" "tr_left (tc_rules ctx ! j) \<le> addr" "addr \<le> tr_right (tc_rules ctx ! j)" for j
        using uniq [OF i(1) that(1) i(2)] range [of j] that nth by simp
    qed
    then show "tagger_node_get_tag addr (tc_rules ctx) (tc_size ctx) = tag (rules t ! i)"
      using i nth by (simp add: tagger_node_get_tag_def c copy_rule_def)
  next
    assume none: "\<forall>i < nat k. addr \<notin> rule_range t i"
    have "get_tag_from addr (take (nat k) (tc_rules ctx)) = 0"
    proof (rule get_tag_none [OF len])
      show "\<not> (tr_left (tc_rules ctx ! j) \<le> addr \<and> addr \<le> tr_right (tc_rules ctx ! j))" if "j < nat k" for j
        using none range [of j] nth that by simp
    qed
    then show "tagger_node_get_tag addr (tc_rules ctx) (tc_size ctx) = 0"
      by (simp add: tagger_node_get_tag_def c)
  qed
qed

text \<open>
  C14: What the tagger does with a packet that \<open>pop\<close> left at the start of its buffer. It is
  dropped unless it has at least 34 bytes, EtherType 0x0800 (so no frame that carries a tag
  already, no IPv6 and no 802.3 frame is touched), a destination other than 0.0.0.0, and a rule
  that gives a VLAN id other than 0. A packet that passes is sent as \<open>tag_frame\<close>, four bytes
  longer, when it has at most 1518 bytes; with 1519 to 1522 bytes the copy of its payload runs
  over the end of \<open>output_buffer\<close>.
\<close>

theorem tagger_handle_spec:
  assumes "length out = 1522" "length (p @ rest) = 1522" "0 < length p"
  shows "tagger_handle node (ctx, out) (p @ rest) (int (length p)) =
    (case ipv4_destination p of
       None \<Rightarrow> Skip ((ctx, out), p @ rest)
     | Some a \<Rightarrow>
         (let t = tagger_node_get_tag a (tc_rules ctx) (tc_size ctx) in
          if a = 0 \<or> t = 0 then Skip ((ctx, out), p @ rest)
          else if 1518 < length p then Handle_fault
          else
            (let out' = tag_frame (of_int t) p @ drop (length p + 4) out in
             Emit ((ctx, out'), p @ rest) [] out' (of_nat (length p + 4)))))"
proof (cases "length p \<le> 1518")
  case True
  then have "packet_ok p" using assms by (simp add: packet_ok_def MAX_PKG_SIZE_def)
  then show ?thesis
    using tagger_handle_out [of "(ctx, out)" p node rest] assms True
    by (auto simp: tagger_out_def Let_def split: option.split)
next
  case False
  have k: "unat (of_int (int (length p)) :: u16) = length p"
    using unat_packet_length [of p] assms(2,3) False by (simp add: packet_ok_def MAX_PKG_SIZE_def)
  show ?thesis
    using False assms(1) edit_packet_overrun [of out "of_int (int (length p))" "p @ rest"] k get_ip_destination [of p rest]
    by (auto simp: tagger_handle_def ETH_HLEN_def IP_HEADER_MIN_LEN_def Let_def ipv4_destination_def)
qed

text \<open>
  C13: Putting a tag in and taking it out. The frame that \<open>tagger_node_edit_packet\<close> writes has
  the TPID 0x8100 at offset 12, at offset 14 a TCI whose priority and DEI bits are 0 and whose
  VLAN id is the given one (12 bits), and without these four bytes it is the frame that came in.
  The copies stay inside the buffers exactly for 12 to 1518 bytes.
\<close>

theorem tagger_edit_packet_spec:
  assumes "length inp = 1522" "length out = 1522"
  shows "(tagger_node_edit_packet inp out vid k = None \<longleftrightarrow> unat k < 12 \<or> 1518 < unat k) \<and>
    (\<forall>out' k'. tagger_node_edit_packet inp out vid k = Some (out', k') \<longrightarrow>
       length out' = 1522 \<and> unat k' = unat k + 4 \<and>
       load16 (out' ! 13) (out' ! 12) = 0x8100 \<and>
       load16 (out' ! 15) (out' ! 14) = vid AND 0x0FFF \<and>
       take 12 out' @ take (unat k - 12) (drop 16 out') = take (unat k) inp \<and>
       drop (unat k') out' = drop (unat k') out)"
proof (cases "unat k < 12 \<or> 1518 < unat k")
  case True
  have "tagger_node_edit_packet inp out vid k = None"
  proof (cases "unat k < 12")
    case False
    then show ?thesis using True edit_packet_overrun [OF assms(2)] by simp
  qed (simp add: tagger_node_edit_packet_def)
  then show ?thesis using True by simp
next
  case False
  define p where "p = take (unat k) inp"
  have l: "12 \<le> length p" "length p \<le> 1518" "unat k = length p" "inp = p @ drop (unat k) inp"
    using False assms(1) by (simp_all add: p_def)
  have e: "tagger_node_edit_packet inp out vid k =
      Some (tag_frame vid p @ drop (length p + 4) out, of_nat (length p + 4))"
    using edit_packet_frame [OF assms(2) l(1,2,3)] l(4) by metis
  have k': "unat (of_nat (length p + 4) :: u16) = length p + 4"
    using l(2) by (simp add: unat_of_nat take_bit_nat_eq_self del: of_nat_add)
  have tci: "load16 (ucast (vid AND 0x0FFF)) (ucast (drop_bit 8 (vid AND 0x0FFF))) = vid AND 0x0FFF"
    by (rule load16_bytes16)
  obtain q r where pq: "p = q @ r" "length q = 12"
    using l(1) by (metis append_take_drop_id length_take min.absorb2)
  have t: "take (12 + length r) inp = q @ r" using p_def l(3) pq by simp
  have "4 + length r = Suc (Suc (Suc (Suc (length r))))" by simp
  then have d: "drop (4 + length r) (a # b # c # d # r @ z) = z" for a b c d and z :: "byte list"
    by (simp only: drop_Suc_Cons) simp
  have tpid: "load16 0 0x81 = 0x8100" by (simp add: load16_def)
  show ?thesis
    using False l(3) e k' assms pq tci tpid
    by (auto simp: t d tag_frame_def nth_append p_def [symmetric] simp del: of_nat_add)
qed

text \<open>
  C8: The tagger thread run on its own, from a state in which its input queue holds frames of at
  most 1518 bytes and its outputs have room: it makes no bad access, empties the queue and then
  waits in \<open>pop\<close>; every output has received, in their order, the tagged versions of exactly
  the frames that a rule selects, and no other queue has changed.
\<close>

theorem tagger_process_run:
  assumes "ready node q w" "n_context node = Some ctx" "0 < tc_size ctx"
    and "\<forall>p\<in>set (packets w q). length p \<le> 1518" "length (fst junk) = 1522" "length (snd junk) = 1522"
    and "length (packets w q) < n"
  shows "\<exists>l w'. tagger_node_process node junk (replicate n []) w = Inr (Blocked l w') \<and> world_inv w' \<and>
    packets w' q = [] \<and>
    (\<forall>t. t \<noteq> q \<longrightarrow> packets w' t = packets w t @
       (if t \<in> set (targets node) then List.map_filter (tagger_out ctx) (packets w q) else []))"
proof -
  let ?w = "log_to INFO TAGGER (''Tagger node started: '' @ node_name node) w"
  obtain x' buf' w' where r: "run_loop (consumer_body TAGGER tagger_handle node) node (replicate n []) ((ctx, fst junk), snd junk) ?w =
      Blocked (x', buf') w'" "world_inv w'" "packets w' q = []"
      "\<forall>t. t \<noteq> q \<longrightarrow> packets w' t = packets w t @
         (if t \<in> set (targets node) then outputs tagger_out (\<lambda>ctx p. ctx) ctx (packets w q) else [])"
    using tagger.run_ready [of node q ?w "(ctx, fst junk)" "snd junk" n TAGGER] assms
    by (auto simp: MAX_PKG_SIZE_def)
  then show ?thesis
    using assms(2,3) by (auto simp: tagger_node_process_def tagger_body_def Let_def outputs_const)
qed

subsection \<open>The properties at work\<close>

abbreviation mem0 :: Mem where "mem0 \<equiv> \<lparr>m_results = [], m_live = 0\<rparr>"

definition example_table :: tag_rules_t where
  "example_table = zero_rules\<lparr>rules := example_rules @ drop 3 (rules zero_rules), rules_size := 3\<rparr>"

definition example_ctx :: TaggerContext where
  "example_ctx = \<lparr>tc_rules = [\<lparr>tr_left = 0x0A000001, tr_right = 0x0A00000A, tr_tag = 100\<rparr>,
     \<lparr>tr_left = 0xAC100005, tr_right = 0xAC100005, tr_tag = 200\<rparr>,
     \<lparr>tr_left = 0xC0A80000, tr_right = 0xC0A8000A, tr_tag = 300\<rparr>], tc_size = 3\<rparr>"

definition example_tagger :: "TaggerContext Node" where
  "example_tagger = the (fst (tagger_node_create (Some ''Tagger1'') (Some (rules example_table)) 3 mem0))"

lemma example_tagger:
  "tagger_node_create (Some ''Tagger1'') (Some (rules example_table)) 3 mem0 = (Some example_tagger, \<lparr>m_results = [], m_live = 4\<rparr>)"
  "n_context example_tagger = Some example_ctx" "fresh example_tagger"
  by (simp_all add: example_tagger_def tagger_node_create_def node_create_def calloc_def example_table_def
      example_rules_def copy_rule_def example_ctx_def upt_rec fresh_def MAX_NODE_OUTPUTS_def)

text \<open>A frame to 10.0.0.5, which the first rule covers, and a frame to 10.0.1.5.\<close>

definition example_frame :: "byte list" where
  "example_frame = replicate 12 0xAA @ [0x08, 0x00] @ replicate 16 0x45 @ [10, 0, 0, 5] @ replicate 12 7"

definition other_frame :: "byte list" where
  "other_frame = replicate 12 0xAA @ [0x08, 0x00] @ replicate 16 0x45 @ [10, 0, 1, 5] @ replicate 12 7"

lemma length_frames [simp]: "length example_frame = 46" "length other_frame = 46"
  by (simp_all add: example_frame_def other_frame_def)

lemma frames_ok: "packet_ok example_frame" "packet_ok other_frame"
  by (simp_all add: packet_ok_def MAX_PKG_SIZE_def)

lemma destination_frames:
  "ipv4_destination example_frame = Some 0x0A000005" "ipv4_destination other_frame = Some 0x0A000105"
  by (simp_all add: ipv4_destination_def example_frame_def other_frame_def nth_append load32_def)

lemma get_tag_frames:
  "tagger_node_get_tag 0x0A000005 (tc_rules example_ctx) (tc_size example_ctx) = 100"
  "tagger_node_get_tag 0x0A000105 (tc_rules example_ctx) (tc_size example_ctx) = 0"
  by (simp_all add: tagger_node_get_tag_def example_ctx_def)

lemma tagger_out_frames:
  "tagger_out example_ctx example_frame = Some (tag_frame 100 example_frame)"
  "tagger_out example_ctx other_frame = None"
  by (simp_all add: tagger_out_def destination_frames get_tag_frames)

lemma tagger_lookup_witness:
  "tagger_node_get_tag 0x0A000005 (tc_rules example_ctx) (tc_size example_ctx) = 100"
proof -
  have "0x0A000005 \<in> rule_range example_table 0"
    by (simp add: rule_range_def rule_left_def rule_right_def example_table_def example_rules_def)
  moreover have "tag (rules example_table ! 0) = 100" by (simp add: example_table_def example_rules_def)
  ultimately show ?thesis
    using tagger_lookup [where addr = "0x0A000005", OF example_load [folded example_table_def] _ example_tagger(1,2),
        THEN conjunct1, rule_format, of 0] by simp
qed

lemma tagger_handle_spec_witness:
  "tagger_handle example_tagger (example_ctx, replicate 1522 0) (example_frame @ replicate 1476 9) 46 =
     Emit ((example_ctx, tag_frame 100 example_frame @ replicate 1472 0), example_frame @ replicate 1476 9) []
       (tag_frame 100 example_frame @ replicate 1472 0) 50"
  using tagger_handle_spec [of "replicate 1522 0" example_frame "replicate 1476 9" example_tagger example_ctx]
  by (simp add: destination_frames get_tag_frames Let_def)

lemma tagger_edit_packet_spec_witness:
  "\<exists>out'. tagger_node_edit_packet (example_frame @ replicate 1476 9) (replicate 1522 0) 100 46 = Some (out', 50) \<and>
     load16 (out' ! 13) (out' ! 12) = 0x8100 \<and> load16 (out' ! 15) (out' ! 14) = 100 \<and>
     take 12 out' @ take 34 (drop 16 out') = example_frame"
proof -
  obtain out' k' where e: "tagger_node_edit_packet (example_frame @ replicate 1476 9) (replicate 1522 0) 100 46 = Some (out', k')"
    "k' = 46 + VLAN_HLEN"
    using tagger_edit_packet_spec [of "example_frame @ replicate 1476 9" "replicate 1522 0" 100 46]
    by (auto simp: tagger_node_edit_packet_def bind_eq_Some_conv)
  show ?thesis
    using tagger_edit_packet_spec [of "example_frame @ replicate 1476 9" "replicate 1522 0" 100 46] e
    by (auto simp: VLAN_HLEN_def)
qed

lemma tagger_process_run_witness:
  "\<exists>l w'. tagger_node_process (wired example_tagger) (replicate 1522 0, replicate 1522 0) (replicate 4 [])
      (world_of [example_frame, other_frame, example_frame]) = Inr (Blocked l w') \<and>
    packets w' 0 = [] \<and> packets w' 5 = [tag_frame 100 example_frame, tag_frame 100 example_frame]"
proof -
  let ?ps = "[example_frame, other_frame, example_frame]"
  have ps: "\<forall>p\<in>set ?ps. packet_ok p" "length ?ps \<le> Q_SIZE" using frames_ok by (auto simp: Q_SIZE_def)
  note w = world_of [OF ps]
  show ?thesis
    using tagger_process_run [OF wired_ready [OF example_tagger(3) ps], of example_ctx "(replicate 1522 0, replicate 1522 0)" 4]
      wired [OF example_tagger(3)] example_tagger(2) w
    by (auto simp: example_ctx_def [THEN arg_cong, of tc_size] map_filter_simps tagger_out_frames)
qed

end
