(* ===== verification/Ip_Modifier_Node.thy ===== *)
theory Ip_Modifier_Node
  imports Node_Core Config_Text
begin

text \<open>
  The IP modifier, nodes/src/ip_modifier_node.c: it replaces the destination address of IPv4
  frames and computes the header checksum again. The type field is a \<^verbatim>\<open>short\<close>, so it is
  read as a signed number here as well.
\<close>

record IpModifierContext =
  new_ip :: u32      \<comment> \<open>network byte order\<close>

definition ip_modifier_node_create :: "string option \<Rightarrow> string option \<Rightarrow> Mem
    \<Rightarrow> IpModifierContext Node option \<times> Mem" where
  "ip_modifier_node_create name new_ip_str m =
     (case (name, new_ip_str) of
        (Some name, Some new_ip_str) \<Rightarrow>
          (let (ok, m) = calloc m in
           if \<not> ok then (None, m)
           else
             (case inet_aton new_ip_str of
                None \<Rightarrow> (None, free m)
              | Some addr \<Rightarrow>
                  (let (node, m) = node_create (Some name) NODE_TYPE_IP_MODIFIER (Some Ip_modifier_process)
                         (Some \<lparr>new_ip = addr\<rparr>) m
                   in case node of
                        None \<Rightarrow> (None, free m)
                      | Some node \<Rightarrow> (Some node, m))))
      | _ \<Rightarrow> (None, m))"

text \<open>The value of a \<^verbatim>\<open>short\<close>.\<close>

definition short_value :: "u16 \<Rightarrow> int" where
  "short_value w = (if unat w < 2 ^ 15 then int (unat w) else int (unat w) - 2 ^ 16)"

definition type_field :: "byte list \<Rightarrow> nat \<Rightarrow> int" where
  "type_field buffer i = short_value (load16 (buffer ! (i + 1)) (buffer ! i))"

definition is_ip_packet :: "byte list \<Rightarrow> bool" where
  "is_ip_packet buffer =
     (let ty = type_field buffer 12;
          ty = (if ty = 0x8100 then type_field buffer 16 else ty)
      in ty = 0x0800)"

text \<open>The sum of the header words, and the loop that adds the carries back in.\<close>

definition header_sum :: "byte list \<Rightarrow> nat \<Rightarrow> nat \<Rightarrow> u32" where
  "header_sum buffer ip_offset ihl =
     fold (\<lambda>k checksum. checksum +
         ucast (load16 (buffer ! (ip_offset + 2 * k + 1)) (buffer ! (ip_offset + 2 * k))))
       [0..<(ihl + 1) div 2] 0"

function fold_carry :: "u32 \<Rightarrow> u32" where
  "fold_carry checksum =
     (if drop_bit 16 checksum \<noteq> 0 then fold_carry ((checksum AND 0xFFFF) + drop_bit 16 checksum)
      else checksum)"
  by auto

definition modify_destination_ip :: "byte list \<Rightarrow> u32 \<Rightarrow> byte list" where
  "modify_destination_ip buffer ip =
     (let ip_offset = (if type_field buffer 12 = 0x8100 then 18 else 14);
          dest_ip_offset = ip_offset + 16;
          bytes = bytes32 ip;
          buffer = buffer[dest_ip_offset := bytes ! 0, dest_ip_offset + 1 := bytes ! 1,
                          dest_ip_offset + 2 := bytes ! 2, dest_ip_offset + 3 := bytes ! 3];
          ihl = unat (buffer ! ip_offset AND 0x0F) * 4;
          buffer = buffer[ip_offset + 10 := 0];
          buffer = buffer[ip_offset + 11 := 0];
          checksum = fold_carry (header_sum buffer ip_offset ihl);
          checksum = NOT checksum;
          buffer = buffer[ip_offset + 10 := ucast (drop_bit 8 checksum AND 0xFF)];
          buffer = buffer[ip_offset + 11 := ucast (checksum AND 0xFF)]
      in buffer)"

definition ip_modifier_handle :: "'c Node \<Rightarrow> IpModifierContext \<Rightarrow> byte list \<Rightarrow> int
    \<Rightarrow> (IpModifierContext \<times> byte list) handled" where
  "ip_modifier_handle node ctx buffer packet_size =
     (if packet_size < 46 then Skip (ctx, buffer)
      else
        (let buffer = (if is_ip_packet buffer then modify_destination_ip buffer (new_ip ctx) else buffer) in
         Emit (ctx, buffer) [] buffer (of_int packet_size)))"

definition ip_modifier_body :: "'c Node \<Rightarrow> IpModifierContext \<times> byte list \<Rightarrow> int list \<Rightarrow> world
    \<Rightarrow> (IpModifierContext \<times> byte list) outcome" where
  "ip_modifier_body = consumer_body INITIATOR ip_modifier_handle"

definition ip_modifier_node_process :: "IpModifierContext Node \<Rightarrow> int list list \<Rightarrow> world
    \<Rightarrow> world + (IpModifierContext \<times> byte list) outcome" where
  "ip_modifier_node_process node es w =
     (case n_context node of
        None \<Rightarrow> Inl (log_to ERROR INITIATOR (node_name node @ '': Invalid context'') w)
      | Some ctx \<Rightarrow>
          (let w = log_to INFO INITIATOR (''IP Modifier node started: '' @ node_name node @ '' (new IP: ''
                     @ show_ip (ntohl (new_ip ctx)) @ '')'') w in
           Inr (finish (\<lambda>l. log_to INFO INITIATOR (''IP Modifier node stopped: '' @ node_name node))
             (run_loop (ip_modifier_body node) node es (ctx, replicate ETHERNET_FRAME_LENGTH 0) w))))"

subsection \<open>The checksum\<close>

lemma fold_carry_smaller:
  assumes "drop_bit 16 c \<noteq> (0 :: u32)"
  shows "unat ((c AND 0xFFFF) + drop_bit 16 c) = unat c mod 65536 + unat c div 65536"
    "unat c mod 65536 + unat c div 65536 < unat c"
proof -
  have m: "c AND 0xFFFF = take_bit 16 c"
    using take_bit_eq_mask [of 16 c] by (simp add: and.commute mask_eq_exp_minus_1)
  have c: "unat c < 2 ^ 32" using unsigned_less [of c] by simp
  have "unat (take_bit 16 c) = take_bit 16 (unat c)" by (rule unsigned_take_bit_eq)
  moreover have "unat (drop_bit 16 c) = drop_bit 16 (take_bit 32 (unat c))"
    using unsigned_drop_bit_eq [of 16 c, where 'a = nat] by simp
  moreover have "take_bit 32 (unat c) = unat c" using c by (simp add: take_bit_nat_eq_self)
  ultimately have parts: "unat (take_bit 16 c) = unat c mod 65536" "unat (drop_bit 16 c) = unat c div 65536"
    by (simp_all only: take_bit_eq_mod [of 16 "unat c"] drop_bit_eq_div [of 16 "unat c"]) simp_all
  have small: "unat c mod 65536 < 65536" "unat c div 65536 < 65536" using c by auto
  have "(unat c mod 65536 + unat c div 65536) mod 2 ^ 32 = unat c mod 65536 + unat c div 65536"
    using small by simp
  then show "unat ((c AND 0xFFFF) + drop_bit 16 c) = unat c mod 65536 + unat c div 65536"
    unfolding m by (simp add: unat_word_ariths parts)
  have "unat c div 65536 \<noteq> 0" using assms parts(2) by (metis unat_0_iff unsigned_0 unsigned_eq_0_iff)
  moreover have "unat c = unat c mod 65536 + 65536 * (unat c div 65536)" by simp
  ultimately show "unat c mod 65536 + unat c div 65536 < unat c" by linarith
qed

termination fold_carry
proof (relation "measure unat")
  fix c :: u32
  assume d: "drop_bit 16 c \<noteq> 0"
  show "((c AND 0xFFFF) + drop_bit 16 c, c) \<in> measure unat"
    using fold_carry_smaller [OF d] by (simp only: in_measure)
qed simp

declare fold_carry.simps [simp del]

lemma drop_bit_unat: "unat (drop_bit 16 (c :: u32)) = unat c div 65536"
proof -
  have c: "unat c < 2 ^ 32" using unsigned_less [of c] by simp
  have "unat (drop_bit 16 c) = drop_bit 16 (take_bit 32 (unat c))"
    using unsigned_drop_bit_eq [of 16 c, where 'a = nat] by simp
  moreover have "take_bit 32 (unat c) = unat c" using c by (simp add: take_bit_nat_eq_self)
  ultimately show ?thesis by (simp only: drop_bit_eq_div [of 16 "unat c"]) simp
qed

lemma fold_carry_value:
  "unat (fold_carry c) < 65536 \<and> unat (fold_carry c) mod 65535 = unat c mod 65535 \<and> (fold_carry c = 0 \<longleftrightarrow> c = 0)"
proof (induction c rule: fold_carry.induct)
  case (1 c)
  let ?c = "(c AND 0xFFFF) + drop_bit 16 c"
  show ?case
  proof (cases "drop_bit 16 c = 0")
    case True
    have "unat c < 65536"
      using drop_bit_unat [of c] unfolding True by (simp add: div_eq_0_iff)
    then show ?thesis using True by (subst (1 2 3) fold_carry.simps) simp
  next
    case False
    note f = fold_carry_smaller [OF False]
    have "unat c = unat c mod 65536 + (unat c div 65536 + 65535 * (unat c div 65536))" by simp
    then have "unat c mod 65535 = unat ?c mod 65535"
      unfolding f(1) by (metis add.assoc mod_mult_self2)
    moreover have "?c \<noteq> 0"
      using f arg_cong [of ?c 0 unat] div_greater_zero_iff [of "unat c" 65536] by (auto simp: )
    moreover have "c \<noteq> 0" using False by auto
    ultimately show ?thesis using 1 [OF False] False by (subst (1 2 3) fold_carry.simps) simp
  qed
qed

lemma unat_fold_sum:
  "unat (a :: u32) + 65535 * length ks < 2 ^ 32 \<Longrightarrow>
     unat (fold (\<lambda>k c. c + ucast (f k :: u16)) ks a) = unat a + (\<Sum>k\<leftarrow>ks. unat (f k))"
proof (induction ks arbitrary: a)
  case Nil
  then show ?case by simp
next
  case (Cons k ks)
  have f: "unat (f k) < 65536" using unsigned_less [of "f k"] by simp
  then have "unat (ucast (f k) :: u32) = unat (f k)" by (simp add: unsigned_ucast_eq take_bit_nat_eq_self)
  then have "unat (a + ucast (f k)) = unat a + unat (f k)"
    using Cons.prems f by (simp add: unat_word_ariths)
  then show ?case using Cons f by simp
qed

lemma header_sum_unat:
  "ihl \<le> 60 \<Longrightarrow> unat (header_sum b off ihl) =
     (\<Sum>k\<leftarrow>[0..<(ihl + 1) div 2]. unat (load16 (b ! (off + 2 * k + 1)) (b ! (off + 2 * k))))"
  unfolding header_sum_def by (subst unat_fold_sum) auto

lemma short_value_eq: "short_value w = int m \<longleftrightarrow> unat w = m \<and> m < 32768"
proof -
  obtain n where n: "unat w = n" "n < 65536" using unsigned_less [of w, where 'a = nat] by simp
  show ?thesis unfolding short_value_def n(1) using n(2) by auto
qed

lemma type_field_not_vlan: "type_field b i \<noteq> 0x8100"
  using short_value_eq [of "load16 (b ! (i + 1)) (b ! i)" "0x8100"] by (simp add: type_field_def)

lemma is_ip_packet_iff: "is_ip_packet b \<longleftrightarrow> b ! 12 = 0x08 \<and> b ! 13 = 0x00"
proof -
  have "unat (load16 (b ! 13) (b ! 12)) = 0x0800 \<longleftrightarrow> load16 (b ! 13) (b ! 12) = load16 0x00 0x08"
    unfolding word_unat_eq_iff by (simp add: load16_def)
  then have "type_field b 12 = 0x0800 \<longleftrightarrow> b ! 12 = 0x08 \<and> b ! 13 = 0x00"
    using short_value_eq [of "load16 (b ! 13) (b ! 12)" "0x0800"] by (auto simp: type_field_def)
  then show ?thesis using type_field_not_vlan by (simp add: is_ip_packet_def Let_def)
qed

lemma byte_mask: "ucast (x AND 0xFF) = (ucast (x :: u32) :: byte)"
proof -
  have "x AND 0xFF = take_bit 8 x" by (simp add: take_bit_eq_mask mask_eq_exp_minus_1)
  then show ?thesis by (auto intro!: bit_word_eqI simp: bit_simps)
qed

lemma checksum_bytes: "load16 (ucast (x AND 0xFF)) (ucast (drop_bit 8 x AND 0xFF)) = (ucast (x :: u32) :: u16)"
proof -
  have "ucast (x AND 0xFF) = (ucast x :: byte)" "ucast (drop_bit 8 x AND 0xFF) = (ucast (drop_bit 8 x) :: byte)"
    using byte_mask [of x] byte_mask [of "drop_bit 8 x"] by simp_all
  then show ?thesis
    unfolding load16_def by (auto intro!: bit_word_eqI simp: bit_simps not_less)
qed

lemma unat_complement: "unat c < 65536 \<Longrightarrow> unat (ucast (NOT (c :: u32)) :: u16) = 65535 - unat c"
proof -
  assume c: "unat c < 65536"
  have "ucast (NOT c) = NOT (ucast c :: u16)" by (rule bit_word_eqI) (simp add: bit_simps)
  also have "\<dots> = - 1 - ucast c" by (simp add: not_eq_complement)
  finally have "unat (ucast (NOT c) :: u16) = unat (- 1 :: u16) - unat (ucast c :: u16)"
    by (simp add: unat_sub)
  moreover have "unat (ucast c :: u16) = unat c" using c by (simp add: unsigned_ucast_eq take_bit_nat_eq_self)
  moreover have "unat (- 1 :: u16) = 65535" by (simp add: unsigned_minus_1_eq_mask mask_eq_exp_minus_1)
  ultimately show ?thesis by simp
qed

subsection \<open>What the modification does to a frame\<close>

definition header_length :: "byte list \<Rightarrow> nat" where
  "header_length b = unat (b ! 14 AND 0x0F) * 4"

text \<open>The frame before the checksum is written.\<close>

definition address_written :: "byte list \<Rightarrow> u32 \<Rightarrow> byte list" where
  "address_written b ip = b[30 := bytes32 ip ! 0, 31 := bytes32 ip ! 1, 32 := bytes32 ip ! 2, 33 := bytes32 ip ! 3,
     24 := 0, 25 := 0]"

lemma modify_steps:
  fixes ip :: u32
  assumes "34 \<le> length b"
  defines "c \<equiv> NOT (fold_carry (header_sum (address_written b ip) 14 (header_length b)))"
  shows "modify_destination_ip b ip =
    (address_written b ip)[24 := ucast (drop_bit 8 c AND 0xFF), 25 := ucast (c AND 0xFF)]"
  using type_field_not_vlan [of b 12]
  by (simp add: modify_destination_ip_def c_def Let_def address_written_def header_length_def)

lemma header_length_le: "header_length b \<le> 60"
proof -
  have "unat (b ! 14 AND 0x0F) \<le> 15"
    using word_and_le1 [of "b ! 14" "0x0F"] by (simp add: word_le_nat_alt)
  then show ?thesis by (simp add: header_length_def)
qed

lemma header_words: "(header_length b + 1) div 2 = 2 * unat (b ! 14 AND 0x0F)"
  by (simp add: header_length_def)

lemma sum_words_update:
  assumes "5 < n" "f 5 = (0 :: nat)" "\<And>k. k \<noteq> 5 \<Longrightarrow> g k = f k"
  shows "(\<Sum>k\<leftarrow>[0..<n]. g k) = (\<Sum>k\<leftarrow>[0..<n]. f k) + g 5"
proof -
  have 5: "(5 :: nat) \<in> {0..<n}" using assms(1) by simp
  have "sum g {0..<n} = g 5 + sum g ({0..<n} - {5})" "sum f {0..<n} = f 5 + sum f ({0..<n} - {5})"
    using sum.remove [OF _ 5, of g] sum.remove [OF _ 5, of f] by simp_all
  moreover have "sum g ({0..<n} - {5}) = sum f ({0..<n} - {5})" by (rule sum.cong) (use assms(3) in auto)
  ultimately show ?thesis using assms(2) by (simp add: interv_sum_list_conv_sum_set_nat)
qed

lemma carry_complement:
  assumes "s < 65536" "s mod 65535 = A mod (65535 :: nat)"
  shows "(A + (65535 - s)) mod 65535 = 0"
proof (cases "s = 65535")
  case False
  then have "A = 65535 * (A div 65535) + s" using assms by simp
  then obtain q where "A = 65535 * q + s" by blast
  then have "A + (65535 - s) = 65535 * (q + 1)" using assms(1) False by simp
  then show ?thesis by (simp only: mod_mult_self1_is_0)
qed (use assms in simp)

text \<open>
  C23: After the modification the header checksum is valid: the ones' complement sum of the words
  of the IPv4 header, checksum included, is 0xFFFF, the test of RFC 1071, whatever the header held
  before, if only the length field of the header covers the checksum (IHL at least 3).
\<close>

theorem ip_modifier_checksum_valid:
  assumes "34 \<le> length b" "12 \<le> header_length b"
  shows "fold_carry (header_sum (modify_destination_ip b ip) 14 (header_length (modify_destination_ip b ip))) = 0xFFFF"
proof -
  let ?b = "address_written b ip" and ?n = "2 * unat (b ! 14 AND 0x0F)"
  define s where "s = fold_carry (header_sum ?b 14 (header_length b))"
  define m where "m = modify_destination_ip b ip"
  have m: "m = ?b[24 := ucast (drop_bit 8 (NOT s) AND 0xFF), 25 := ucast (NOT s AND 0xFF)]"
    using modify_steps [OF assms(1)] by (simp add: m_def s_def)
  have len: "length ?b = length b" by (simp add: address_written_def)
  have hl: "header_length m = header_length b"
    by (simp add: m header_length_def address_written_def)
  define f where "f b k = unat (load16 (b ! (14 + 2 * k + 1)) (b ! (14 + 2 * k)))" for b :: "byte list" and k
  have f5: "f ?b 5 = 0" using assms(1) by (simp add: f_def address_written_def load16_def)
  have fk: "f m k = f ?b k" if "k \<noteq> 5" for k
    using that by (simp add: f_def m nth_list_update)
  have "f m 5 = unat (ucast (NOT s) :: u16)"
    using assms(1) len checksum_bytes [of "NOT s"] by (simp add: f_def m)
  then have m5: "f m 5 = 65535 - unat s" using unat_complement fold_carry_value s_def by simp
  have S: "unat (header_sum ?b 14 (header_length b)) = (\<Sum>k\<leftarrow>[0..<?n]. f ?b k)"
    "unat (header_sum m 14 (header_length b)) = (\<Sum>k\<leftarrow>[0..<?n]. f m k)"
    unfolding header_sum_unat [OF header_length_le] header_words f_def by (rule refl)+
  have "5 < ?n" using assms(2) by (simp add: header_length_def)
  then have sum: "unat (header_sum m 14 (header_length b)) = unat (header_sum ?b 14 (header_length b)) + (65535 - unat s)"
    unfolding S m5 [symmetric] by (rule sum_words_update) (use f5 fk in auto)
  moreover note u = fold_carry_value [of "header_sum ?b 14 (header_length b)", folded s_def]
  moreover note v = fold_carry_value [of "header_sum m 14 (header_length b)"]
  ultimately have z: "unat (fold_carry (header_sum m 14 (header_length b))) mod 65535 = 0"
    using carry_complement by metis
  have "unat (header_sum m 14 (header_length b)) \<noteq> 0"
  proof
    assume "unat (header_sum m 14 (header_length b)) = 0"
    then have "unat (header_sum ?b 14 (header_length b)) = 0" "65535 - unat s = 0" using sum by simp_all
    then show False using u by (simp add: unat_eq_0)
  qed
  then have "fold_carry (header_sum m 14 (header_length b)) \<noteq> 0" using v by auto
  with z have "unat (fold_carry (header_sum m 14 (header_length b))) = 65535"
    using v by (cases "unat (fold_carry (header_sum m 14 (header_length b))) < 65535") (auto simp: unat_eq_0)
  then show ?thesis
    unfolding m_def [symmetric] hl by (simp add: word_unat_eq_iff)
qed

text \<open>
  Nothing but the destination address, which becomes the new one, and the two bytes of the
  checksum changes in the frame. Checksums of TCP and UDP, which cover the address, do not follow.
\<close>

theorem ip_modifier_changes_only_address:
  assumes "34 \<le> length b"
  shows "length (modify_destination_ip b ip) = length b \<and>
    take 4 (drop 30 (modify_destination_ip b ip)) = bytes32 ip \<and>
    (\<forall>i. i \<notin> {24, 25, 30, 31, 32, 33} \<longrightarrow> modify_destination_ip b ip ! i = b ! i)"
proof -
  have "take 4 (drop 30 l) = [l ! 30, l ! 31, l ! 32, l ! 33]" if "34 \<le> length l" for l :: "byte list"
    using that by (simp add: take_Suc_conv_app_nth numeral_eq_Suc hd_drop_conv_nth)
  moreover have "bytes32 ip = [bytes32 ip ! 0, bytes32 ip ! 1, bytes32 ip ! 2, bytes32 ip ! 3]"
    by (simp add: bytes32_def)
  ultimately show ?thesis
    using assms by (simp add: modify_steps address_written_def nth_list_update)
qed

text \<open>
  C40: The branch for tagged frames is dead. A \<^verbatim>\<open>short\<close> never equals 0x8100, so a frame
  counts as an IP packet exactly when its EtherType is 0x0800, and a frame with an 802.1Q tag
  passes through unchanged.
\<close>

theorem ip_modifier_ignores_vlan:
  assumes "46 \<le> packet_size"
  shows "(is_ip_packet buffer \<longleftrightarrow> buffer ! 12 = 0x08 \<and> buffer ! 13 = 0x00) \<and>
    (load16 (buffer ! 13) (buffer ! 12) = 0x8100 \<longrightarrow>
       ip_modifier_handle node ctx buffer packet_size = Emit (ctx, buffer) [] buffer (of_int packet_size))"
proof -
  have "(0x8100 :: u16) = load16 0x00 0x81" by (simp add: load16_def)
  then have "load16 (buffer ! 13) (buffer ! 12) = 0x8100 \<longrightarrow> buffer ! 12 = 0x81"
    by (metis load16_inject)
  then show ?thesis
    using assms by (auto simp: is_ip_packet_iff ip_modifier_handle_def)
qed

subsection \<open>The thread\<close>

definition ip_modifier_out :: "IpModifierContext \<Rightarrow> byte list \<Rightarrow> byte list option" where
  "ip_modifier_out ctx p =
     (if length p < 46 then None
      else Some (if is_ip_packet p then modify_destination_ip p (new_ip ctx) else p))"

text \<open>The header lies inside the packet; otherwise the checksum covers old bytes of the buffer.\<close>

definition header_inside :: "byte list \<Rightarrow> bool" where
  "header_inside p \<longleftrightarrow> 46 \<le> length p \<and> is_ip_packet p \<longrightarrow> 14 + header_length p \<le> length p"

lemma header_sum_append:
  assumes "14 + h \<le> length p" "even h"
  shows "header_sum (p @ rest) 14 h = header_sum p 14 h"
  unfolding header_sum_def
  by (rule fold_cong) (use assms in \<open>auto simp: nth_append elim!: evenE\<close>)

lemma modify_append:
  assumes "34 \<le> length p" "14 + header_length p \<le> length p"
  shows "modify_destination_ip (p @ rest) ip = modify_destination_ip p ip @ rest"
proof -
  have h: "header_length (p @ rest) = header_length p"
    using assms(1) by (simp add: header_length_def nth_append)
  have a: "address_written (p @ rest) ip = address_written p ip @ rest"
    using assms(1) by (simp add: address_written_def list_update_append)
  have "header_sum (address_written p ip @ rest) 14 (header_length p) =
      header_sum (address_written p ip) 14 (header_length p)"
    by (rule header_sum_append) (use assms in \<open>simp_all add: address_written_def header_length_def\<close>)
  then show ?thesis
    using assms(1) by (simp add: modify_steps h a Let_def list_update_append address_written_def)
qed

lemma ip_modifier_handle_out:
  assumes "header_inside p" "packet_ok p"
  shows "ip_modifier_handle node ctx (p @ rest) (int (length p)) =
    (case ip_modifier_out ctx p of
       None \<Rightarrow> Skip (ctx, p @ rest)
     | Some p' \<Rightarrow> Emit (ctx, p' @ rest) [] (p' @ rest) (of_nat (length p')))"
proof (cases "length p < 46")
  case True
  then show ?thesis by (simp add: ip_modifier_handle_def ip_modifier_out_def)
next
  case False
  have ip: "is_ip_packet (p @ rest) = is_ip_packet p"
    using False by (simp add: is_ip_packet_iff nth_append)
  have "length (modify_destination_ip p ip) = length p" for ip
    using False by (simp add: modify_steps address_written_def)
  then show ?thesis
    using False assms(1) modify_append [of p rest "new_ip ctx"]
    by (auto simp: ip_modifier_handle_def ip_modifier_out_def ip header_inside_def Let_def)
qed

interpretation ip_modifier: packet_handler ip_modifier_handle "\<lambda>x. True" "\<lambda>x. x"
  "\<lambda>ctx. header_inside" ip_modifier_out "\<lambda>ctx p. ctx"
proof unfold_locales
  fix x :: IpModifierContext and p rest p' :: "byte list" and node
  assume h: "header_inside p" "packet_ok p" "length (p @ rest) = MAX_PKG_SIZE"
  note e = ip_modifier_handle_out [OF h(1,2), of node x rest]
  show "\<exists>x' buf. ip_modifier_handle node x (p @ rest) (int (length p)) = Skip (x', buf) \<and>
      True \<and> x' = x \<and> length buf = MAX_PKG_SIZE" if "ip_modifier_out x p = None"
    using e h(3) that by (intro exI [of _ x] exI [of _ "p @ rest"]) simp
  show "\<exists>x' buf msgs tail. ip_modifier_handle node x (p @ rest) (int (length p)) =
        Emit (x', buf) msgs (p' @ tail) (of_nat (length p')) \<and>
      True \<and> x' = x \<and> length buf = MAX_PKG_SIZE" if o: "ip_modifier_out x p = Some p'"
  proof -
    have "length p' = length p"
      using o by (auto simp: ip_modifier_out_def modify_steps address_written_def split: if_splits)
    then show ?thesis using e h(3) o
      by (intro exI [of _ x] exI [of _ "p' @ rest"] exI [of _ "[]"] exI [of _ rest]) simp
  qed
next
  fix ctx p p'
  assume "header_inside p" "packet_ok p" "ip_modifier_out ctx p = Some p'"
  then show "packet_ok p'"
    by (auto simp: ip_modifier_out_def packet_ok_def modify_steps address_written_def split: if_splits)
qed

text \<open>
  The thread of the IP modifier run on its own, on packets whose IPv4 header lies inside them:
  packets under 46 bytes are dropped, all others are forwarded to every output in their order,
  IPv4 packets with the new destination.
\<close>

theorem ip_modifier_process_run:
  assumes "ready node q w" "n_context node = Some ctx"
    and "\<forall>p\<in>set (packets w q). header_inside p" "length (packets w q) < n"
  shows "\<exists>l w'. ip_modifier_node_process node (replicate n []) w = Inr (Blocked l w') \<and> world_inv w' \<and>
    packets w' q = [] \<and>
    (\<forall>t. t \<noteq> q \<longrightarrow> packets w' t = packets w t @
       (if t \<in> set (targets node) then List.map_filter (ip_modifier_out ctx) (packets w q) else []))"
proof -
  let ?w = "log_to INFO INITIATOR (''IP Modifier node started: '' @ node_name node @ '' (new IP: ''
                     @ show_ip (ntohl (new_ip ctx)) @ '')'') w"
  obtain x' buf' w' where r: "run_loop (consumer_body INITIATOR ip_modifier_handle node) node (replicate n [])
        (ctx, replicate ETHERNET_FRAME_LENGTH 0) ?w = Blocked (x', buf') w'" "world_inv w'" "packets w' q = []"
      "\<forall>t. t \<noteq> q \<longrightarrow> packets w' t = packets w t @
         (if t \<in> set (targets node) then outputs ip_modifier_out (\<lambda>ctx p. ctx) ctx (packets w q) else [])"
    using ip_modifier.run_ready [where node = node and q = q and w = ?w and x = ctx and n = n and se = INITIATOR
      and buf = "replicate ETHERNET_FRAME_LENGTH 0"] assms
    by (auto simp: MAX_PKG_SIZE_def ETHERNET_FRAME_LENGTH_def)
  then show ?thesis
    using assms(2) by (auto simp: ip_modifier_node_process_def ip_modifier_body_def Let_def outputs_const)
qed


subsection \<open>The properties at work\<close>

text \<open>A frame to 10.0.0.5 with a header of 20 bytes, and the same frame with a tag.\<close>

definition ip_frame :: "byte list" where
  "ip_frame = replicate 12 0xAA @ [0x08, 0x00, 0x45] @ replicate 15 1 @ [10, 0, 0, 5] @ replicate 12 7"

definition vlan_frame :: "byte list" where
  "vlan_frame = replicate 12 0xAA @ [0x81, 0x00, 0x00, 0x64] @ drop 12 ip_frame"

lemma ip_frame [simp]: "length ip_frame = 46" "ip_frame ! 12 = 0x08" "ip_frame ! 13 = 0" "ip_frame ! 14 = 0x45"
  by (simp_all add: ip_frame_def nth_append)

lemma vlan_frame [simp]: "vlan_frame \<noteq> []" "length vlan_frame = 50" "vlan_frame ! 12 = 0x81" "vlan_frame ! 13 = 0"
  by (simp_all add: vlan_frame_def nth_append)

lemma header_length_ip_frame: "header_length ip_frame = 20"
  by (simp add: header_length_def)

definition example_modifier :: "IpModifierContext Node" where
  "example_modifier = the (fst (ip_modifier_node_create (Some ''Mod'') (Some (show_ip 0x0A000001)) \<lparr>m_results = [], m_live = 0\<rparr>))"

lemma example_modifier:
  "n_context example_modifier = Some \<lparr>new_ip = htonl 0x0A000001\<rparr>" "fresh example_modifier"
  by (simp_all add: example_modifier_def ip_modifier_node_create_def inet_aton_show_ip node_create_def calloc_def
      fresh_def MAX_NODE_OUTPUTS_def)

lemma ip_modifier_checksum_valid_witness:
  "fold_carry (header_sum (modify_destination_ip ip_frame 0x0100000A) 14
     (header_length (modify_destination_ip ip_frame 0x0100000A))) = 0xFFFF"
  using ip_modifier_checksum_valid [of ip_frame "0x0100000A"] by (simp add: header_length_ip_frame)

lemma ip_modifier_changes_only_address_witness:
  "take 4 (drop 30 (modify_destination_ip ip_frame 0x0100000A)) = [0x0A, 0, 0, 1] \<and>
     modify_destination_ip ip_frame 0x0100000A ! 34 = 7"
proof -
  have "bytes32 0x0100000A = [0x0A, 0, 0, 1]" by (simp add: bytes32_def)
  then show ?thesis
    using ip_modifier_changes_only_address [of ip_frame "0x0100000A"] by (simp add: ip_frame_def nth_append)
qed

lemma ip_modifier_ignores_vlan_witness:
  "ip_modifier_handle example_modifier \<lparr>new_ip = 0x0100000A\<rparr> vlan_frame 50 =
     Emit (\<lparr>new_ip = 0x0100000A\<rparr>, vlan_frame) [] vlan_frame 50"
  using ip_modifier_ignores_vlan [of 50 vlan_frame example_modifier] by (simp add: load16_def)

lemma ip_modifier_process_run_witness:
  "\<exists>l w'. ip_modifier_node_process (wired example_modifier) (replicate 4 []) (world_of [vlan_frame, [1, 2], vlan_frame]) =
      Inr (Blocked l w') \<and> packets w' 0 = [] \<and> packets w' 5 = [vlan_frame, vlan_frame]"
proof -
  let ?ps = "[vlan_frame, [1, 2], vlan_frame]"
  have ps: "\<forall>p\<in>set ?ps. packet_ok p" "length ?ps \<le> Q_SIZE"
    by (auto simp: Q_SIZE_def packet_ok_def MAX_PKG_SIZE_def)
  have g: "\<forall>p\<in>set ?ps. header_inside p" by (auto simp: header_inside_def is_ip_packet_iff)
  show ?thesis
    using ip_modifier_process_run [OF wired_ready [OF example_modifier(2) ps], of _ 4]
      wired [OF example_modifier(2)] example_modifier(1) g world_of [OF ps]
    by (auto simp: map_filter_simps ip_modifier_out_def is_ip_packet_iff)
qed

end
