(* ===== verification/Forwarding_Nodes.thy ===== *)
theory Forwarding_Nodes
  imports Node_Core
begin

text \<open>
  The two nodes that forward every packet as it is: the collector (nodes/src/collector_node.c),
  which merges several sources, and the packet counter (nodes/src/packet_counter_node.c), which
  keeps statistics. The counters of the latter are \<^verbatim>\<open>unsigned long\<close>, 64 bits on the
  platform of the program, and wrap around.
\<close>

subsection \<open>The collector\<close>

definition collector_node_create :: "string option \<Rightarrow> Mem \<Rightarrow> unit Node option \<times> Mem" where
  "collector_node_create name m =
     (case name of
        None \<Rightarrow> (None, m)
      | Some name \<Rightarrow>
          (let (node, m) = node_create (Some name) NODE_TYPE_CUSTOM (Some Collector_process) None m
           in case node of None \<Rightarrow> (None, m) | Some node \<Rightarrow> (Some node, m)))"

definition collector_handle :: "'c Node \<Rightarrow> unit \<Rightarrow> byte list \<Rightarrow> int \<Rightarrow> (unit \<times> byte list) handled" where
  "collector_handle node x buffer packet_size = Emit (x, buffer) [] buffer (of_int packet_size)"

definition collector_body :: "'c Node \<Rightarrow> unit \<times> byte list \<Rightarrow> int list \<Rightarrow> world \<Rightarrow> (unit \<times> byte list) outcome" where
  "collector_body = consumer_body INITIATOR collector_handle"

definition collector_node_process :: "'c Node \<Rightarrow> int list list \<Rightarrow> world \<Rightarrow> (unit \<times> byte list) outcome" where
  "collector_node_process node es w =
     (let w = log_to INFO INITIATOR (''Collector node started: '' @ node_name node) w in
      finish (\<lambda>l. log_to INFO INITIATOR (''Collector node stopped: '' @ node_name node))
        (run_loop (collector_body node) node es ((), replicate ETHERNET_FRAME_LENGTH 0) w))"

subsection \<open>The packet counter\<close>

record PacketCounterContext =
  total_packets :: u64
  total_bytes :: u64
  vlan_packets :: u64
  non_vlan_packets :: u64
  pc_log_interval :: int

definition packet_counter_node_create :: "string option \<Rightarrow> int \<Rightarrow> Mem
    \<Rightarrow> PacketCounterContext Node option \<times> Mem" where
  "packet_counter_node_create name log_interval m =
     (if name = None \<or> log_interval \<le> 0 then (None, m)
      else
        (let (ok, m) = calloc m in
         if \<not> ok then (None, m)
         else
           (let ctx = \<lparr>total_packets = 0, total_bytes = 0, vlan_packets = 0, non_vlan_packets = 0,
                       pc_log_interval = log_interval\<rparr>;
                (node, m) = node_create name NODE_TYPE_CUSTOM (Some Packet_counter_process) (Some ctx) m
            in case node of
                 None \<Rightarrow> (None, free m)
               | Some node \<Rightarrow> (Some node, m))))"

definition is_vlan_packet :: "byte list \<Rightarrow> int \<Rightarrow> bool" where
  "is_vlan_packet buffer sz =
     (if sz < 16 then False else load16 (buffer ! 13) (buffer ! 12) = 0x8100)"

text \<open>Counting one packet; an unsigned increment.\<close>

definition count_packet :: "byte list \<Rightarrow> int \<Rightarrow> PacketCounterContext \<Rightarrow> PacketCounterContext" where
  "count_packet buffer packet_size ctx =
     (let ctx = ctx\<lparr>total_packets := total_packets ctx + 1\<rparr>;
          ctx = ctx\<lparr>total_bytes := total_bytes ctx + of_int packet_size\<rparr>
      in if is_vlan_packet buffer packet_size
         then ctx\<lparr>vlan_packets := vlan_packets ctx + 1\<rparr>
         else ctx\<lparr>non_vlan_packets := non_vlan_packets ctx + 1\<rparr>)"

definition lu :: "u64 \<Rightarrow> string" where
  "lu n = dec (unat n)"

definition stats_message :: "string \<Rightarrow> PacketCounterContext \<Rightarrow> string" where
  "stats_message name ctx =
     name @ '': Total='' @ lu (total_packets ctx) @ '' pkts ('' @ lu (total_bytes ctx) @ '' bytes), VLAN=''
     @ lu (vlan_packets ctx) @ '', Non-VLAN='' @ lu (non_vlan_packets ctx) @ '', Avg size=''
     @ lu (if total_packets ctx > 0 then total_bytes ctx div total_packets ctx else 0) @ '' bytes''"

text \<open>
  The remainder is computed in \<^verbatim>\<open>unsigned long\<close>, the type the interval is converted to;
  by 0 it would have no value.
\<close>

definition packet_counter_handle :: "'c Node \<Rightarrow> PacketCounterContext \<Rightarrow> byte list \<Rightarrow> int
    \<Rightarrow> (PacketCounterContext \<times> byte list) handled" where
  "packet_counter_handle node ctx buffer packet_size =
     (let ctx = count_packet buffer packet_size ctx in
      if (of_int (pc_log_interval ctx) :: u64) = 0 then Handle_fault
      else
        (let msgs = (if total_packets ctx mod of_int (pc_log_interval ctx) = 0
                     then [(INFO, INITIATOR, stats_message (node_name node) ctx)] else [])
         in Emit (ctx, buffer) msgs buffer (of_int packet_size)))"

definition packet_counter_body :: "'c Node \<Rightarrow> PacketCounterContext \<times> byte list \<Rightarrow> int list \<Rightarrow> world
    \<Rightarrow> (PacketCounterContext \<times> byte list) outcome" where
  "packet_counter_body = consumer_body INITIATOR packet_counter_handle"

definition final_message :: "string \<Rightarrow> PacketCounterContext \<Rightarrow> string" where
  "final_message name ctx =
     name @ '': FINAL STATS - Total='' @ lu (total_packets ctx) @ '' pkts ('' @ lu (total_bytes ctx)
     @ '' bytes), VLAN='' @ lu (vlan_packets ctx) @ '', Non-VLAN='' @ lu (non_vlan_packets ctx)"

definition packet_counter_node_process :: "PacketCounterContext Node \<Rightarrow> int list list \<Rightarrow> world
    \<Rightarrow> world + (PacketCounterContext \<times> byte list) outcome" where
  "packet_counter_node_process node es w =
     (case n_context node of
        None \<Rightarrow> Inl (log_to ERROR INITIATOR (node_name node @ '': Invalid context'') w)
      | Some ctx \<Rightarrow>
          (let w = log_to INFO INITIATOR (''PacketCounter node started: '' @ node_name node @ '' (log every ''
                     @ show_int (pc_log_interval ctx) @ '' packets)'') w in
           Inr (finish (\<lambda>l w. log_to INFO INITIATOR (''PacketCounter node stopped: '' @ node_name node)
                   (log_to INFO INITIATOR (final_message (node_name node) (fst l)) w))
             (run_loop (packet_counter_body node) node es (ctx, replicate ETHERNET_FRAME_LENGTH 0) w))))"

subsection \<open>Forwarding\<close>

lemma of_int_length: "(of_int (int n) :: 'a::len word) = of_nat n"
  by simp

interpretation collector: packet_handler collector_handle "\<lambda>x. True" "\<lambda>x. x"
  "\<lambda>s p. True" "\<lambda>s p. Some p" "\<lambda>s p. s"
proof unfold_locales
  fix x :: unit and p rest p' :: "byte list" and node
  assume h: "length (p @ rest) = MAX_PKG_SIZE"
  show "\<exists>x' buf msgs tail. collector_handle node x (p @ rest) (int (length p)) =
        Emit (x', buf) msgs (p' @ tail) (of_nat (length p')) \<and>
      True \<and> x' = x \<and> length buf = MAX_PKG_SIZE" if "Some p = Some p'"
    using h that by (auto simp: collector_handle_def)
qed auto

text \<open>A frame is tagged when it has 16 bytes and the TPID at offset 12.\<close>

definition tagged :: "byte list \<Rightarrow> bool" where
  "tagged p \<longleftrightarrow> 16 \<le> length p \<and> take 2 (drop 12 p) = [0x81, 0x00]"

lemma take_2_drop_12: "14 \<le> length p \<Longrightarrow> take 2 (drop 12 p) = [p ! 12, p ! 13]"
  by (simp add: take_Suc_conv_app_nth numeral_2_eq_2 hd_drop_conv_nth)

lemma is_vlan_tagged: "is_vlan_packet (p @ rest) (int (length p)) = tagged p"
proof -
  have "load16 b a = 0x8100 \<longleftrightarrow> a = 0x81 \<and> b = 0x00" for a b
  proof -
    have "(0x8100 :: u16) = load16 0x00 0x81" by (simp add: load16_def)
    then show ?thesis by (metis load16_inject)
  qed
  then show ?thesis
    by (auto simp: is_vlan_packet_def tagged_def nth_append take_2_drop_12)
qed

definition count :: "PacketCounterContext \<Rightarrow> byte list \<Rightarrow> PacketCounterContext" where
  "count ctx p = count_packet p (int (length p)) ctx"

lemma count_packet_append: "count_packet (p @ rest) (int (length p)) ctx = count ctx p"
  using is_vlan_tagged [of p rest] is_vlan_tagged [of p "[]"] by (simp add: count_def count_packet_def Let_def)

lemma count_simps:
  "total_packets (count ctx p) = total_packets ctx + 1"
  "total_bytes (count ctx p) = total_bytes ctx + of_nat (length p)"
  "vlan_packets (count ctx p) = vlan_packets ctx + (if tagged p then 1 else 0)"
  "non_vlan_packets (count ctx p) = non_vlan_packets ctx + (if tagged p then 0 else 1)"
  "pc_log_interval (count ctx p) = pc_log_interval ctx"
  using is_vlan_tagged [of p "[]"] by (simp_all add: count_def count_packet_def Let_def)

lemma count_all:
  "total_packets (foldl count ctx ps) = total_packets ctx + of_nat (length ps)"
  "total_bytes (foldl count ctx ps) = total_bytes ctx + of_nat (sum_list (map length ps))"
  "vlan_packets (foldl count ctx ps) = vlan_packets ctx + of_nat (length (filter tagged ps))"
  "non_vlan_packets (foldl count ctx ps) = non_vlan_packets ctx + of_nat (length (filter (\<lambda>p. \<not> tagged p) ps))"
  by (induction ps arbitrary: ctx) (simp_all add: count_simps)

interpretation packet_counter: packet_handler packet_counter_handle "\<lambda>x. True" "\<lambda>x. x"
  "\<lambda>ctx p. (of_int (pc_log_interval ctx) :: u64) \<noteq> 0" "\<lambda>ctx p. Some p" count
proof unfold_locales
  fix x :: PacketCounterContext and p rest p' :: "byte list" and node
  assume h: "(of_int (pc_log_interval x) :: u64) \<noteq> 0" "length (p @ rest) = MAX_PKG_SIZE"
  show "\<exists>x' buf msgs tail. packet_counter_handle node x (p @ rest) (int (length p)) =
        Emit (x', buf) msgs (p' @ tail) (of_nat (length p')) \<and>
      True \<and> x' = count x p \<and> length buf = MAX_PKG_SIZE" if "Some p = Some p'"
    using h that by (auto simp: packet_counter_handle_def count_packet_append count_simps Let_def)
qed (auto simp: count_simps)

subsection \<open>Properties\<close>

text \<open>
  The collector thread run on its own empties its input queue and delivers every packet,
  unchanged and in order, to each of its outputs.
\<close>

theorem collector_process_run:
  assumes "ready node q w" "length (packets w q) < n"
  shows "\<exists>l w'. collector_node_process node (replicate n []) w = Blocked l w' \<and> world_inv w' \<and> packets w' q = [] \<and>
    (\<forall>t. t \<noteq> q \<longrightarrow> packets w' t = packets w t @ (if t \<in> set (targets node) then packets w q else []))"
proof -
  let ?w = "log_to INFO INITIATOR (''Collector node started: '' @ node_name node) w"
  obtain x' buf' w' where "run_loop (consumer_body INITIATOR collector_handle node) node (replicate n [])
        ((), replicate ETHERNET_FRAME_LENGTH 0) ?w = Blocked (x', buf') w'" "world_inv w'" "packets w' q = []"
      "\<forall>t. t \<noteq> q \<longrightarrow> packets w' t = packets w t @ (if t \<in> set (targets node) then packets w q else [])"
    using collector.run_ready [where node = node and q = q and w = ?w and x = "()" and n = n and se = INITIATOR
      and buf = "replicate ETHERNET_FRAME_LENGTH 0"] assms
    by (auto simp: MAX_PKG_SIZE_def ETHERNET_FRAME_LENGTH_def outputs_all)
  then show ?thesis
    by (auto simp: collector_node_process_def collector_body_def Let_def)
qed

text \<open>
  C34: The packet counter run on its own delivers every packet, unchanged and in order, to each of
  its outputs, and its counters have grown (modulo 2 ^ 64) by the number of packets, their bytes,
  the tagged and the untagged ones among them.
\<close>

theorem packet_counter_process_run:
  assumes "ready node q w" "n_context node = Some ctx" "0 < pc_log_interval ctx" "pc_log_interval ctx < 2 ^ 31"
    and "length (packets w q) < n"
  shows "\<exists>ctx' buf w'. packet_counter_node_process node (replicate n []) w = Inr (Blocked (ctx', buf) w') \<and>
    world_inv w' \<and> packets w' q = [] \<and>
    (\<forall>t. t \<noteq> q \<longrightarrow> packets w' t = packets w t @ (if t \<in> set (targets node) then packets w q else [])) \<and>
    total_packets ctx' = total_packets ctx + of_nat (length (packets w q)) \<and>
    total_bytes ctx' = total_bytes ctx + of_nat (sum_list (map length (packets w q))) \<and>
    vlan_packets ctx' = vlan_packets ctx + of_nat (length (filter tagged (packets w q))) \<and>
    non_vlan_packets ctx' = non_vlan_packets ctx + of_nat (length (filter (\<lambda>p. \<not> tagged p) (packets w q)))"
proof -
  let ?w = "log_to INFO INITIATOR (''PacketCounter node started: '' @ node_name node @ '' (log every ''
                     @ show_int (pc_log_interval ctx) @ '' packets)'') w"
  have i: "(of_int (pc_log_interval ctx) :: u64) \<noteq> 0"
  proof
    assume "(of_int (pc_log_interval ctx) :: u64) = 0"
    then have "2 ^ 64 dvd pc_log_interval ctx" by (simp add: word_of_int_eq_0_iff)
    then show False using assms(3,4) zdvd_imp_le by fastforce
  qed
  obtain ctx' buf' w' where "run_loop (consumer_body INITIATOR packet_counter_handle node) node (replicate n [])
        (ctx, replicate ETHERNET_FRAME_LENGTH 0) ?w = Blocked (ctx', buf') w'" "world_inv w'" "packets w' q = []"
      "\<forall>t. t \<noteq> q \<longrightarrow> packets w' t = packets w t @ (if t \<in> set (targets node) then packets w q else [])"
      "ctx' = foldl count ctx (packets w q)"
    using packet_counter.run_ready [where node = node and q = q and w = ?w and x = ctx and n = n and se = INITIATOR
      and buf = "replicate ETHERNET_FRAME_LENGTH 0"] assms i
    by (auto simp: MAX_PKG_SIZE_def ETHERNET_FRAME_LENGTH_def outputs_all)
  then show ?thesis
    using assms(2) by (auto simp: packet_counter_node_process_def packet_counter_body_def Let_def count_all)
qed


text \<open>
  One packet at the counter. It is counted as tagged or as untagged, so the two always add up
  to the total; a line of statistics is written exactly when the new total is a multiple of the
  interval; the packet goes on as it is.
\<close>

theorem packet_counter_handle_spec:
  assumes "0 < pc_log_interval ctx" "pc_log_interval ctx < 2 ^ 31"
    and "total_packets ctx = vlan_packets ctx + non_vlan_packets ctx"
  shows "\<exists>ctx' msgs. packet_counter_handle node ctx (p @ rest) (int (length p)) =
      Emit (ctx', p @ rest) msgs (p @ rest) (of_nat (length p)) \<and>
    total_packets ctx' = total_packets ctx + 1 \<and>
    total_packets ctx' = vlan_packets ctx' + non_vlan_packets ctx' \<and>
    vlan_packets ctx' = vlan_packets ctx + (if tagged p then 1 else 0) \<and>
    msgs = (if unat (total_packets ctx') mod nat (pc_log_interval ctx) = 0
            then [(INFO, INITIATOR, stats_message (node_name node) ctx')] else [])"
proof -
  obtain k where k: "pc_log_interval ctx = int k" "0 < k" "k < 2 ^ 31"
    using assms(1,2) by (metis less_imp_le nonneg_int_cases of_nat_0_less_iff of_nat_less_numeral_power_cancel_iff)
  have u: "unat (of_int (pc_log_interval ctx) :: u64) = k"
    using k by (simp add: unat_of_nat take_bit_nat_eq_self)
  have "(n mod of_int (pc_log_interval ctx) = 0) = (unat n mod nat (pc_log_interval ctx) = 0)" for n :: u64
    using u k(1) by (simp add: word_unat_eq_iff unat_mod_distrib)
  moreover have "(of_int (pc_log_interval ctx) :: u64) \<noteq> 0" using u k(2) by (metis less_irrefl unsigned_0)
  ultimately show ?thesis
    using assms(3) by (auto simp: packet_counter_handle_def count_packet_append count_simps Let_def)
qed

subsection \<open>The properties at work\<close>

definition example_counter :: "PacketCounterContext Node" where
  "example_counter = the (fst (packet_counter_node_create (Some ''PacketCounter'') 10 \<lparr>m_results = [], m_live = 0\<rparr>))"

abbreviation counter0 :: PacketCounterContext where
  "counter0 \<equiv> \<lparr>total_packets = 0, total_bytes = 0, vlan_packets = 0, non_vlan_packets = 0, pc_log_interval = 10\<rparr>"

lemma example_counter: "n_context example_counter = Some counter0" "fresh example_counter"
  by (simp_all add: example_counter_def packet_counter_node_create_def node_create_def calloc_def fresh_def
      MAX_NODE_OUTPUTS_def Let_def)

definition tagged_frame :: "byte list" where
  "tagged_frame = replicate 12 1 @ [0x81, 0x00, 0, 100]"

lemma tagged_frame: "tagged_frame \<noteq> []" "tagged tagged_frame" "length tagged_frame = 16" "\<not> tagged [1, 2]"
  by (simp_all add: tagged_def tagged_frame_def)

lemma example_stream: "\<forall>p\<in>set [tagged_frame, [1, 2], tagged_frame]. packet_ok p"
  "length [tagged_frame, [1, 2], tagged_frame] \<le> Q_SIZE"
  by (auto simp: Q_SIZE_def packet_ok_def MAX_PKG_SIZE_def tagged_frame)

lemma collector_process_run_witness:
  "\<exists>l w'. collector_node_process example_node (replicate 4 []) (world_of [tagged_frame, [1, 2], tagged_frame]) =
      Blocked l w' \<and> packets w' 0 = [] \<and> packets w' 6 = [tagged_frame, [1, 2], tagged_frame]"
proof -
  have "ready example_node 0 (world_of [tagged_frame, [1, 2], tagged_frame])"
    unfolding example_node_def
    by (rule wired_ready [OF _ example_stream])
       (simp add: node_create_def calloc_def fresh_def MAX_NODE_OUTPUTS_def)
  from collector_process_run [OF this, of 4] show ?thesis
    using world_of [OF example_stream] by (auto simp: example_node)
qed

lemma packet_counter_process_run_witness:
  "\<exists>ctx' buf w'. packet_counter_node_process (wired example_counter) (replicate 4 [])
      (world_of [tagged_frame, [1, 2], tagged_frame]) = Inr (Blocked (ctx', buf) w') \<and>
    packets w' 5 = [tagged_frame, [1, 2], tagged_frame] \<and>
    total_packets ctx' = 3 \<and> total_bytes ctx' = 34 \<and> vlan_packets ctx' = 2 \<and> non_vlan_packets ctx' = 1"
  using packet_counter_process_run [OF wired_ready [OF example_counter(2) example_stream], of counter0 4]
    wired [OF example_counter(2)] example_counter(1) world_of [OF example_stream]
  by (auto simp: tagged_frame)

lemma packet_counter_handle_spec_witness:
  "\<exists>ctx' msgs. packet_counter_handle example_counter counter0 ([1, 2] @ replicate 1520 0) 2 =
      Emit (ctx', [1, 2] @ replicate 1520 0) msgs ([1, 2] @ replicate 1520 0) 2 \<and>
    total_packets ctx' = 1 \<and> vlan_packets ctx' = 0 \<and> msgs = []"
  using packet_counter_handle_spec [of counter0 example_counter "[1, 2]" "replicate 1520 0"]
  by (auto simp: tagged_frame)

end
