(* ===== verification/Logger_Node.thy ===== *)
theory Logger_Node
  imports Node_Core
begin

text \<open>
  The logger node, nodes/src/logger_node.c: it writes a hex dump of every \<open>log_interval\<close>-th
  packet to the log and forwards every packet. The dump is put together by one \<open>snprintf\<close>
  after the other in an array of 8192 bytes; \<open>dump_pieces\<close> are the texts in their order,
  \<open>emit\<close> the calls with their test for truncation.
\<close>

record LoggerContext =
  ln_log_interval :: int
  packet_count :: u64

definition logger_node_create :: "string option \<Rightarrow> int \<Rightarrow> Mem \<Rightarrow> LoggerContext Node option \<times> Mem" where
  "logger_node_create name log_interval m =
     (case name of
        None \<Rightarrow> (None, m)
      | Some name \<Rightarrow>
          (let (ok, m) = calloc m in
           if \<not> ok then (None, m)
           else
             (let ctx = \<lparr>ln_log_interval = log_interval, packet_count = 0\<rparr>;
                  (node, m) = node_create (Some name) NODE_TYPE_CUSTOM (Some Logger_process) (Some ctx) m
              in case node of
                   None \<Rightarrow> (None, free m)
                 | Some node \<Rightarrow> (Some node, m))))"

subsection \<open>The dump\<close>

definition DUMP_SIZE :: nat where "DUMP_SIZE = 8192"

definition hex_digit :: "nat \<Rightarrow> char" where
  "hex_digit d = (if d < 10 then char_of (48 + d) else char_of (87 + d))"

fun hex :: "nat \<Rightarrow> string" where
  "hex n = (if n < 16 then [hex_digit n] else hex (n div 16) @ [hex_digit (n mod 16)])"

declare hex.simps [simp del]

definition hex_padded :: "nat \<Rightarrow> nat \<Rightarrow> string" where
  "hex_padded k n = replicate (k - length (hex n)) CHR ''0'' @ hex n"

definition dump_header :: "string \<Rightarrow> nat \<Rightarrow> u64 \<Rightarrow> string" where
  "dump_header name sz pkt_num =
     ''=== '' @ name @ '': Packet #'' @ dec (unat pkt_num) @ '' ('' @ dec sz @ '' bytes) ==='' @ [newline]"

text \<open>The second and the third loop of a line, the hex and the character column.\<close>

definition hex_column :: "byte list \<Rightarrow> nat \<Rightarrow> nat \<Rightarrow> string list" where
  "hex_column buffer sz i =
     map (\<lambda>j. if i + j < sz then hex_padded 2 (unat (buffer ! (i + j))) @ '' '' else ''   '') [0..<16]"

definition char_column :: "byte list \<Rightarrow> nat \<Rightarrow> nat \<Rightarrow> string list" where
  "char_column buffer sz i =
     map (\<lambda>j. let c = unat (buffer ! (i + j)) in [if 32 \<le> c \<and> c \<le> 126 then char_of c else CHR ''.''])
       [0..<min 16 (sz - i)]"

definition line_pieces :: "byte list \<Rightarrow> nat \<Rightarrow> nat \<Rightarrow> string list" where
  "line_pieces buffer sz i =
     [hex_padded 4 i @ '': ''] @ hex_column buffer sz i @ ['' |''] @ char_column buffer sz i @ [''|'']
     @ (if i + 16 < sz then [[newline]] else [])"

definition dump_pieces :: "string \<Rightarrow> byte list \<Rightarrow> nat \<Rightarrow> u64 \<Rightarrow> string list" where
  "dump_pieces name buffer sz pkt_num =
     dump_header name sz pkt_num # concat (map (\<lambda>k. line_pieces buffer sz (16 * k)) [0..<(sz + 15) div 16])"

text \<open>The text written so far and whether a piece did not fit.\<close>

fun emit :: "string \<Rightarrow> string list \<Rightarrow> string \<times> bool" where
  "emit full_dump [] = (full_dump, False)"
| "emit full_dump (s # ss) =
     (if length s \<ge> DUMP_SIZE - length full_dump then (full_dump, True) else emit (full_dump @ s) ss)"

definition log_packet_hex :: "string \<Rightarrow> byte list \<Rightarrow> nat \<Rightarrow> u64 \<Rightarrow> string" where
  "log_packet_hex name buffer sz pkt_num =
     (let (full_dump, truncated) = emit [] (dump_pieces name buffer sz pkt_num) in
      if truncated \<and> length full_dump < DUMP_SIZE
      then full_dump @ take (DUMP_SIZE - length full_dump - 1) (newline # ''...(truncated)...'' @ [newline])
      else full_dump)"

subsection \<open>The thread\<close>

definition logger_handle :: "'c Node \<Rightarrow> LoggerContext \<Rightarrow> byte list \<Rightarrow> int \<Rightarrow> (LoggerContext \<times> byte list) handled" where
  "logger_handle node ctx buffer packet_size =
     (let ctx = ctx\<lparr>packet_count := packet_count ctx + 1\<rparr>;
          msgs = (if ln_log_interval ctx \<le> 1 \<or> packet_count ctx mod of_int (ln_log_interval ctx) = 0
                  then [(INFO, INITIATOR, log_packet_hex (node_name node) buffer (nat packet_size) (packet_count ctx))]
                  else [])
      in Emit (ctx, buffer) msgs buffer (of_int packet_size))"

definition logger_body :: "'c Node \<Rightarrow> LoggerContext \<times> byte list \<Rightarrow> int list \<Rightarrow> world
    \<Rightarrow> (LoggerContext \<times> byte list) outcome" where
  "logger_body = consumer_body INITIATOR logger_handle"

definition logger_node_process :: "LoggerContext Node \<Rightarrow> int list list \<Rightarrow> world
    \<Rightarrow> world + (LoggerContext \<times> byte list) outcome" where
  "logger_node_process node es w =
     (case n_context node of
        None \<Rightarrow> Inl (log_to ERROR INITIATOR (node_name node @ '': Invalid context'') w)
      | Some ctx \<Rightarrow>
          (let w = log_to INFO INITIATOR (''Logger node started: '' @ node_name node @ '' (log interval: ''
                     @ show_int (ln_log_interval ctx) @ '')'') w in
           Inr (finish (\<lambda>l. log_to INFO INITIATOR (''Logger node stopped: '' @ node_name node @ '' (logged ''
                     @ dec (unat (packet_count (fst l))) @ '' packets)''))
             (run_loop (logger_body node) node es (ctx, replicate ETHERNET_FRAME_LENGTH 0) w))))"

subsection \<open>The size of a dump\<close>

lemma length_hex: "n < 16 ^ Suc k \<Longrightarrow> length (hex n) \<le> Suc k"
proof (induction k arbitrary: n)
  case 0
  then show ?case by (subst hex.simps) simp
next
  case (Suc k)
  then have "length (hex (n div 16)) \<le> Suc k" by (intro Suc.IH) (simp add: div_less_iff_less_mult mult.commute)
  then show ?case by (subst hex.simps) simp
qed

lemma length_hex_padded: "n < 16 ^ Suc k \<Longrightarrow> length (hex_padded (Suc k) n) = Suc k"
  using length_hex [of n k] by (simp add: hex_padded_def)

lemma emit_all:
  "length (d @ concat ss) < DUMP_SIZE \<Longrightarrow> emit d ss = (d @ concat ss, False)"
  by (induction ss arbitrary: d) auto

lemma hex_column_length: "length (concat (hex_column buffer sz i)) = 48"
proof -
  have h: "length (hex_padded 2 (unat (b :: byte))) = 2" for b
    using length_hex_padded [of "unat b" 1] unsigned_less [of b, where 'a = nat] by (simp add: numeral_2_eq_2)
  have "(\<Sum>j\<leftarrow>js. length (if i + j < sz then hex_padded 2 (unat (buffer ! (i + j))) @ '' '' else ''   '')) = 3 * length js" for js
    by (induction js) (auto simp: h)
  then show ?thesis by (simp add: hex_column_def length_concat comp_def)
qed

lemma char_column_length: "length (concat (char_column buffer sz i)) = min 16 (sz - i)"
proof -
  have "(\<Sum>j\<leftarrow>js. length (let c = unat (buffer ! (i + j)) in [if 32 \<le> c \<and> c \<le> 126 then char_of c else CHR ''.''])) = length js" for js
    by (induction js) (auto simp: Let_def)
  then show ?thesis by (simp add: char_column_def length_concat comp_def)
qed

lemma line_length:
  assumes "i < 65536"
  shows "length (concat (line_pieces buffer sz i)) \<le> 74"
proof -
  have "length (hex_padded 4 i) = 4" using length_hex_padded [of i 3] assms by simp
  then show ?thesis
    using hex_column_length [of buffer sz i] char_column_length [of buffer sz i]
    by (auto simp: line_pieces_def)
qed

lemma dump_length:
  assumes "length name \<le> 63" "sz \<le> 1522"
  shows "length (concat (dump_pieces name buffer sz pkt_num)) \<le> 7219"
proof -
  have "unat pkt_num < 10 ^ 20" using unsigned_less [of pkt_num, where 'a = nat] by simp
  then have "length (dec (unat pkt_num)) \<le> 20" using length_dec [of "unat pkt_num" 19] by simp
  moreover have "length (dec sz) \<le> 4" using length_dec [of sz 3] assms(2) by simp
  ultimately have h: "length (dump_header name sz pkt_num) \<le> 115"
    using assms(1) by (simp add: dump_header_def)
  have bound: "length (concat (concat (map (\<lambda>k. line_pieces buffer sz (16 * k)) ks))) \<le> 74 * length ks"
    if "\<forall>k\<in>set ks. k < 4096" for ks
    using that
  proof (induction ks)
    case (Cons k ks)
    then have "length (concat (line_pieces buffer sz (16 * k))) \<le> 74" by (intro line_length) auto
    then show ?case using Cons by simp
  qed simp
  have lt: "\<forall>k\<in>set [0..<(sz + 15) div 16]. k < 4096" using assms(2) by auto
  have "length (concat (concat (map (\<lambda>k. line_pieces buffer sz (16 * k)) [0..<(sz + 15) div 16]))) \<le> 74 * ((sz + 15) div 16)"
    using bound [OF lt] by simp
  moreover have "(sz + 15) div 16 \<le> 96" using assms(2) by simp
  ultimately show ?thesis using h by (simp only: dump_pieces_def concat.simps length_append)
qed

subsection \<open>The contract of the loop\<close>

lemma logger_handle_append: "packet_ok p \<Longrightarrow> \<exists>msgs. logger_handle node ctx (p @ rest) (int (length p)) =
    Emit (ctx\<lparr>packet_count := packet_count ctx + 1\<rparr>, p @ rest) msgs (p @ rest) (of_nat (length p))"
  by (simp add: logger_handle_def Let_def)

interpretation logger_node: packet_handler logger_handle "\<lambda>x. True" "\<lambda>x. x"
  "\<lambda>ctx p. True" "\<lambda>ctx p. Some p" "\<lambda>ctx p. ctx\<lparr>packet_count := packet_count ctx + 1\<rparr>"
proof unfold_locales
  fix x :: LoggerContext and p rest p' :: "byte list" and node
  assume h: "packet_ok p" "length (p @ rest) = MAX_PKG_SIZE"
  show "\<exists>x' buf msgs tail. logger_handle node x (p @ rest) (int (length p)) =
        Emit (x', buf) msgs (p' @ tail) (of_nat (length p')) \<and>
      True \<and> x' = x\<lparr>packet_count := packet_count x + 1\<rparr> \<and> length buf = MAX_PKG_SIZE" if "Some p = Some p'"
    using logger_handle_append [OF h(1)] h(2) that by fastforce
qed auto

lemma count_logged: "packet_count (foldl (\<lambda>ctx p. ctx\<lparr>packet_count := packet_count ctx + 1\<rparr>) ctx ps) =
    packet_count ctx + of_nat (length ps)"
  by (induction ps arbitrary: ctx) simp_all

subsection \<open>Properties\<close>

text \<open>
  C35: A dump is never truncated. For every packet that fits a queue, every node name that fits the
  node and every packet number, all pieces fit in the array of 8192 bytes, so the message is their
  concatenation, at most 7219 characters, which also fits the buffer of \<open>printL\<close>.
\<close>

theorem log_packet_hex_complete:
  assumes "length name \<le> 63" "sz \<le> 1522"
  shows "log_packet_hex name buffer sz pkt_num = concat (dump_pieces name buffer sz pkt_num) \<and>
    length (log_packet_hex name buffer sz pkt_num) \<le> 7219"
proof -
  have "emit [] (dump_pieces name buffer sz pkt_num) = (concat (dump_pieces name buffer sz pkt_num), False)"
    using emit_all [of "[]" "dump_pieces name buffer sz pkt_num"] dump_length [OF assms, of buffer pkt_num]
    by (simp add: DUMP_SIZE_def)
  then show ?thesis using dump_length [OF assms] by (simp add: log_packet_hex_def)
qed

text \<open>
  The logger node run on its own delivers every packet, unchanged and in order, to each of its
  outputs, and has counted them (modulo 2 ^ 64).
\<close>

theorem logger_process_run:
  assumes "ready node q w" "n_context node = Some ctx" "length (packets w q) < n"
  shows "\<exists>ctx' buf w'. logger_node_process node (replicate n []) w = Inr (Blocked (ctx', buf) w') \<and>
    world_inv w' \<and> packets w' q = [] \<and>
    (\<forall>t. t \<noteq> q \<longrightarrow> packets w' t = packets w t @ (if t \<in> set (targets node) then packets w q else [])) \<and>
    packet_count ctx' = packet_count ctx + of_nat (length (packets w q))"
proof -
  let ?w = "log_to INFO INITIATOR (''Logger node started: '' @ node_name node @ '' (log interval: ''
                     @ show_int (ln_log_interval ctx) @ '')'') w"
  obtain ctx' buf' w' where "run_loop (consumer_body INITIATOR logger_handle node) node (replicate n [])
        (ctx, replicate ETHERNET_FRAME_LENGTH 0) ?w = Blocked (ctx', buf') w'" "world_inv w'" "packets w' q = []"
      "\<forall>t. t \<noteq> q \<longrightarrow> packets w' t = packets w t @ (if t \<in> set (targets node) then packets w q else [])"
      "ctx' = foldl (\<lambda>ctx p. ctx\<lparr>packet_count := packet_count ctx + 1\<rparr>) ctx (packets w q)"
    using logger_node.run_ready [where node = node and q = q and w = ?w and x = ctx and n = n and se = INITIATOR
      and buf = "replicate ETHERNET_FRAME_LENGTH 0"] assms
    by (auto simp: MAX_PKG_SIZE_def ETHERNET_FRAME_LENGTH_def outputs_all)
  then show ?thesis
    using assms(2) by (auto simp: logger_node_process_def logger_body_def Let_def count_logged)
qed

subsection \<open>The properties at work\<close>

lemma example_dump:
  "concat (dump_pieces ''Logger1'' [0x41, 0x7F] 2 1) =
     ''=== Logger1: Packet #1 (2 bytes) ==='' @ [newline] @ ''0000: 41 7f '' @ replicate 42 blank @ '' |A.|''"
  by code_simp

lemma log_packet_hex_complete_witness:
  "log_packet_hex ''Logger1'' [0x41, 0x7F] 2 1 =
     ''=== Logger1: Packet #1 (2 bytes) ==='' @ [newline] @ ''0000: 41 7f '' @ replicate 42 blank @ '' |A.|''"
  using log_packet_hex_complete [of "''Logger1''" 2 "[0x41, 0x7F]" 1] example_dump by simp

definition example_logger :: "LoggerContext Node" where
  "example_logger = the (fst (logger_node_create (Some ''Logger1'') 1 \<lparr>m_results = [], m_live = 0\<rparr>))"

lemma example_logger: "n_context example_logger = Some \<lparr>ln_log_interval = 1, packet_count = 0\<rparr>" "fresh example_logger"
  by (simp_all add: example_logger_def logger_node_create_def node_create_def calloc_def fresh_def
      MAX_NODE_OUTPUTS_def Let_def)

lemma logger_process_run_witness:
  "\<exists>ctx' buf w'. logger_node_process (wired example_logger) (replicate 3 []) (world_of [[1, 2], [3]]) =
      Inr (Blocked (ctx', buf) w') \<and> packets w' 5 = [[1, 2], [3]] \<and> packet_count ctx' = 2"
  using logger_process_run [OF wired_ready [OF example_logger(2) example_packets], of _ 3]
    wired [OF example_logger(2)] example_logger(1) world_of [OF example_packets]
  by auto

end
