(* ===== verification/Socket_Nodes.thy ===== *)
theory Socket_Nodes
  imports Node_Core
begin

text \<open>
  The two ends of a pipeline: nodes/src/socket_utils.c, which opens a packet socket on an
  interface, the sniffer (nodes/src/sniffer_node.c), which reads frames from one, and the sender
  (nodes/src/sender_node.c), which writes frames to one. The kernel is an argument: the results of
  the system calls come as data, and \<open>o_fds\<close> are the descriptors that are open. The
  executable is compiled with \<^verbatim>\<open>DEBUG\<close>, so the checks under it belong to the code.
\<close>

definition IFNAMSIZ :: nat where "IFNAMSIZ = 16"
definition AF_PACKET :: u16 where "AF_PACKET = 17"
definition ETH_P_ALL :: u16 where "ETH_P_ALL = 3"
definition VLAN_ETH_FRAME_LEN :: int where "VLAN_ETH_FRAME_LEN = 1518"
definition MAX_ERR_NUM :: nat where "MAX_ERR_NUM = 3"

record sockaddr_ll =
  sll_family :: u16
  sll_protocol :: u16
  sll_ifindex :: int

record os =
  o_fds :: "int list"
  o_log :: "log_entry list"

text \<open>
  What the kernel answers to the calls of one \<open>setup_packet_socket\<close>: a new descriptor or
  -1, the index of the interface or a failure, the success of \<open>bind\<close>.
\<close>

record kernel =
  k_socket :: int
  k_ifindex :: "int option"
  k_bind :: bool
  k_errno :: int

definition os_log :: "Type_e \<Rightarrow> Sender_e \<Rightarrow> string \<Rightarrow> os \<Rightarrow> os" where
  "os_log ty se text s = s\<lparr>o_log := o_log s @ [(ty, se, text)]\<rparr>"

definition os_close :: "int \<Rightarrow> os \<Rightarrow> os" where
  "os_close fd s = s\<lparr>o_fds := remove1 fd (o_fds s)\<rparr>"

subsection \<open>Opening a socket\<close>

definition no_interface :: "string \<Rightarrow> int \<Rightarrow> string" where
  "no_interface dev errno = dev @ '': can'' @ CHR 0x27 # ''t find interface (errno='' @ show_int errno @ '')''"

text \<open>The address structure is filled in only when the interface is known.\<close>

definition setup_packet_socket :: "kernel \<Rightarrow> string option \<Rightarrow> Sender_e \<Rightarrow> sockaddr_ll option \<Rightarrow> os
    \<Rightarrow> int \<times> sockaddr_ll option \<times> os" where
  "setup_packet_socket k dev_name sender saddr_ll s =
     (case (dev_name, saddr_ll) of
        (Some dev_name, Some addr) \<Rightarrow>
          (let dev_name_len = strlen dev_name in
           if dev_name_len \<ge> IFNAMSIZ \<or> dev_name_len < 1
           then (-1, saddr_ll, os_log ERROR sender ''Invalid interface name'' s)
           else
             (let socket_fd = k_socket k in
              if socket_fd = -1
              then (-1, saddr_ll, os_log ERROR sender
                      (''socket(AF_PACKET) failed (errno='' @ show_int (k_errno k) @ '')'') s)
              else
                (let s = s\<lparr>o_fds := socket_fd # o_fds s\<rparr> in
                 case k_ifindex k of
                   None \<Rightarrow> (-1, saddr_ll, os_close socket_fd (os_log ERROR sender
                      (no_interface (cstr dev_name) (k_errno k)) s))
                 | Some i \<Rightarrow>
                    (if i = 0 then (-1, saddr_ll, os_close socket_fd (os_log ERROR sender
                      (no_interface (cstr dev_name) (k_errno k)) s))
                     else
                       (let addr = \<lparr>sll_family = AF_PACKET, sll_protocol = htons ETH_P_ALL, sll_ifindex = i\<rparr> in
                        if \<not> k_bind k
                        then (-1, Some addr, os_close socket_fd (os_log ERROR sender
                               (''Error binding socket to '' @ cstr dev_name @ '' (errno='' @ show_int (k_errno k)
                                @ '')'') s))
                        else (socket_fd, Some addr, s))))))
      | _ \<Rightarrow> (-1, saddr_ll, s))"

abbreviation zero_addr :: sockaddr_ll where
  "zero_addr \<equiv> \<lparr>sll_family = 0, sll_protocol = 0, sll_ifindex = 0\<rparr>"

subsection \<open>Creating the two nodes\<close>

text \<open>The two contexts have the same fields.\<close>

record socket_context =
  sc_socket :: int
  sc_saddr :: sockaddr_ll

text \<open>
  The clean-up at the end of the two functions: \<open>ctx\<close> is \<^const>\<open>None\<close> when its allocation
  failed.
\<close>

definition clear_and_exit :: "int option \<Rightarrow> Mem \<Rightarrow> os \<Rightarrow> socket_context Node option \<times> Mem \<times> os" where
  "clear_and_exit ctx m s =
     (case ctx of
        None \<Rightarrow> (None, m, s)
      | Some socket \<Rightarrow> (None, free m, if socket \<ge> 0 then os_close socket s else s))"

definition sniffer_node_create :: "kernel \<Rightarrow> string option \<Rightarrow> string option \<Rightarrow> Mem \<Rightarrow> os
    \<Rightarrow> socket_context Node option \<times> Mem \<times> os" where
  "sniffer_node_create k name dev_name m s =
     (if name = None \<or> dev_name = None then (None, m, s)
      else
        (let (ok, m) = calloc m in
         if \<not> ok then clear_and_exit None m s
         else
           (let (socket, addr, s) = setup_packet_socket k dev_name INITIATOR (Some zero_addr) s in
            if socket = -1 then clear_and_exit (Some socket) m s
            else
              (let (node, m) = node_create name NODE_TYPE_SNIFFER (Some Sniffer_process)
                     (Some \<lparr>sc_socket = socket, sc_saddr = the addr\<rparr>) m
               in case node of
                    None \<Rightarrow> clear_and_exit (Some socket) m s
                  | Some node \<Rightarrow> (Some node, m, s)))))"

definition sender_node_create :: "kernel \<Rightarrow> string option \<Rightarrow> string option \<Rightarrow> Mem \<Rightarrow> os
    \<Rightarrow> socket_context Node option \<times> Mem \<times> os" where
  "sender_node_create k name dev_name m s =
     (if name = None \<or> dev_name = None then (None, m, s)
      else
        (let (ok, m) = calloc m in
         if \<not> ok then clear_and_exit None m s
         else
           (let (socket, addr, s) = setup_packet_socket k dev_name SENDER (Some zero_addr) s in
            if socket = -1 then clear_and_exit (Some socket) m s
            else
              (let (node, m) = node_create name NODE_TYPE_SENDER (Some Sender_process)
                     (Some \<lparr>sc_socket = socket, sc_saddr = the addr\<rparr>) m
               in case node of
                    None \<Rightarrow> clear_and_exit (Some socket) m s
                  | Some node \<Rightarrow> (Some node, m, s)))))"

subsection \<open>The sniffer thread\<close>

text \<open>The result of \<open>recvfrom\<close>: a frame, cut to the size of the buffer, or a failure.\<close>

datatype received = Frame "byte list" | Recv_error int

record socket_thread =
  st_ctx :: socket_context
  st_buffer :: "byte list"
  st_errors :: nat
  st_open :: bool
  st_sent :: "byte list list"   \<comment> \<open>what the sender has put on the wire\<close>

text \<open>Raising the flag of the pipeline, if the node has a pointer to it.\<close>

definition raise_exit :: "'c Node \<Rightarrow> world \<Rightarrow> world" where
  "raise_exit node w = (if n_should_exit node then w\<lparr>w_exit := True\<rparr> else w)"

definition sniffer_body :: "'c Node \<Rightarrow> socket_thread \<Rightarrow> received \<Rightarrow> world \<Rightarrow> socket_thread outcome" where
  "sniffer_body node l r w =
     (case r of
        Recv_error errno \<Rightarrow>
          (let message = node_name node @ '': Error receiving packets (error code: '' @ show_int errno @ '')!'' in
           if st_errors l \<ge> MAX_ERR_NUM
           then Return (l\<lparr>st_open := False\<rparr>) (raise_exit node (log_to ERROR SNIFFER message w))
           else Next (l\<lparr>st_errors := st_errors l + 1\<rparr>) (log_to WARNING SNIFFER message w))
      | Frame data \<Rightarrow>
          (let data = take ETHERNET_FRAME_LENGTH data;
               l = l\<lparr>st_errors := 0, st_buffer := data @ drop (length data) (st_buffer l)\<rparr>
           in case node_send_to_outputs node (st_buffer l) (of_nat (length data)) w of
                None \<Rightarrow> Fault
              | Some w \<Rightarrow> Next l w))"

abbreviation thread0 :: "socket_context \<Rightarrow> socket_thread" where
  "thread0 ctx \<equiv> \<lparr>st_ctx = ctx, st_buffer = replicate ETHERNET_FRAME_LENGTH 0, st_errors = 0, st_open = True,
     st_sent = []\<rparr>"

definition sniffer_node_process :: "socket_context Node \<Rightarrow> received list \<Rightarrow> world
    \<Rightarrow> world + socket_thread outcome" where
  "sniffer_node_process node es w =
     (case n_context node of
        None \<Rightarrow> Inl (log_to ERROR SNIFFER ''Invalid context in sniffer node'' w)
      | Some ctx \<Rightarrow>
          (let w = log_to INFO SNIFFER (''Sniffer node started: '' @ node_name node @ '' (socket fd=''
                     @ show_int (sc_socket ctx) @ '')'') w in
           Inr (case run_loop (sniffer_body node) node es (thread0 ctx) w of
                  Break l w \<Rightarrow> Return (l\<lparr>st_open := False\<rparr>)
                    (log_to INFO SNIFFER (''Sniffer node stopped: '' @ node_name node) w)
                | r \<Rightarrow> r)))"

subsection \<open>The sender thread\<close>

text \<open>
  One turn; the environment gives the results of the waits of \<open>pop\<close> and what \<open>sendto\<close>
  does with the frame, \<^term>\<open>Some errno\<close> for a failure.
\<close>

definition sender_body :: "'c Node \<Rightarrow> socket_thread \<Rightarrow> int list \<times> int option \<Rightarrow> world
    \<Rightarrow> socket_thread outcome" where
  "sender_body node l env w =
     (case n_input node of
        None \<Rightarrow> Break l (log_to ERROR SENDER (node_name node @ '': No input queue'') w)
      | Some q \<Rightarrow>
     (case w_queues w q of
        None \<Rightarrow> Fault
      | Some Q \<Rightarrow>
     (case pop Q (st_buffer l) (map (\<lambda>rc. (rc, Q)) (fst env)) of
        Pop_blocked \<Rightarrow> Blocked l w
      | Pop_fault \<Rightarrow> Fault
      | Pop_ret rcv_len buffer Q' \<Rightarrow>
          (let w = set_queue q Q' w; l = l\<lparr>st_buffer := buffer\<rparr> in
           if rcv_len \<ge> VLAN_ETH_FRAME_LEN then Next l w
           else if rcv_len < 0 then (if must_exit node w then Break l w else Next l w)
           else
             (case snd env of
                Some errno \<Rightarrow>
                  (let message = node_name node @ '': Error sending packets (error code: '' @ show_int errno @ '')!'' in
                   if st_errors l = 3
                   then Return l (raise_exit node (log_to ERROR SENDER message w))
                   else Next (l\<lparr>st_errors := st_errors l + 1\<rparr>) (log_to WARNING SENDER message w))
              | None \<Rightarrow>
                  Next (l\<lparr>st_errors := 0, st_sent := st_sent l @ [take (nat rcv_len) buffer]\<rparr>) w)))))"

definition sender_node_process :: "socket_context Node \<Rightarrow> (int list \<times> int option) list \<Rightarrow> world
    \<Rightarrow> world + socket_thread outcome" where
  "sender_node_process node es w =
     (case n_context node of
        None \<Rightarrow> Inl (log_to ERROR SENDER (node_name node @ '': Invalid context'') w)
      | Some ctx \<Rightarrow>
          (let w = log_to INFO SENDER (''Sender node started: '' @ node_name node) w in
           Inr (case run_loop (sender_body node) node es (thread0 ctx) w of
                  Break l w \<Rightarrow> Return (l\<lparr>st_open := False\<rparr>)
                    (log_to INFO SENDER (''Sender node stopped: '' @ node_name node) w)
                | r \<Rightarrow> r)))"

subsection \<open>Descriptors and memory\<close>

lemma setup_fds:
  "setup_packet_socket k dev sender addr s = (fd, addr', s') \<Longrightarrow>
     o_fds s' = (if fd = -1 then o_fds s else fd # o_fds s) \<and> (fd \<noteq> -1 \<longrightarrow> fd = k_socket k)"
  by (auto simp: setup_packet_socket_def os_log_def os_close_def Let_def split: option.splits if_splits)

lemma clear_and_exit_simps:
  "clear_and_exit None m s = (None, m, s)"
  "clear_and_exit (Some fd) m s = (None, free m, if fd \<ge> 0 then os_close fd s else s)"
  by (simp_all add: clear_and_exit_def)

lemma calloc_live: "calloc m = (ok, m') \<Longrightarrow> m_live m' = (if ok then m_live m + 1 else m_live m)"
  by (auto simp: calloc_def split: list.splits)

lemma free_live [simp]: "m_live (free m) = m_live m - 1"
  by (simp add: free_def)

lemma node_create_live: "node_create name ty pr ctx m = (res, m') \<Longrightarrow>
    m_live m' = (if res = None then m_live m else m_live m + 2)"
  using node_create_spec [of name ty pr ctx m res m'] by (auto split: option.splits)

text \<open>The two creation functions, written as one.\<close>

definition socket_create :: "NodeType \<Rightarrow> node_process_func \<Rightarrow> Sender_e \<Rightarrow> kernel \<Rightarrow> string option \<Rightarrow> string option
    \<Rightarrow> Mem \<Rightarrow> os \<Rightarrow> socket_context Node option \<times> Mem \<times> os" where
  "socket_create ty pr sender k name dev_name m s =
     (if name = None \<or> dev_name = None then (None, m, s)
      else
        (let (ok, m) = calloc m in
         if \<not> ok then clear_and_exit None m s
         else
           (let (socket, addr, s) = setup_packet_socket k dev_name sender (Some zero_addr) s in
            if socket = -1 then clear_and_exit (Some socket) m s
            else
              (let (node, m) = node_create name ty (Some pr) (Some \<lparr>sc_socket = socket, sc_saddr = the addr\<rparr>) m
               in case node of
                    None \<Rightarrow> clear_and_exit (Some socket) m s
                  | Some node \<Rightarrow> (Some node, m, s)))))"

lemma socket_creates:
  "sniffer_node_create = socket_create NODE_TYPE_SNIFFER Sniffer_process INITIATOR"
  "sender_node_create = socket_create NODE_TYPE_SENDER Sender_process SENDER"
  by (intro ext, simp add: sniffer_node_create_def sender_node_create_def socket_create_def)+

lemma socket_create_leak:
  assumes "socket_create ty pr sender k name dev m s = (res, m', s')" "-1 \<le> k_socket k"
  shows "case res of
      None \<Rightarrow> m_live m' = m_live m \<and> o_fds s' = o_fds s
    | Some node \<Rightarrow> m_live m' = m_live m + 3 \<and> o_fds s' = k_socket k # o_fds s \<and>
        (\<exists>ctx. n_context node = Some ctx \<and> sc_socket ctx = k_socket k)"
proof (cases "name = None \<or> dev = None")
  case True
  then show ?thesis using assms(1) by (auto simp: socket_create_def)
next
  case False
  obtain ok m1 where c: "calloc m = (ok, m1)" by (cases "calloc m")
  note l1 = calloc_live [OF c]
  obtain fd addr s1 where p: "setup_packet_socket k dev sender (Some zero_addr) s = (fd, addr, s1)"
    by (cases "setup_packet_socket k dev sender (Some zero_addr) s") auto
  note fds = setup_fds [OF p]
  obtain node m2 where n: "node_create name ty (Some pr) (Some \<lparr>sc_socket = fd, sc_saddr = the addr\<rparr>) m1 = (node, m2)"
    by (cases "node_create name ty (Some pr) (Some \<lparr>sc_socket = fd, sc_saddr = the addr\<rparr>) m1")
  note l2 = node_create_live [OF n]
  consider "\<not> ok" | "ok" "fd = -1" | "ok" "fd \<noteq> -1" "node = None" | n1 where "ok" "fd \<noteq> -1" "node = Some n1"
    by (cases node) auto
  then show ?thesis
  proof cases
    case 4
    then have "n_context n1 = Some \<lparr>sc_socket = fd, sc_saddr = the addr\<rparr>"
      using node_create_spec [OF n] by simp
    then show ?thesis
      using 4 assms(1) False c p n l1 l2 fds by (auto simp: socket_create_def)
  qed (use assms False c p n l1 l2 fds in \<open>auto simp: socket_create_def clear_and_exit_simps os_close_def\<close>)
qed

subsection \<open>Giving up\<close>

fun is_error :: "received \<Rightarrow> bool" where
  "is_error (Recv_error e) = True"
| "is_error (Frame d) = False"

fun gives_up :: "nat \<Rightarrow> received list \<Rightarrow> bool" where
  "gives_up k [] = False"
| "gives_up k (r # rs) = (if is_error r then 3 \<le> k \<or> gives_up (k + 1) rs else gives_up 0 rs)"

definition four_errors :: "received list \<Rightarrow> bool" where
  "four_errors rs \<longleftrightarrow> (\<exists>n. n + 4 \<le> length rs \<and> (\<forall>i < 4. is_error (rs ! (n + i))))"

definition leading :: "received list \<Rightarrow> nat" where
  "leading rs = length (takeWhile is_error rs)"

lemma leading_simps [simp]: "leading [] = 0" "leading (r # rs) = (if is_error r then leading rs + 1 else 0)"
  by (simp_all add: leading_def)

lemma leading_ge: "k \<le> leading rs \<longleftrightarrow> k \<le> length rs \<and> (\<forall>i < k. is_error (rs ! i))"
proof (induction rs arbitrary: k)
  case (Cons r rs)
  then show ?case by (cases k) (auto simp: nth_Cons split: nat.splits)
qed auto

lemma four_errors_Cons: "four_errors (r # rs) \<longleftrightarrow> 4 \<le> leading (r # rs) \<or> four_errors rs"
proof
  assume "four_errors (r # rs)"
  then obtain n where n: "n + 4 \<le> length (r # rs)" "\<forall>i < 4. is_error ((r # rs) ! (n + i))"
    by (auto simp: four_errors_def)
  show "4 \<le> leading (r # rs) \<or> four_errors rs"
  proof (cases n)
    case 0
    then show ?thesis using n leading_ge [of 4 "r # rs"] by simp
  next
    case (Suc n')
    then have "four_errors rs" unfolding four_errors_def using n by (intro exI [of _ n']) simp
    then show ?thesis ..
  qed
next
  assume "4 \<le> leading (r # rs) \<or> four_errors rs"
  then show "four_errors (r # rs)"
  proof
    assume "4 \<le> leading (r # rs)"
    then show ?thesis unfolding leading_ge four_errors_def by (intro exI [of _ 0]) simp
  next
    assume "four_errors rs"
    then obtain n where "n + 4 \<le> length rs" "\<forall>i < 4. is_error (rs ! (n + i))" by (auto simp: four_errors_def)
    then show ?thesis unfolding four_errors_def by (intro exI [of _ "Suc n"]) simp
  qed
qed

lemma gives_up_iff: "k \<le> 3 \<Longrightarrow> gives_up k rs \<longleftrightarrow> 4 - k \<le> leading rs \<or> four_errors rs"
proof (induction rs arbitrary: k)
  case Nil
  then show ?case by (simp add: four_errors_def)
next
  case (Cons r rs)
  have "four_errors rs" if "4 \<le> leading rs"
    using that by (cases rs) (simp_all add: four_errors_Cons)
  note four = this
  show ?case
  proof (cases "is_error r")
    case False
    then show ?thesis using Cons.IH [of 0] four Cons.prems by (auto simp: four_errors_Cons)
  next
    case True
    show ?thesis
    proof (cases "k = 3")
      case False
      then have "k + 1 \<le> 3" using Cons.prems by simp
      then show ?thesis using Cons.IH [of "k + 1"] True by (auto simp: four_errors_Cons)
    qed (simp add: True)
  qed
qed


subsection \<open>The sniffer's loop\<close>

text \<open>The packets that a sequence of results of \<open>recvfrom\<close> brings in.\<close>

fun frames :: "received list \<Rightarrow> byte list list" where
  "frames [] = []"
| "frames (Recv_error e # rs) = frames rs"
| "frames (Frame d # rs) = (if d = [] then [] else [take 1522 d]) @ frames rs"

lemma push_zero: "push Q buf 0 = Some (0, Q)"
  by (simp add: push_def)

lemma send_zero:
  assumes "set (targets node) \<subseteq> dom (w_queues w)"
  shows "node_send_to_outputs node buf 0 w = Some w"
proof -
  have "send_outputs node buf 0 is w = Some w"
    if "set (List.map_filter (\<lambda>i. n_outputs node ! i) is) \<subseteq> dom (w_queues w)" for "is"
    using that
  proof (induction "is")
    case (Cons i "is")
    show ?case
    proof (cases "n_outputs node ! i")
      case (Some q)
      then obtain Q where Q: "w_queues w q = Some Q" using Cons.prems by (auto simp: map_filter_simps)
      then have "set_queue q Q w = w" by (simp add: set_queue_def fun_upd_idem)
      then show ?thesis using Cons Some Q by (simp add: map_filter_simps push_zero)
    qed (use Cons in \<open>simp add: map_filter_simps\<close>)
  qed simp
  then show ?thesis using assms by (simp add: node_send_to_outputs_def targets_def)
qed

lemma sniffer_run:
  assumes "world_inv w" "set (targets node) \<subseteq> dom (w_queues w)" "distinct (targets node)"
    and "\<forall>t\<in>set (targets node). length (packets w t) + length es \<le> Q_SIZE"
    and "n_should_exit node" "\<not> w_exit w" "st_errors l \<le> 3" "length (st_buffer l) = 1522"
  shows "if gives_up (st_errors l) es
    then \<exists>l' w'. run_loop (sniffer_body node) node es l w = Return l' w' \<and> w_exit w' \<and> \<not> st_open l'
    else \<exists>l' w'. run_loop (sniffer_body node) node es l w = Next l' w' \<and> \<not> w_exit w' \<and> world_inv w' \<and>
      st_open l' = st_open l \<and>
      (\<forall>t. packets w' t = packets w t @ (if t \<in> set (targets node) then frames es else []))"
  using assms
proof (induction es arbitrary: w l)
  case Nil
  then show ?case by (simp add: must_exit_def)
next
  case (Cons r es)
  have me: "\<not> must_exit node w" using Cons.prems(6) by (simp add: must_exit_def)
  show ?case
  proof (cases r)
    case (Recv_error e)
    show ?thesis
    proof (cases "3 \<le> st_errors l")
      case True
      then show ?thesis
        using Recv_error me Cons.prems(5) by (simp add: sniffer_body_def MAX_ERR_NUM_def raise_exit_def)
    next
      case False
      define l1 where "l1 = l\<lparr>st_errors := st_errors l + 1\<rparr>"
      define w1 where "w1 = log_to WARNING SNIFFER
        (node_name node @ '': Error receiving packets (error code: '' @ show_int e @ '')!'') w"
      have body: "sniffer_body node l r w = Next l1 w1"
        using False by (simp add: Recv_error sniffer_body_def MAX_ERR_NUM_def l1_def w1_def)
      have run: "run_loop (sniffer_body node) node (r # es) l w = run_loop (sniffer_body node) node es l1 w1"
        using me body by simp
      have w1: "world_inv w1" "set (targets node) \<subseteq> dom (w_queues w1)" "\<not> w_exit w1" "\<And>t. packets w1 t = packets w t"
        using Cons.prems by (simp_all add: w1_def)
      have l1: "st_errors l1 = st_errors l + 1" "st_errors l1 \<le> 3" "length (st_buffer l1) = 1522" "st_open l1 = st_open l"
        using False Cons.prems by (simp_all add: l1_def)
      have room: "\<forall>t\<in>set (targets node). length (packets w1 t) + length es \<le> Q_SIZE"
        using Cons.prems(4) w1(4) by fastforce
      have "gives_up (st_errors l) (r # es) = gives_up (st_errors l1) es" using False by (simp add: Recv_error l1(1))
      moreover have "frames (r # es) = frames es" by (simp add: Recv_error)
      moreover note Cons.IH [OF w1(1,2) Cons.prems(3) room Cons.prems(5) w1(3) l1(2,3)]
      ultimately show ?thesis
        unfolding run by (simp only: w1(4) l1(4))
    qed
  next
    case (Frame d)
    define p where "p = take 1522 d"
    define l1 where "l1 = l\<lparr>st_errors := 0, st_buffer := p @ drop (length p) (st_buffer l)\<rparr>"
    have l1: "st_errors l1 = 0" "length (st_buffer l1) = 1522" "st_open l1 = st_open l"
      using Cons.prems(8) by (auto simp: l1_def p_def)
    obtain w1 where w1: "node_send_to_outputs node (p @ drop (length p) (st_buffer l)) (of_nat (length p)) w = Some w1"
      "world_inv w1" "\<not> w_exit w1" "dom (w_queues w1) = dom (w_queues w)"
      "\<forall>t. packets w1 t = packets w t @ (if t \<in> set (targets node) then (if d = [] then [] else [p]) else [])"
    proof (cases "d = []")
      case True
      then show ?thesis using that [of w] send_zero [OF Cons.prems(2)] Cons.prems(1,6) by (simp add: p_def)
    next
      case False
      then have "packet_ok p" by (simp add: p_def packet_ok_def MAX_PKG_SIZE_def)
      moreover have "\<forall>t\<in>set (targets node). length (packets w t) < Q_SIZE" using Cons.prems(4) by fastforce
      ultimately show ?thesis
        using node_send_distinct [OF Cons.prems(1) _ Cons.prems(2,3), of p "drop (length p) (st_buffer l)"] that
          Cons.prems(6) False by auto
    qed
    have body: "sniffer_body node l r w = Next l1 w1"
      using w1(1) by (simp add: sniffer_body_def Frame ETHERNET_FRAME_LENGTH_def l1_def p_def Let_def)
    have t1: "set (targets node) \<subseteq> dom (w_queues w1)" using w1(4) Cons.prems(2) by simp
    have room: "\<forall>t\<in>set (targets node). length (packets w1 t) + length es \<le> Q_SIZE"
      using Cons.prems(4) w1(5) by fastforce
    have run: "run_loop (sniffer_body node) node (r # es) l w = run_loop (sniffer_body node) node es l1 w1"
      using me body by simp
    have "gives_up (st_errors l) (r # es) = gives_up (st_errors l1) es" by (simp add: Frame l1(1))
    moreover have "frames (r # es) = (if d = [] then [] else [p]) @ frames es" by (simp add: Frame p_def)
    moreover have "st_errors l1 \<le> 3" by (simp add: l1(1))
    moreover note Cons.IH [OF w1(2) t1 Cons.prems(3) room Cons.prems(5) w1(3) this l1(2)]
    ultimately show ?thesis
      unfolding run using w1(5) l1(3) by (cases "gives_up (st_errors l1) es") auto
  qed
qed


subsection \<open>The sender's loop\<close>

lemma sender_pop:
  assumes "world_inv w" "n_input node = Some q" "packets w q = p # ps" "length (st_buffer l) = MAX_PKG_SIZE"
  shows "\<exists>w1 l1. world_inv w1 \<and> w_exit w1 = w_exit w \<and> dom (w_queues w1) = dom (w_queues w) \<and> packets w1 q = ps \<and>
    (\<forall>t. t \<noteq> q \<longrightarrow> packets w1 t = packets w t) \<and>
    l1 = l\<lparr>st_buffer := p @ drop (length p) (st_buffer l)\<rparr> \<and> length (st_buffer l1) = MAX_PKG_SIZE \<and>
    sender_body node l ([], res) w =
      (if 1518 \<le> length p then Next l1 w1
       else case res of
         None \<Rightarrow> Next (l1\<lparr>st_errors := 0, st_sent := st_sent l @ [p]\<rparr>) w1
       | Some e \<Rightarrow>
           (let m = node_name node @ '': Error sending packets (error code: '' @ show_int e @ '')!'' in
            if st_errors l = 3 then Return l1 (raise_exit node (log_to ERROR SENDER m w1))
            else Next (l1\<lparr>st_errors := st_errors l + 1\<rparr>) (log_to WARNING SENDER m w1)))"
proof -
  obtain Q where Q: "w_queues w q = Some Q" "content Q = p # ps" "queue_inv Q"
    using assms(1,3) by (auto simp: packets_def split: option.splits)
  have d: "queue_inv (drop_first Q)" "content (drop_first Q) = ps" "packet_ok p"
    using drop_first_spec [OF Q(3)] Q(2) by (auto simp: packet_ok_def)
  have pop: "pop Q (st_buffer l) [] = Pop_ret (int (length p)) (p @ drop (length p) (st_buffer l)) (drop_first Q)"
    using pop_first [OF Q(3)] Q(2) assms(4) by simp
  have "length (p @ drop (length p) (st_buffer l)) = MAX_PKG_SIZE"
    using d(3) assms(4) by (simp add: packet_ok_def)
  moreover have "1518 \<le> int (length p) \<longleftrightarrow> 1518 \<le> length p" by linarith
  ultimately show ?thesis
    using assms(1,2) Q(1) d(1,2) pop
    by (intro exI [of _ "set_queue q (drop_first Q) w"])
       (auto simp: sender_body_def Let_def VLAN_ETH_FRAME_LEN_def split: option.split)
qed

lemma sender_run:
  assumes "world_inv w" "n_input node = Some q" "w_queues w q \<noteq> None" "\<not> must_exit node w"
    and "length (st_buffer l) = MAX_PKG_SIZE" "length (packets w q) < n"
  shows "\<exists>l' w'. run_loop (sender_body node) node (replicate n ([], None)) l w = Blocked l' w' \<and> world_inv w' \<and>
    st_sent l' = st_sent l @ filter (\<lambda>p. length p < 1518) (packets w q) \<and> packets w' q = [] \<and>
    (\<forall>t. t \<noteq> q \<longrightarrow> packets w' t = packets w t)"
  using assms
proof (induction "packets w q" arbitrary: w l n)
  case Nil
  obtain Q where Q: "w_queues w q = Some Q" "content Q = []" "queue_inv Q"
    using Nil.prems(1,3) Nil.hyps by (auto simp: packets_def split: option.splits)
  obtain n' where n: "n = Suc n'" using Nil.prems(6) by (cases n) auto
  show ?case
    using Q Nil.prems(1,2,4) Nil.hyps [symmetric] by (simp add: n sender_body_def pop_empty)
next
  case (Cons p ps)
  obtain n' where n: "n = Suc n'" using Cons.prems(6) by (cases n) auto
  obtain w1 l1 where s: "world_inv w1" "w_exit w1 = w_exit w" "dom (w_queues w1) = dom (w_queues w)" "packets w1 q = ps"
    "\<forall>t. t \<noteq> q \<longrightarrow> packets w1 t = packets w t" "l1 = l\<lparr>st_buffer := p @ drop (length p) (st_buffer l)\<rparr>"
    "length (st_buffer l1) = MAX_PKG_SIZE"
    "sender_body node l ([], None) w =
       (if 1518 \<le> length p then Next l1 w1 else Next (l1\<lparr>st_errors := 0, st_sent := st_sent l @ [p]\<rparr>) w1)"
    using sender_pop [OF Cons.prems(1,2) Cons.hyps(2) [symmetric] Cons.prems(5), of None] by auto
  define l2 where "l2 = (if 1518 \<le> length p then l1 else l1\<lparr>st_errors := 0, st_sent := st_sent l @ [p]\<rparr>)"
  have l2: "length (st_buffer l2) = MAX_PKG_SIZE" "sender_body node l ([], None) w = Next l2 w1"
    "st_sent l2 = st_sent l @ (if length p < 1518 then [p] else [])"
    using s(6,7,8) by (auto simp: l2_def)
  have "w_queues w1 q \<noteq> None" using s(3) Cons.prems(3) by (metis domIff)
  moreover have "\<not> must_exit node w1" using Cons.prems(4) s(2) by (simp add: must_exit_def)
  moreover have "length (packets w1 q) < n'" using Cons.prems(6) Cons.hyps(2) [symmetric] s(4) n by simp
  ultimately show ?case
    using Cons.hyps(1) [OF s(4) [symmetric] s(1) Cons.prems(2) _ _ l2(1), of n'] Cons.prems(4) Cons.hyps(2) [symmetric]
      l2 s(4,5) by (auto simp: n)
qed

lemma sender_body_open: "sender_body node l e w = Next l' w' \<Longrightarrow> st_open l' = st_open l"
  "sender_body node l e w = Blocked l' w' \<Longrightarrow> st_open l' = st_open l"
  by (auto simp: sender_body_def Let_def split: option.splits pop_result.splits if_splits)

lemma sender_run_open: "run_loop (sender_body node) node es l w = Blocked l' w' \<Longrightarrow> st_open l' = st_open l"
proof (induction es arbitrary: l w)
  case (Cons e es)
  then show ?case
    by (auto split: if_splits outcome.splits dest: sender_body_open)
qed (auto split: if_splits)

lemma sender_fails:
  assumes "world_inv w" "n_input node = Some q" "n_should_exit node" "\<not> w_exit w"
    and "length (st_buffer l) = MAX_PKG_SIZE" "st_errors l \<le> 3" "es = map (\<lambda>e. ([], Some e)) errs"
    and "4 - st_errors l \<le> length errs" "4 - st_errors l \<le> length (packets w q)"
    and "\<forall>p\<in>set (take (4 - st_errors l) (packets w q)). length p < 1518"
  shows "\<exists>l' w'. run_loop (sender_body node) node es l w = Return l' w' \<and> w_exit w' \<and>
    st_open l' = st_open l \<and> st_sent l' = st_sent l \<and> packets w' q = drop (4 - st_errors l) (packets w q)"
  using assms
proof (induction "4 - st_errors l" arbitrary: w l errs es)
  case 0
  then show ?case by simp
next
  case (Suc k)
  obtain e errs' where errs: "errs = e # errs'" using Suc.hyps(2) Suc.prems(8) by (cases errs) auto
  obtain p ps where pk: "packets w q = p # ps" using Suc.hyps(2) Suc.prems(9) by (cases "packets w q") auto
  let ?m = "node_name node @ '': Error sending packets (error code: '' @ show_int e @ '')!''"
  have me: "\<not> must_exit node w" using Suc.prems(4) by (simp add: must_exit_def)
  have short: "length p < 1518" using Suc.prems(10) pk Suc.hyps(2) [symmetric] by simp
  obtain w1 l1 where s: "world_inv w1" "w_exit w1 = w_exit w" "packets w1 q = ps"
    "l1 = l\<lparr>st_buffer := p @ drop (length p) (st_buffer l)\<rparr>" "length (st_buffer l1) = MAX_PKG_SIZE"
    "sender_body node l ([], Some e) w =
       (if st_errors l = 3 then Return l1 (raise_exit node (log_to ERROR SENDER ?m w1))
        else Next (l1\<lparr>st_errors := st_errors l + 1\<rparr>) (log_to WARNING SENDER ?m w1))"
    using sender_pop [OF Suc.prems(1,2) pk Suc.prems(5), of "Some e"] short by (auto simp: Let_def)
  show ?case
  proof (cases "st_errors l = 3")
    case True
    then show ?thesis
      using s(3,4,6) me Suc.prems(3,7) pk
      by (intro exI [of _ l1] exI [of _ "raise_exit node (log_to ERROR SENDER ?m w1)"])
         (simp add: errs raise_exit_def packets_def log_to_def)
  next
    case False
    define l2 where "l2 = l1\<lparr>st_errors := st_errors l + 1\<rparr>"
    define w2 where "w2 = log_to WARNING SENDER ?m w1"
    have l2: "k = 4 - st_errors l2" "length (st_buffer l2) = MAX_PKG_SIZE" "st_errors l2 \<le> 3"
      "st_open l2 = st_open l" "st_sent l2 = st_sent l"
      using Suc.hyps(2) Suc.prems(6) False s(4,5) by (auto simp: l2_def)
    have w2: "world_inv w2" "\<not> w_exit w2" "packets w2 q = ps" using s(1-3) Suc.prems(4) by (simp_all add: w2_def)
    have cnt: "4 - st_errors l2 \<le> length errs'" "4 - st_errors l2 \<le> length (packets w2 q)"
      using Suc.prems(8,9) Suc.hyps(2) l2(1) pk w2(3) errs by simp_all
    have sh: "\<forall>p\<in>set (take (4 - st_errors l2) (packets w2 q)). length p < 1518"
      using Suc.prems(10) pk w2(3) Suc.hyps(2) [symmetric] l2(1) [symmetric] by simp
    obtain l' w' where "run_loop (sender_body node) node (map (\<lambda>e. ([], Some e)) errs') l2 w2 = Return l' w'" "w_exit w'"
      "st_open l' = st_open l2" "st_sent l' = st_sent l2" "packets w' q = drop (4 - st_errors l2) (packets w2 q)"
      using Suc.hyps(1) [OF l2(1) w2(1) Suc.prems(2,3) w2(2) l2(2,3) refl cnt sh] by blast
    moreover have "run_loop (sender_body node) node es l w =
        run_loop (sender_body node) node (map (\<lambda>e. ([], Some e)) errs') l2 w2"
      using s(6) False me by (simp add: Suc.prems(7) errs l2_def w2_def)
    moreover have "drop (4 - st_errors l) (packets w q) = drop (4 - st_errors l2) (packets w2 q)"
      using pk w2(3) Suc.hyps(2) [symmetric] l2(1) [symmetric] by simp
    ultimately show ?thesis
      using l2(4,5) by auto
  qed
qed

subsection \<open>Properties\<close>

text \<open>
  C30: Creating a sniffer or a sender leaks nothing. When it fails, at whichever call, the memory
  and the descriptors in use are what they were; when it succeeds, the node holds three blocks and
  one open socket more, the one in its context.
\<close>

theorem socket_nodes_leak_free:
  assumes "sniffer_node_create k name dev m s = (res, m', s') \<or> sender_node_create k name dev m s = (res, m', s')"
    and "-1 \<le> k_socket k"
  shows "case res of
      None \<Rightarrow> m_live m' = m_live m \<and> o_fds s' = o_fds s
    | Some node \<Rightarrow> m_live m' = m_live m + 3 \<and> o_fds s' = k_socket k # o_fds s \<and>
        (\<exists>ctx. n_context node = Some ctx \<and> sc_socket ctx = k_socket k)"
  using assms(1) socket_create_leak [OF _ assms(2)] unfolding socket_creates by blast

text \<open>
  C28: The sniffer's life. Run on its own with room in its outputs, it gives up exactly when four
  calls of \<open>recvfrom\<close> in a row fail: then the flag of the pipeline is raised and its socket
  closed. As long as that has not happened it keeps running with its socket open, and every output
  has received all the frames that came in, in order, a frame of 0 bytes excepted.
\<close>

theorem sniffer_process_run:
  assumes "world_inv w" "set (targets node) \<subseteq> dom (w_queues w)" "distinct (targets node)"
    and "\<forall>t\<in>set (targets node). length (packets w t) + length es \<le> 1000"
    and "n_context node = Some ctx" "n_should_exit node" "\<not> w_exit w"
  shows "if four_errors es
    then \<exists>l w'. sniffer_node_process node es w = Inr (Return l w') \<and> w_exit w' \<and> \<not> st_open l
    else \<exists>l w'. sniffer_node_process node es w = Inr (Next l w') \<and> \<not> w_exit w' \<and> st_open l \<and> world_inv w' \<and>
      (\<forall>t. packets w' t = packets w t @ (if t \<in> set (targets node) then frames es else []))"
proof -
  let ?w = "log_to INFO SNIFFER (''Sniffer node started: '' @ node_name node @ '' (socket fd=''
                     @ show_int (sc_socket ctx) @ '')'') w"
  have "gives_up 0 es \<longleftrightarrow> four_errors es"
    using gives_up_iff [of 0 es] by (cases es) (auto simp: four_errors_Cons)
  then show ?thesis
    using sniffer_run [of ?w node es "thread0 ctx"] assms
    by (auto simp: sniffer_node_process_def Q_SIZE_def ETHERNET_FRAME_LENGTH_def Let_def)
qed

text \<open>
  C29: The sender run on its own empties its input queue and puts on the wire, unchanged and in
  order, exactly the packets of fewer than 1518 bytes; longer ones, up to the 1522 that a queue
  holds, disappear without a message.
\<close>

theorem sender_process_run:
  assumes "world_inv w" "n_input node = Some q" "w_queues w q \<noteq> None" "\<not> must_exit node w"
    and "n_context node = Some ctx" "length (packets w q) < n"
  shows "\<exists>l w'. sender_node_process node (replicate n ([], None)) w = Inr (Blocked l w') \<and> world_inv w' \<and>
    st_sent l = filter (\<lambda>p. length p < 1518) (packets w q) \<and> packets w' q = [] \<and> st_open l"
proof -
  let ?w = "log_to INFO SENDER (''Sender node started: '' @ node_name node) w"
  have "\<exists>l' w'. run_loop (sender_body node) node (replicate n ([], None)) (thread0 ctx) ?w = Blocked l' w' \<and> world_inv w' \<and>
      st_sent l' = filter (\<lambda>p. length p < 1518) (packets w q) \<and> packets w' q = [] \<and> st_open l'"
    using sender_run [of ?w node q "thread0 ctx" n] sender_run_open [of node _ "thread0 ctx" ?w] assms
    by (fastforce simp: ETHERNET_FRAME_LENGTH_def MAX_PKG_SIZE_def)
  then show ?thesis
    using assms(5) by (auto simp: sender_node_process_def Let_def)
qed

text \<open>
  When \<open>sendto\<close> fails for four packets in a row, the sender raises the flag of the
  pipeline and returns. It has sent nothing, the four packets are gone from the queue, and, unlike
  the sniffer, it has not closed its socket.
\<close>

theorem sender_gives_up:
  assumes "world_inv w" "n_input node = Some q" "n_should_exit node" "\<not> w_exit w" "n_context node = Some ctx"
    and "4 \<le> length errs" "4 \<le> length (packets w q)" "\<forall>p\<in>set (take 4 (packets w q)). length p < 1518"
  shows "\<exists>l w'. sender_node_process node (map (\<lambda>e. ([], Some e)) errs) w = Inr (Return l w') \<and> w_exit w' \<and>
    st_sent l = [] \<and> packets w' q = drop 4 (packets w q) \<and> st_open l"
proof -
  let ?w = "log_to INFO SENDER (''Sender node started: '' @ node_name node) w"
  show ?thesis
    using sender_fails [of ?w node q "thread0 ctx" _ errs] assms
    by (fastforce simp: sender_node_process_def Let_def ETHERNET_FRAME_LENGTH_def MAX_PKG_SIZE_def)
qed


subsection \<open>The properties at work\<close>

abbreviation good_kernel :: kernel where
  "good_kernel \<equiv> \<lparr>k_socket = 1, k_ifindex = Some 2, k_bind = True, k_errno = 0\<rparr>"

abbreviation os0 :: os where "os0 \<equiv> \<lparr>o_fds = [0], o_log = []\<rparr>"

definition example_ctx :: socket_context where
  "example_ctx = \<lparr>sc_socket = 1, sc_saddr = \<lparr>sll_family = AF_PACKET, sll_protocol = htons ETH_P_ALL, sll_ifindex = 2\<rparr>\<rparr>"

definition example_socket_node :: "socket_context Node" where
  "example_socket_node = (the (fst (node_create (Some ''Sniffer'') NODE_TYPE_SNIFFER (Some Sniffer_process)
     (Some example_ctx) \<lparr>m_results = [], m_live = 0\<rparr>)))\<lparr>n_should_exit := True\<rparr>"

lemma example_socket_node:
  "fresh example_socket_node" "n_context example_socket_node = Some example_ctx"
  "n_should_exit (wired example_socket_node)"
  by (simp_all add: example_socket_node_def node_create_def calloc_def fresh_def MAX_NODE_OUTPUTS_def wired_def
      node_set_input_def node_add_output_def)

text \<open>Here the last step, the creation of the node, fails: nothing stays behind.\<close>

lemma socket_nodes_leak_free_witness:
  "m_live (fst (snd (sniffer_node_create good_kernel (Some ''Sniffer'') (Some ''eth0'')
     \<lparr>m_results = [True, True, False], m_live = 7\<rparr> os0))) = 7 \<and>
   o_fds (snd (snd (sniffer_node_create good_kernel (Some ''Sniffer'') (Some ''eth0'')
     \<lparr>m_results = [True, True, False], m_live = 7\<rparr> os0))) = [0]"
proof -
  let ?r = "sniffer_node_create good_kernel (Some ''Sniffer'') (Some ''eth0'') \<lparr>m_results = [True, True, False], m_live = 7\<rparr> os0"
  have "fst ?r = None"
    by (simp add: sniffer_node_create_def calloc_def setup_packet_socket_def strlen_def IFNAMSIZ_def
        node_create_def clear_and_exit_def)
  then obtain m' s' where r: "?r = (None, m', s')" by (metis prod.collapse)
  show ?thesis using socket_nodes_leak_free [OF disjI1 [OF r]] r by simp
qed

lemma sniffer_process_run_witness:
  "\<exists>l w'. sniffer_node_process (wired example_socket_node) [Frame [1, 2], Recv_error 4, Frame [3]] (world_of []) =
      Inr (Next l w') \<and> st_open l \<and> packets w' 5 = [[1, 2], [3]]"
proof -
  have w: "\<forall>p\<in>set []. packet_ok p" "length ([] :: byte list list) \<le> Q_SIZE" by simp_all
  have "\<not> four_errors [Frame [1, 2], Recv_error 4, Frame [3]]" by (simp add: four_errors_def)
  then show ?thesis
    using sniffer_process_run [of "world_of []" "wired example_socket_node" "[Frame [1, 2], Recv_error 4, Frame [3]]"]
      wired [OF example_socket_node(1)] example_socket_node(2,3) world_of [OF w]
    by auto
qed

lemma sender_process_run_witness:
  "\<exists>l w'. sender_node_process (wired example_socket_node) (replicate 4 ([], None))
      (world_of [[1], replicate 1518 9, [2]]) = Inr (Blocked l w') \<and> st_sent l = [[1], [2]]"
proof -
  have w: "\<forall>p\<in>set [[1], replicate 1518 9, [2]]. packet_ok (p :: byte list)"
    "length [[1], replicate 1518 9, [2 :: byte]] \<le> Q_SIZE" by (auto simp: packet_ok_def MAX_PKG_SIZE_def Q_SIZE_def)
  show ?thesis
    using sender_process_run [of "world_of [[1], replicate 1518 9, [2]]" "wired example_socket_node" 0 example_ctx 4]
      wired [OF example_socket_node(1)] example_socket_node(2,3) world_of [OF w]
    by (auto simp: must_exit_def)
qed

lemma sender_gives_up_witness:
  "\<exists>l w'. sender_node_process (wired example_socket_node) (map (\<lambda>e. ([], Some e)) [1, 1, 1, 1])
      (world_of [[1], [2], [3], [4]]) = Inr (Return l w') \<and> w_exit w' \<and> st_sent l = [] \<and> packets w' 0 = []"
proof -
  have w: "\<forall>p\<in>set [[1], [2], [3], [4]]. packet_ok (p :: byte list)"
    "length [[1], [2], [3], [4 :: byte]] \<le> Q_SIZE" by (auto simp: packet_ok_def MAX_PKG_SIZE_def Q_SIZE_def)
  show ?thesis
    using sender_gives_up [of "world_of [[1], [2], [3], [4]]" "wired example_socket_node" 0 example_ctx "[1, 1, 1, 1]"]
      wired [OF example_socket_node(1)] example_socket_node(2,3) world_of [OF w]
    by auto
qed

end
