(* ===== verification/Pipeline.thy ===== *)
theory Pipeline
  imports Dispatcher_Node Tagger_Node Ip_Modifier_Node Forwarding_Nodes Logger_Node Socket_Nodes
begin

text \<open>
  Building, starting and stopping a pipeline, pipeline/pipeline.c. Nodes are objects on a heap
  (\<open>s_nodes\<close>, by address), queues too (\<open>w_queues\<close> of the world); the pipeline keeps the
  addresses of its nodes and queues in two arrays, here the lists of their used entries. The
  mutex and condition of a new queue may fail to initialise, \<open>s_inits\<close>; the bytes that a
  new queue finds in its memory are \<open>s_garbage\<close>.

  \<open>sys_inv\<close> is the invariant: the arrays keep their bounds, every node and queue that is
  referred to exists, and every queue that a node refers to belongs to the pipeline.
\<close>

definition MAX_PIPELINE_NODES :: nat where "MAX_PIPELINE_NODES = 32"
definition MAX_PIPELINE_QUEUES :: nat where "MAX_PIPELINE_QUEUES = 64"

subsection \<open>The system\<close>

datatype Context =
    Tagger_context TaggerContext
  | Ip_modifier_context IpModifierContext
  | Counter_context PacketCounterContext
  | Dispatcher_context DispatcherContext
  | Logger_context LoggerContext
  | Socket_context socket_context
  | No_context unit   \<comment> \<open>the collector has none\<close>

text \<open>A node of one of the kinds, as a node of the pipeline; the context is a \<^verbatim>\<open>void*\<close> there.\<close>

definition as_node :: "('c \<Rightarrow> Context) \<Rightarrow> 'c Node \<Rightarrow> Context Node" where
  "as_node con n =
     \<lparr>n_name = n_name n, n_type = n_type n, n_input = n_input n, n_outputs = n_outputs n,
      n_output_count = n_output_count n, n_process = n_process n,
      n_context = map_option con (n_context n), n_thread = n_thread n, n_should_exit = n_should_exit n\<rparr>"

type_synonym nid = nat

record Pipeline =
  p_nodes :: "nid list"
  p_queues :: "qid list"

record Sys =
  s_pipeline :: Pipeline
  s_nodes :: "nid \<Rightarrow> Context Node option"
  s_fresh_nid :: nid
  s_fresh_qid :: qid
  s_world :: world
  s_mem :: Mem
  s_inits :: "(bool \<times> bool) list"
  s_garbage :: "qid \<Rightarrow> Queue_t"

definition sys_log :: "Type_e \<Rightarrow> string \<Rightarrow> Sys \<Rightarrow> Sys" where
  "sys_log ty text s = s\<lparr>s_world := log_to ty INITIATOR text (s_world s)\<rparr>"

definition set_node :: "nid \<Rightarrow> Context Node \<Rightarrow> Sys \<Rightarrow> Sys" where
  "set_node n node s = s\<lparr>s_nodes := (s_nodes s)(n \<mapsto> node)\<rparr>"

definition the_node :: "Sys \<Rightarrow> nid \<Rightarrow> Context Node" where
  "the_node s n = the (s_nodes s n)"

abbreviation name_of :: "Sys \<Rightarrow> nid \<Rightarrow> string" where
  "name_of s n \<equiv> node_name (the_node s n)"

text \<open>A new node takes the next address.\<close>

definition alloc_node :: "Context Node \<Rightarrow> Sys \<Rightarrow> nid \<times> Sys" where
  "alloc_node node s =
     (s_fresh_nid s, s\<lparr>s_nodes := (s_nodes s)(s_fresh_nid s \<mapsto> node), s_fresh_nid := s_fresh_nid s + 1\<rparr>)"

subsection \<open>Building\<close>

definition pipeline_init :: "Sys \<Rightarrow> int \<times> Sys" where
  "pipeline_init s =
     (let (nodes_ok, m) = calloc (s_mem s);
          (queues_ok, m) = calloc m
      in if \<not> nodes_ok \<or> \<not> queues_ok
         then (1, s\<lparr>s_mem := (let m = (if nodes_ok then free m else m) in if queues_ok then free m else m)\<rparr>)
         else (0, s\<lparr>s_mem := m, s_pipeline := \<lparr>p_nodes = [], p_queues = []\<rparr>,
                    s_world := (s_world s)\<lparr>w_exit := False\<rparr>\<rparr>))"

text \<open>The state is that of the callback, which may be larger than the system.\<close>

definition pipeline_build :: "('s \<Rightarrow> int \<times> 's) option \<Rightarrow> 's \<Rightarrow> int \<times> 's" where
  "pipeline_build cb s =
     (case cb of
        None \<Rightarrow> (1, s)
      | Some cb \<Rightarrow> (let (r, s) = cb s in if r \<noteq> 0 then (1, s) else (0, s)))"

definition pipeline_add_node :: "nid option \<Rightarrow> Sys \<Rightarrow> int \<times> Sys" where
  "pipeline_add_node node s =
     (case node of
        None \<Rightarrow> (-1, s)
      | Some n \<Rightarrow>
          (if length (p_nodes (s_pipeline s)) \<ge> MAX_PIPELINE_NODES then (-1, s)
           else
             (let s = s\<lparr>s_pipeline := (s_pipeline s)\<lparr>p_nodes := p_nodes (s_pipeline s) @ [n]\<rparr>\<rparr>;
                  s = set_node n ((the_node s n)\<lparr>n_should_exit := True\<rparr>) s
              in (0, sys_log INFO (''Node added to pipeline: '' @ name_of s n) s))))"

text \<open>The result of the two initialisations of \<open>init\<close> for the next queue.\<close>

definition next_init :: "Sys \<Rightarrow> (bool \<times> bool) \<times> Sys" where
  "next_init s =
     (case s_inits s of
        [] \<Rightarrow> ((True, True), s)
      | i # is \<Rightarrow> (i, s\<lparr>s_inits := is\<rparr>))"

definition pipeline_create_queue :: "Sys \<Rightarrow> qid option \<times> Sys" where
  "pipeline_create_queue s =
     (if length (p_queues (s_pipeline s)) \<ge> MAX_PIPELINE_QUEUES then (None, s)
      else
        (let (ok, m) = calloc (s_mem s); s = s\<lparr>s_mem := m\<rparr> in
         if \<not> ok then (None, s)
         else
           (let ((mutex_ok, cond_ok), s) = next_init s;
                (r, Q) = queue_init mutex_ok cond_ok (s_garbage s (s_fresh_qid s))
            in if r \<noteq> 0 then (None, s\<lparr>s_mem := free (s_mem s)\<rparr>)
               else
                 (let q = s_fresh_qid s in
                  (Some q, s\<lparr>s_pipeline := (s_pipeline s)\<lparr>p_queues := p_queues (s_pipeline s) @ [q]\<rparr>,
                             s_world := set_queue q Q (s_world s), s_fresh_qid := q + 1\<rparr>)))))"

text \<open>The second half of \<open>pipeline_connect\<close>: the queue becomes an output of the source.\<close>

definition connect_output :: "nid \<Rightarrow> nid \<Rightarrow> qid \<Rightarrow> Sys \<Rightarrow> int \<times> Sys" where
  "connect_output from to queue s =
     (let (r, node) = node_add_output (the_node s from) (Some queue) in
      if r \<noteq> 0 then (-1, sys_log ERROR (''Failed to add output to node: '' @ name_of s from) s)
      else
        (let s = set_node from node s in
         (0, sys_log INFO (''Connected: '' @ name_of s from @ '' -> '' @ name_of s to) s)))"

definition pipeline_connect :: "nid option \<Rightarrow> nid option \<Rightarrow> Sys \<Rightarrow> int \<times> Sys" where
  "pipeline_connect from to s =
     (case (from, to) of
        (Some from, Some to) \<Rightarrow>
          (case n_input (the_node s to) of
             Some queue \<Rightarrow>
               connect_output from to queue
                 (sys_log INFO (''Reusing existing queue for: '' @ name_of s from @ '' -> '' @ name_of s to) s)
           | None \<Rightarrow>
               (let (queue, s) = pipeline_create_queue s in
                case queue of
                  None \<Rightarrow> (-1, sys_log ERROR ''Failed to create queue for connection'' s)
                | Some queue \<Rightarrow>
                    (let (r, node) = node_set_input (the_node s to) (Some queue) in
                     if r \<noteq> 0 then (-1, sys_log ERROR (''Failed to set input for node: '' @ name_of s to) s)
                     else connect_output from to queue (set_node to node s))))
      | _ \<Rightarrow> (-1, s))"

text \<open>The loop over the targets of a shared connection.\<close>

fun connect_targets :: "string \<Rightarrow> string \<Rightarrow> nid \<Rightarrow> nid option list \<Rightarrow> Sys \<Rightarrow> int \<times> Sys" where
  "connect_targets from_name dispatcher_name dispatcher [] s = (0, s)"
| "connect_targets from_name dispatcher_name dispatcher (None # ts) s =
     connect_targets from_name dispatcher_name dispatcher ts s"
| "connect_targets from_name dispatcher_name dispatcher (Some t # ts) s =
     (let (r, s) = pipeline_connect (Some dispatcher) (Some t) s in
      if r \<noteq> 0 then (-1, sys_log ERROR (''Failed to connect dispatcher to '' @ name_of s t) s)
      else connect_targets from_name dispatcher_name dispatcher ts
             (sys_log INFO (''Connected (shared via dispatcher): '' @ from_name @ '' -> '' @ dispatcher_name
                @ '' -> '' @ name_of s t) s))"

definition pipeline_connect_shared :: "nid option \<Rightarrow> nid option list option \<Rightarrow> Sys \<Rightarrow> int \<times> Sys" where
  "pipeline_connect_shared from to_nodes s =
     (case (from, to_nodes) of
        (Some from, Some to_nodes) \<Rightarrow>
          (if length to_nodes = 0 then (-1, s)
           else
             (let dispatcher_name = ''Disp_'' @ take 58 (name_of s from);
                  (dispatcher, m) = dispatcher_node_create (Some dispatcher_name) DISPATCH_ROUND_ROBIN (s_mem s);
                  s = s\<lparr>s_mem := m\<rparr>
              in case dispatcher of
                   None \<Rightarrow> (-1, sys_log ERROR ''Failed to create dispatcher node'' s)
                 | Some d \<Rightarrow>
                     (let (dispatcher, s) = alloc_node (as_node Dispatcher_context d) s;
                          (r, s) = pipeline_add_node (Some dispatcher) s
                      in if r \<noteq> 0
                         then (-1, sys_log ERROR ''Failed to add dispatcher to pipeline''
                                (s\<lparr>s_mem := node_destroy (Some (the_node s dispatcher)) (s_mem s),
                                   s_nodes := (s_nodes s)(dispatcher := None)\<rparr>))
                         else
                           (let (r, s) = pipeline_connect (Some from) (Some dispatcher) s in
                            if r \<noteq> 0
                            then (-1, sys_log ERROR (''Failed to connect '' @ name_of s from @ '' to dispatcher'') s)
                            else connect_targets (name_of s from) dispatcher_name dispatcher to_nodes s))))
      | _ \<Rightarrow> (-1, s))"

subsection \<open>Running and taking down\<close>

text \<open>\<open>creates\<close> are the results of \<open>pthread_create\<close> for the nodes in their order.\<close>

fun start_nodes :: "bool list \<Rightarrow> nid list \<Rightarrow> Sys \<Rightarrow> int \<times> Sys" where
  "start_nodes creates [] s = (0, sys_log INFO ''Pipeline started successfully'' s)"
| "start_nodes creates (n # ns) s =
     (let (ok, creates) = (case creates of [] \<Rightarrow> (True, []) | c # cs \<Rightarrow> (c, cs));
          (r, node, w) = node_start ok (the_node s n) (s_world s);
          s = (set_node n node s)\<lparr>s_world := w\<rparr>
      in if r \<noteq> 0 then (-1, sys_log ERROR (''Failed to start node: '' @ name_of s n) s)
         else start_nodes creates ns s)"

definition pipeline_start :: "bool list \<Rightarrow> Sys \<Rightarrow> int \<times> Sys" where
  "pipeline_start creates s =
     (let ns = p_nodes (s_pipeline s) in
      start_nodes creates ns
        (sys_log INFO (''Starting pipeline with '' @ dec (length ns) @ '' nodes'') s))"

text \<open>
  \<open>join n w\<close>: the world in which the thread of \<open>n\<close>, from the world \<open>w\<close> on, has ended;
  \<^const>\<open>None\<close>, that it does not end, makes \<open>pipeline_stop\<close> wait for ever. Signalling a
  queue changes no state.
\<close>

fun stop_nodes :: "(nid \<Rightarrow> world \<Rightarrow> world option) \<Rightarrow> nid list \<Rightarrow> Sys \<Rightarrow> Sys option" where
  "stop_nodes join [] s = Some s"
| "stop_nodes join (n # ns) s =
     (case node_stop (join n) (the_node s n) (s_world s) of
        None \<Rightarrow> None
      | Some w \<Rightarrow> stop_nodes join ns (s\<lparr>s_world := w\<rparr>))"

definition pipeline_stop :: "(nid \<Rightarrow> world \<Rightarrow> world option) \<Rightarrow> Sys \<Rightarrow> Sys option" where
  "pipeline_stop join s =
     (let s = sys_log INFO ''Stopping pipeline'' s;
          s = s\<lparr>s_world := (s_world s)\<lparr>w_exit := True\<rparr>\<rparr>
      in case stop_nodes join (p_nodes (s_pipeline s)) s of
           None \<Rightarrow> None
         | Some s \<Rightarrow> Some (sys_log INFO ''Pipeline stopped'' s))"

text \<open>
  \<open>on_heap\<close> tells whether the pipeline itself was allocated; releasing an object that was not
  has no defined effect, \<^const>\<open>None\<close>.
\<close>

definition destroy_queue :: "qid \<Rightarrow> Sys \<Rightarrow> Sys" where
  "destroy_queue q s =
     s\<lparr>s_world := (s_world s)\<lparr>w_queues := (w_queues (s_world s))(q := None)\<rparr>, s_mem := free (s_mem s)\<rparr>"

definition destroy_node :: "nid \<Rightarrow> Sys \<Rightarrow> Sys" where
  "destroy_node n s =
     s\<lparr>s_mem := node_destroy (Some (the_node s n)) (s_mem s), s_nodes := (s_nodes s)(n := None)\<rparr>"

definition pipeline_destroy :: "bool \<Rightarrow> Sys \<Rightarrow> Sys option" where
  "pipeline_destroy on_heap s =
     (let s = fold destroy_queue (p_queues (s_pipeline s)) s;
          s = fold destroy_node (p_nodes (s_pipeline s)) s;
          s = s\<lparr>s_mem := free (free (s_mem s))\<rparr>
      in if \<not> on_heap then None
         else Some (sys_log INFO ''Pipeline destroyed'' (s\<lparr>s_mem := free (s_mem s)\<rparr>)))"

subsection \<open>The invariant\<close>

definition node_ok :: "qid set \<Rightarrow> bool \<Rightarrow> 'c Node \<Rightarrow> bool" where
  "node_ok qs listed node \<longleftrightarrow>
     node_inv node \<and> set_option (n_input node) \<subseteq> qs \<and> set (targets node) \<subseteq> qs \<and> (listed \<longrightarrow> n_should_exit node)"

definition sys_inv :: "Sys \<Rightarrow> bool" where
  "sys_inv s \<longleftrightarrow>
     length (p_nodes (s_pipeline s)) \<le> MAX_PIPELINE_NODES \<and> distinct (p_nodes (s_pipeline s)) \<and>
     length (p_queues (s_pipeline s)) \<le> MAX_PIPELINE_QUEUES \<and> distinct (p_queues (s_pipeline s)) \<and>
     set (p_nodes (s_pipeline s)) \<subseteq> dom (s_nodes s) \<and>
     set (p_queues (s_pipeline s)) \<subseteq> dom (w_queues (s_world s)) \<and>
     world_inv (s_world s) \<and>
     (\<forall>n node. s_nodes s n = Some node \<longrightarrow>
        node_ok (set (p_queues (s_pipeline s))) (n \<in> set (p_nodes (s_pipeline s))) node) \<and>
     (\<forall>n \<ge> s_fresh_nid s. s_nodes s n = None) \<and>
     (\<forall>q \<ge> s_fresh_qid s. w_queues (s_world s) q = None) \<and>
     (\<forall>q. length (q_slots (s_garbage s q)) = Q_SIZE \<and>
        (\<forall>b\<in>set (q_slots (s_garbage s q)). length b = MAX_PKG_SIZE))"

lemma node_inv_as_node [simp]:
  "node_inv (as_node con n) = node_inv n" "targets (as_node con n) = targets n"
  "n_input (as_node con n) = n_input n" "n_name (as_node con n) = n_name n"
  "n_should_exit (as_node con n) = n_should_exit n"
  by (simp_all add: as_node_def node_inv_def targets_def)

lemma node_update_simps [simp]:
  "node_inv (n\<lparr>n_should_exit := b\<rparr>) = node_inv n" "targets (n\<lparr>n_should_exit := b\<rparr>) = targets n"
  "node_inv (n\<lparr>n_input := i\<rparr>) = node_inv n" "targets (n\<lparr>n_input := i\<rparr>) = targets n"
  "node_inv (n\<lparr>n_thread := b\<rparr>) = node_inv n" "targets (n\<lparr>n_thread := b\<rparr>) = targets n"
  by (simp_all add: node_inv_def targets_def)

lemma sys_simps [simp]:
  "s_nodes (sys_log ty t s) = s_nodes s" "s_pipeline (sys_log ty t s) = s_pipeline s"
  "the_node (sys_log ty t s) n = the_node s n" "s_mem (sys_log ty t s) = s_mem s"
  "s_pipeline (set_node n node s) = s_pipeline s" "s_world (set_node n node s) = s_world s"
  "s_nodes (set_node n node s) = (s_nodes s)(n \<mapsto> node)"
  "the_node (set_node n node s) m = (if m = n then node else the_node s m)"
  "s_mem (set_node n node s) = s_mem s"
  by (simp_all add: sys_log_def set_node_def the_node_def)

lemma sys_inv_log [simp]: "sys_inv (sys_log ty t s) = sys_inv s"
  by (simp add: sys_inv_def sys_log_def)

lemma sys_inv_mem [simp]: "sys_inv (s\<lparr>s_mem := m\<rparr>) = sys_inv s" "sys_inv (s\<lparr>s_inits := is\<rparr>) = sys_inv s"
  by (simp_all add: sys_inv_def)

lemma the_node: "n \<in> dom (s_nodes s) \<Longrightarrow> s_nodes s n = Some (the_node s n)"
  by (auto simp: the_node_def)

lemma sys_inv_node: "sys_inv s \<Longrightarrow> n \<in> dom (s_nodes s) \<Longrightarrow>
    node_ok (set (p_queues (s_pipeline s))) (n \<in> set (p_nodes (s_pipeline s))) (the_node s n)"
  using the_node [of n s] by (auto simp: sys_inv_def)

lemma sys_inv_set_node:
  assumes "sys_inv s" "n \<in> dom (s_nodes s)"
    and "node_ok (set (p_queues (s_pipeline s))) (n \<in> set (p_nodes (s_pipeline s))) node"
  shows "sys_inv (set_node n node s)"
proof -
  have "n < s_fresh_nid s" using assms(1,2) by (metis domIff linorder_not_less sys_inv_def)
  then show ?thesis
    using assms by (auto simp: sys_inv_def set_node_def)
qed

lemma sys_inv_alloc:
  assumes "sys_inv s" "node_ok (set (p_queues (s_pipeline s))) False node"
  shows "sys_inv (snd (alloc_node node s))" "fst (alloc_node node s) = s_fresh_nid s"
    "s_nodes (snd (alloc_node node s)) = (s_nodes s)(s_fresh_nid s \<mapsto> node)"
    "s_pipeline (snd (alloc_node node s)) = s_pipeline s" "s_world (snd (alloc_node node s)) = s_world s"
    "s_fresh_nid s \<notin> set (p_nodes (s_pipeline s))" "s_fresh_nid s \<notin> dom (s_nodes s)"
proof -
  show f: "s_fresh_nid s \<notin> dom (s_nodes s)" using assms(1) by (auto simp: sys_inv_def)
  then show g: "s_fresh_nid s \<notin> set (p_nodes (s_pipeline s))" using assms(1) by (auto simp: sys_inv_def)
  show "sys_inv (snd (alloc_node node s))" using assms f g by (auto simp: sys_inv_def alloc_node_def)
qed (simp_all add: alloc_node_def)

lemma pipeline_add_node_inv:
  assumes "sys_inv s" "n \<in> dom (s_nodes s)" "n \<notin> set (p_nodes (s_pipeline s))"
  shows "if length (p_nodes (s_pipeline s)) < 32
    then \<exists>s'. pipeline_add_node (Some n) s = (0, s') \<and> sys_inv s' \<and>
      p_nodes (s_pipeline s') = p_nodes (s_pipeline s) @ [n] \<and> p_queues (s_pipeline s') = p_queues (s_pipeline s) \<and>
      s_nodes s' = (s_nodes s)(n \<mapsto> (the_node s n)\<lparr>n_should_exit := True\<rparr>) \<and> s_mem s' = s_mem s
    else pipeline_add_node (Some n) s = (-1, s)"
proof (cases "length (p_nodes (s_pipeline s)) < 32")
  case True
  let ?n = "(the_node s n)\<lparr>n_should_exit := True\<rparr>"
  let ?s = "set_node n ?n (s\<lparr>s_pipeline := (s_pipeline s)\<lparr>p_nodes := p_nodes (s_pipeline s) @ [n]\<rparr>\<rparr>)"
  have ok: "node_ok (set (p_queues (s_pipeline s))) True ?n"
    using sys_inv_node [OF assms(1,2)] by (simp add: node_ok_def)
  have lt: "n < s_fresh_nid s" using assms(1,2) by (metis domIff linorder_not_less sys_inv_def)
  have "sys_inv ?s" using assms ok lt True by (auto simp: sys_inv_def set_node_def MAX_PIPELINE_NODES_def)
  moreover have "pipeline_add_node (Some n) s = (0, sys_log INFO (''Node added to pipeline: '' @ name_of ?s n) ?s)"
    using True by (simp add: pipeline_add_node_def MAX_PIPELINE_NODES_def Let_def the_node_def)
  ultimately show ?thesis using True by simp
qed (simp add: pipeline_add_node_def MAX_PIPELINE_NODES_def)

lemma node_ok_insert: "node_ok qs b n \<Longrightarrow> node_ok (insert q qs) b n"
  by (auto simp: node_ok_def)

lemma pipeline_create_queue_inv:
  assumes "sys_inv s" "pipeline_create_queue s = (res, s')"
  shows "sys_inv s' \<and> s_nodes s' = s_nodes s \<and> p_nodes (s_pipeline s') = p_nodes (s_pipeline s) \<and>
    (case res of
       None \<Rightarrow> p_queues (s_pipeline s') = p_queues (s_pipeline s) \<and> s_world s' = s_world s
     | Some q \<Rightarrow> p_queues (s_pipeline s') = p_queues (s_pipeline s) @ [q] \<and> q = s_fresh_qid s \<and>
         q \<notin> set (p_queues (s_pipeline s)) \<and> packets (s_world s') q = [] \<and>
         (\<forall>p. p \<noteq> q \<longrightarrow> w_queues (s_world s') p = w_queues (s_world s) p))"
proof (cases "length (p_queues (s_pipeline s)) \<ge> MAX_PIPELINE_QUEUES")
  case True
  then show ?thesis using assms by (auto simp: pipeline_create_queue_def)
next
  case False
  obtain ok m where c: "calloc (s_mem s) = (ok, m)" by (cases "calloc (s_mem s)")
  obtain i s1 where n: "next_init (s\<lparr>s_mem := m\<rparr>) = (i, s1)" by (cases "next_init (s\<lparr>s_mem := m\<rparr>)")
  have s1: "sys_inv s1" "s_nodes s1 = s_nodes s" "s_pipeline s1 = s_pipeline s" "s_world s1 = s_world s"
    "s_garbage s1 = s_garbage s" "s_fresh_qid s1 = s_fresh_qid s" "s_fresh_nid s1 = s_fresh_nid s"
    using n assms(1) by (auto simp: next_init_def split: list.splits)
  obtain r Q where q: "queue_init (fst i) (snd i) (s_garbage s (s_fresh_qid s)) = (r, Q)"
    by (cases "queue_init (fst i) (snd i) (s_garbage s (s_fresh_qid s))")
  show ?thesis
  proof (cases "ok \<and> r = 0")
    case True
    then have i: "fst i" "snd i" using q by (auto simp: queue_init_def split: if_splits)
    have Q: "queue_inv Q" "content Q = []"
      using queue_init_inv [of "s_garbage s (s_fresh_qid s)"] q i assms(1) by (auto simp: sys_inv_def)
    have fresh: "w_queues (s_world s) (s_fresh_qid s) = None" using assms(1) by (auto simp: sys_inv_def)
    then have nq: "s_fresh_qid s \<notin> set (p_queues (s_pipeline s))" using assms(1) by (auto simp: sys_inv_def)
    have s': "res = Some (s_fresh_qid s)" "s' = s1\<lparr>s_pipeline := (s_pipeline s)\<lparr>p_queues := p_queues (s_pipeline s) @ [s_fresh_qid s]\<rparr>,
        s_world := set_queue (s_fresh_qid s) Q (s_world s), s_fresh_qid := s_fresh_qid s + 1\<rparr>"
      using assms(2) False c n q True s1 by (auto simp: pipeline_create_queue_def Let_def split: prod.splits)
    have "sys_inv s'"
      using s1(1) Q nq False unfolding s'(2) sys_inv_def by (auto simp: s1 intro: node_ok_insert)
    then show ?thesis
      using s' s1 Q nq by (simp add: packets_def)
  next
    case False
    then show ?thesis
      using assms \<open>\<not> MAX_PIPELINE_QUEUES \<le> length (p_queues (s_pipeline s))\<close> c n q s1
      by (auto simp: pipeline_create_queue_def Let_def split: prod.splits if_splits)
  qed
qed

lemma sys_world_log [simp]:
  "w_queues (s_world (sys_log ty t s)) = w_queues (s_world s)" "w_exit (s_world (sys_log ty t s)) = w_exit (s_world s)"
  "packets (s_world (sys_log ty t s)) q = packets (s_world s) q"
  by (simp_all add: sys_log_def)

text \<open>What connecting never changes in a node.\<close>

definition core :: "Context Node \<Rightarrow> string \<times> NodeType \<times> node_process_func \<times> Context option \<times> bool" where
  "core n = (n_name n, n_type n, n_process n, n_context n, n_should_exit n)"

lemma core_simps [simp]:
  "core (snd (node_add_output n q)) = core n" "core (n\<lparr>n_input := i\<rparr>) = core n"
  by (simp_all add: core_def node_add_output_def)

lemma connect_output_inv:
  assumes "sys_inv s" "from \<in> dom (s_nodes s)" "q \<in> set (p_queues (s_pipeline s))"
    and "connect_output from to q s = (r, s')"
  shows "sys_inv s' \<and> s_pipeline s' = s_pipeline s \<and> w_queues (s_world s') = w_queues (s_world s) \<and>
    dom (s_nodes s') = dom (s_nodes s) \<and> (\<forall>n. n_input (the_node s' n) = n_input (the_node s n)) \<and>
    (\<forall>n. n \<noteq> from \<longrightarrow> the_node s' n = the_node s n) \<and> (\<forall>n. core (the_node s' n) = core (the_node s n)) \<and>
    (if length (targets (the_node s from)) < 16
     then r = 0 \<and> targets (the_node s' from) = targets (the_node s from) @ [q]
     else r = -1 \<and> the_node s' from = the_node s from)"
proof -
  let ?n = "snd (node_add_output (the_node s from) (Some q))"
  note ok = sys_inv_node [OF assms(1,2)]
  have inv: "node_inv (the_node s from)" using ok by (simp add: node_ok_def)
  note f = add_output_facts [OF inv, of "Some q"]
  have le: "length (targets (the_node s from)) \<le> 16"
    using inv length_targets [OF inv] by (simp add: node_inv_def MAX_NODE_OUTPUTS_def)
  have "node_ok (set (p_queues (s_pipeline s))) (from \<in> set (p_nodes (s_pipeline s))) ?n"
    using ok f assms(3) by (auto simp: node_ok_def add_output_keeps)
  then have i: "sys_inv (set_node from ?n s)" using sys_inv_set_node [OF assms(1,2)] by simp
  show ?thesis
  proof (cases "length (targets (the_node s from)) < 16")
    case True
    then have "fst (node_add_output (the_node s from) (Some q)) = 0" using f by simp
    then have "r = 0" "s' = sys_log INFO (''Connected: '' @ name_of (set_node from ?n s) from @ '' -> '' @ name_of (set_node from ?n s) to) (set_node from ?n s)"
      using assms(4) by (auto simp: connect_output_def Let_def split: prod.splits)
    then show ?thesis using i f True assms(2) by (auto simp: add_output_keeps)
  next
    case False
    then have "fst (node_add_output (the_node s from) (Some q)) = -1" using f le by simp
    then have "r = -1" "\<exists>t. s' = sys_log ERROR t s"
      using assms(4) by (auto simp: connect_output_def Let_def split: prod.splits)
    then show ?thesis using False assms(1) by auto
  qed
qed

lemma connect_inv:
  assumes "sys_inv s" "from \<in> dom (s_nodes s)" "to \<in> dom (s_nodes s)"
    and "pipeline_connect (Some from) (Some to) s = (r, s')"
  shows "sys_inv s' \<and> p_nodes (s_pipeline s') = p_nodes (s_pipeline s) \<and> dom (s_nodes s') = dom (s_nodes s) \<and>
    set (p_queues (s_pipeline s)) \<subseteq> set (p_queues (s_pipeline s')) \<and>
    (\<forall>q \<in> set (p_queues (s_pipeline s)). w_queues (s_world s') q = w_queues (s_world s) q) \<and>
    (\<forall>n. core (the_node s' n) = core (the_node s n)) \<and>
    (\<forall>n. n \<noteq> to \<longrightarrow> n_input (the_node s' n) = n_input (the_node s n)) \<and>
    (\<forall>n. n \<noteq> from \<longrightarrow> targets (the_node s' n) = targets (the_node s n)) \<and>
    (\<forall>q. n_input (the_node s to) = Some q \<longrightarrow> n_input (the_node s' to) = Some q \<and> p_queues (s_pipeline s') = p_queues (s_pipeline s)) \<and>
    (if r = 0
     then \<exists>q. n_input (the_node s' to) = Some q \<and> targets (the_node s' from) = targets (the_node s from) @ [q] \<and>
       (n_input (the_node s to) = None \<longrightarrow> q \<notin> set (p_queues (s_pipeline s)) \<and> packets (s_world s') q = [] \<and>
          p_queues (s_pipeline s') = p_queues (s_pipeline s) @ [q])
     else r = -1 \<and> targets (the_node s' from) = targets (the_node s from))"
proof (cases "n_input (the_node s to)")
  case (Some q)
  define s0 where "s0 = sys_log INFO (''Reusing existing queue for: '' @ name_of s from @ '' -> '' @ name_of s to) s"
  have s0: "sys_inv s0" "from \<in> dom (s_nodes s0)" "s_pipeline s0 = s_pipeline s" "s_nodes s0 = s_nodes s"
    "the_node s0 n = the_node s n" "w_queues (s_world s0) = w_queues (s_world s)" for n
    using assms(1,2) by (simp_all add: s0_def)
  have q: "q \<in> set (p_queues (s_pipeline s0))"
    using sys_inv_node [OF assms(1,3)] Some s0(3) by (simp add: node_ok_def)
  have e: "connect_output from to q s0 = (r, s')"
    using assms(4) Some by (simp add: pipeline_connect_def s0_def)
  note o = connect_output_inv [OF s0(1,2) q e]
  have tf: "\<forall>n. n \<noteq> from \<longrightarrow> targets (the_node s' n) = targets (the_node s n)" using o s0(5) by metis
  have co: "\<forall>n. core (the_node s' n) = core (the_node s n)" using o s0(5) by metis
  have ni: "\<forall>n. n_input (the_node s' n) = n_input (the_node s n)" using o s0(5) by metis
  show ?thesis
  proof (cases "length (targets (the_node s from)) < 16")
    case True
    then have "r = 0" "targets (the_node s' from) = targets (the_node s from) @ [q]" using o s0(5) by simp_all
    then show ?thesis using o s0 tf ni co Some by auto
  next
    case False
    then have "r = -1" "targets (the_node s' from) = targets (the_node s from)" using o s0(5) by simp_all
    then show ?thesis using o s0 tf ni co Some by auto
  qed
next
  case None
  obtain qo s1 where c: "pipeline_create_queue s = (qo, s1)" by (cases "pipeline_create_queue s")
  note c1 = pipeline_create_queue_inv [OF assms(1) c]
  have tn: "the_node s1 n = the_node s n" for n using c1 by (simp add: the_node_def)
  show ?thesis
  proof (cases qo)
    case None
    then have "r = -1" "s' = sys_log ERROR ''Failed to create queue for connection'' s1"
      using assms(4) c \<open>n_input (the_node s to) = None\<close> by (simp_all add: pipeline_connect_def)
    then show ?thesis
      using c1 None \<open>n_input (the_node s to) = None\<close> tn by simp
  next
    case (Some q)
    let ?n = "(the_node s to)\<lparr>n_input := Some q\<rparr>"
    define s2 where "s2 = set_node to ?n s1"
    have d1: "to \<in> dom (s_nodes s1)" "from \<in> dom (s_nodes s2)" using c1 assms(2,3) by (auto simp: s2_def)
    have i2: "sys_inv s2"
      unfolding s2_def using sys_inv_node [OF assms(1,3)] c1 Some d1
      by (intro sys_inv_set_node) (auto simp: node_ok_def)
    have e: "connect_output from to q s2 = (r, s')"
      using assms(4) c Some \<open>n_input (the_node s to) = None\<close> tn
      by (simp add: pipeline_connect_def node_set_input_def s2_def)
    have q: "q \<in> set (p_queues (s_pipeline s2))" using c1 Some by (simp add: s2_def)
    note o = connect_output_inv [OF i2 d1(2) q e]
    have t2: "targets (the_node s2 n) = targets (the_node s n)" for n by (simp add: s2_def tn)
    have n2: "n_input (the_node s2 n) = (if n = to then Some q else n_input (the_node s n))" for n
      by (simp add: s2_def tn)
    have p2: "s_pipeline s2 = s_pipeline s1" "s_world s2 = s_world s1" "dom (s_nodes s2) = dom (s_nodes s1)"
      using d1(1) by (auto simp: s2_def)
    have pk: "packets (s_world s') q = packets (s_world s1) q" using o p2 by (simp add: packets_def)
    have tf: "\<forall>n. n \<noteq> from \<longrightarrow> targets (the_node s' n) = targets (the_node s n)" using o t2 by metis
    have "core (the_node s2 n) = core (the_node s n)" for n by (simp add: s2_def tn)
    then have co: "\<forall>n. core (the_node s' n) = core (the_node s n)" using o by metis
    have ni: "\<forall>n. n_input (the_node s' n) = (if n = to then Some q else n_input (the_node s n))" using o n2 by metis
    have wq: "w_queues (s_world s1) p = w_queues (s_world s) p" if "p \<in> set (p_queues (s_pipeline s))" for p
    proof -
      have "p \<noteq> q" using c1 Some that by auto
      then show ?thesis using c1 Some by simp
    qed
    have o': "sys_inv s'" "s_pipeline s' = s_pipeline s1" "w_queues (s_world s') = w_queues (s_world s1)"
      "dom (s_nodes s') = dom (s_nodes s)"
      using o p2 c1 by simp_all
    show ?thesis
    proof (cases "length (targets (the_node s from)) < 16")
      case True
      then have "r = 0" "targets (the_node s' from) = targets (the_node s from) @ [q]" using o t2 by simp_all
      then show ?thesis using o' c1 Some pk tf ni wq co by (auto simp: \<open>n_input (the_node s to) = None\<close>)
    next
      case False
      then have "r = -1" "targets (the_node s' from) = targets (the_node s from)" using o t2 by simp_all
      then show ?thesis using o' c1 Some pk tf ni wq co by (auto simp: \<open>n_input (the_node s to) = None\<close>)
    qed
  qed
qed


lemma connect_keeps:
  assumes "sys_inv s" "from \<in> dom (s_nodes s)" "to \<in> dom (s_nodes s)"
    and "pipeline_connect (Some from) (Some to) s = (r, s')"
  shows "n_input (the_node s n) = Some q \<Longrightarrow> n_input (the_node s' n) = Some q"
  using connect_inv [OF assms] by (cases "n = to") auto

text \<open>The nodes among the entries of an array of targets.\<close>

definition somes :: "'a option list \<Rightarrow> 'a list" where
  "somes ts = List.map_filter (\<lambda>t. t) ts"

lemma somes_simps [simp]: "somes [] = []" "somes (None # ts) = somes ts" "somes (Some t # ts) = t # somes ts"
  by (simp_all add: somes_def map_filter_simps)

lemma connect_targets_inv:
  assumes "sys_inv s" "d \<in> dom (s_nodes s)" "set (somes ts) \<subseteq> dom (s_nodes s)"
    and "connect_targets fn dn d ts s = (r, s')"
  shows "sys_inv s' \<and> p_nodes (s_pipeline s') = p_nodes (s_pipeline s) \<and> dom (s_nodes s') = dom (s_nodes s) \<and>
    (\<forall>n. core (the_node s' n) = core (the_node s n)) \<and>
    (\<forall>n. n \<notin> set (somes ts) \<longrightarrow> n_input (the_node s' n) = n_input (the_node s n)) \<and>
    (\<forall>n q. n_input (the_node s n) = Some q \<longrightarrow> n_input (the_node s' n) = Some q) \<and>
    (\<forall>n. n \<noteq> d \<longrightarrow> targets (the_node s' n) = targets (the_node s n)) \<and>
    (if r = 0
     then \<exists>qs. targets (the_node s' d) = targets (the_node s d) @ qs \<and>
       map (\<lambda>t. n_input (the_node s' t)) (somes ts) = map Some qs
     else r = -1)"
  using assms
proof (induction fn dn d ts s rule: connect_targets.induct)
  case (1 fn dn d s)
  then show ?case by simp
next
  case (2 fn dn d ts s)
  then show ?case by simp
next
  case (3 fn dn d t ts s)
  obtain r1 s1 where c: "pipeline_connect (Some d) (Some t) s = (r1, s1)" by (cases "pipeline_connect (Some d) (Some t) s")
  have td: "t \<in> dom (s_nodes s)" using "3.prems"(3) by simp
  note c1 = connect_inv [OF "3.prems"(1,2) td c]
  note k1 = connect_keeps [OF "3.prems"(1,2) td c]
  show ?case
  proof (cases "r1 = 0")
    case False
    then obtain m where "r = -1" "s' = sys_log ERROR m s1" using "3.prems"(4) c by auto
    then show ?thesis using c1 k1 by simp
  next
    case True
    define s2 where "s2 = sys_log INFO (''Connected (shared via dispatcher): '' @ fn @ '' -> '' @ dn
                @ '' -> '' @ name_of s1 t) s1"
    have s2: "sys_inv s2" "s_pipeline s2 = s_pipeline s1" "s_nodes s2 = s_nodes s1" "the_node s2 n = the_node s1 n" for n
      using c1 by (simp_all add: s2_def)
    have e: "connect_targets fn dn d ts s2 = (r, s')" using "3.prems"(4) c True by (simp add: s2_def)
    have d2: "d \<in> dom (s_nodes s2)" "set (somes ts) \<subseteq> dom (s_nodes s2)"
      using s2(3) c1 "3.prems"(2,3) by auto
    note ih = "3.IH" [OF c [symmetric] refl _ s2(1) [unfolded s2_def] d2 [unfolded s2_def] e [unfolded s2_def], folded s2_def]
    note i = ih [unfolded s2(4)]
    obtain q where q: "n_input (the_node s1 t) = Some q" "targets (the_node s1 d) = targets (the_node s d) @ [q]"
      using c1 True by auto
    have inp: "n_input (the_node s' n) = n_input (the_node s n)" if "n \<noteq> t" "n \<notin> set (somes ts)" for n
      using that i c1 True by auto
    have keep: "n_input (the_node s' n) = Some p" if "n_input (the_node s n) = Some p" for n p
      using that k1 i True by blast
    have it: "n_input (the_node s' t) = Some q" using i q(1) True by blast
    have last: "if r = 0 then \<exists>qs. targets (the_node s' d) = targets (the_node s d) @ qs \<and>
        map (\<lambda>t. n_input (the_node s' t)) (somes (Some t # ts)) = map Some qs else r = -1"
    proof (cases "r = 0")
      case True
      then obtain qs where "targets (the_node s' d) = targets (the_node s1 d) @ qs"
        "map (\<lambda>t. n_input (the_node s' t)) (somes ts) = map Some qs" using i \<open>r1 = 0\<close> by auto
      then show ?thesis using q(2) it True by (intro if_P [THEN iffD2] exI [of _ "q # qs"]) simp_all
    qed (use i True in simp)
    have dm: "dom (s_nodes s') = dom (s_nodes s)" using i c1 True s2(3) by simp
    have "sys_inv s'" "p_nodes (s_pipeline s') = p_nodes (s_pipeline s)" "\<forall>n. core (the_node s' n) = core (the_node s n)"
      "\<forall>n. n \<noteq> d \<longrightarrow> targets (the_node s' n) = targets (the_node s n)"
      using i c1 True s2(2) by simp_all
    then show ?thesis
      using last dm inp keep by simp
  qed
qed

lemma dispatcher_create_spec:
  assumes "dispatcher_node_create (Some nm) strat m = (res, m')"
  shows "case res of
      None \<Rightarrow> m_live m' = m_live m
    | Some n \<Rightarrow> m_live m' = m_live m + 3 \<and> node_inv n \<and> n_input n = None \<and> targets n = [] \<and>
        n_process n = Dispatcher_process \<and>
        n_context n = Some \<lparr>strategy = strat, next_index = 0, packets_sent = 0\<rparr>"
proof -
  obtain ok m1 where c: "calloc m = (ok, m1)" by (cases "calloc m")
  note l1 = calloc_live [OF c]
  show ?thesis
  proof (cases ok)
    case True
    let ?ctx = "\<lparr>strategy = strat, next_index = 0, packets_sent = 0\<rparr>"
    obtain nd m2 where n: "node_create (Some nm) NODE_TYPE_CUSTOM (Some Dispatcher_process) (Some ?ctx) m1 = (nd, m2)"
      by (cases "node_create (Some nm) NODE_TYPE_CUSTOM (Some Dispatcher_process) (Some ?ctx) m1")
    show ?thesis
      using assms True c n l1 node_create_spec [OF n] node_create_live [OF n]
      by (cases nd) (auto simp: dispatcher_node_create_def)
  qed (use assms c l1 in \<open>auto simp: dispatcher_node_create_def\<close>)
qed

lemma sys_inv_drop_node:
  assumes "sys_inv s" "n \<notin> set (p_nodes (s_pipeline s))"
  shows "sys_inv (s\<lparr>s_mem := m, s_nodes := (s_nodes s)(n := None)\<rparr>)"
  using assms by (auto simp: sys_inv_def)

lemma connect_shared_inv:
  assumes "sys_inv s" "from \<in> dom (s_nodes s)" "set (somes ts) \<subseteq> dom (s_nodes s)"
    and "pipeline_connect_shared (Some from) (Some ts) s = (r, s')"
  shows "sys_inv s' \<and> dom (s_nodes s) \<subseteq> dom (s_nodes s') \<and>
    (\<forall>n \<in> dom (s_nodes s). core (the_node s' n) = core (the_node s n)) \<and>
    (\<forall>n \<in> dom (s_nodes s). \<forall>q. n_input (the_node s n) = Some q \<longrightarrow> n_input (the_node s' n) = Some q) \<and>
    (\<forall>n \<in> dom (s_nodes s). n \<notin> set (somes ts) \<longrightarrow> n_input (the_node s' n) = n_input (the_node s n)) \<and>
    (\<forall>n \<in> dom (s_nodes s). n \<noteq> from \<longrightarrow> targets (the_node s' n) = targets (the_node s n)) \<and>
    (if r = 0
     then \<exists>d q qs. d \<notin> dom (s_nodes s) \<and> d \<in> dom (s_nodes s') \<and>
       p_nodes (s_pipeline s') = p_nodes (s_pipeline s) @ [d] \<and>
       n_context (the_node s' d) = Some (Dispatcher_context
         \<lparr>strategy = DISPATCH_ROUND_ROBIN, next_index = 0, packets_sent = 0\<rparr>) \<and>
       targets (the_node s' from) = targets (the_node s from) @ [q] \<and> n_input (the_node s' d) = Some q \<and>
       targets (the_node s' d) = qs \<and> map (\<lambda>t. n_input (the_node s' t)) (somes ts) = map Some qs
     else r = -1)"
proof (cases "ts = []")
  case True
  then show ?thesis using assms by (simp add: pipeline_connect_shared_def)
next
  case False
  define dn where "dn = ''Disp_'' @ take 58 (name_of s from)"
  obtain disp m where dc: "dispatcher_node_create (Some dn) DISPATCH_ROUND_ROBIN (s_mem s) = (disp, m)"
    by (cases "dispatcher_node_create (Some dn) DISPATCH_ROUND_ROBIN (s_mem s)")
  note ds = dispatcher_create_spec [OF dc]
  show ?thesis
  proof (cases disp)
    case None
    then have "r = -1" "s' = sys_log ERROR ''Failed to create dispatcher node'' (s\<lparr>s_mem := m\<rparr>)"
      using assms(4) False dc by (simp_all add: pipeline_connect_shared_def dn_def)
    then show ?thesis using assms(1) by (simp add: the_node_def)
  next
    case (Some dnode)
    define s0 where "s0 = s\<lparr>s_mem := m\<rparr>"
    define nd where "nd = as_node Dispatcher_context dnode"
    define d where "d = s_fresh_nid s"
    define s1 where "s1 = snd (alloc_node nd s0)"
    have ok: "node_ok (set (p_queues (s_pipeline s0))) False nd"
      using ds Some by (simp add: node_ok_def nd_def)
    have s0: "sys_inv s0" "s_fresh_nid s0 = d" "s_nodes s0 = s_nodes s" "s_pipeline s0 = s_pipeline s"
      using assms(1) by (simp_all add: s0_def d_def)
    note al = sys_inv_alloc [OF s0(1) ok, folded s1_def, unfolded s0]
    have a: "alloc_node nd s0 = (d, s1)" using al(2) by (simp add: s1_def prod_eq_iff)
    have tn1: "the_node s1 n = the_node s n" if "n \<in> dom (s_nodes s)" for n
      using that al(3,7) by (auto simp: the_node_def)
    have d1: "d \<in> dom (s_nodes s1)" "d \<notin> set (p_nodes (s_pipeline s1))" "the_node s1 d = nd"
      using al(3,4,6) by (auto simp: the_node_def)
    note ad = pipeline_add_node_inv [OF al(1) d1(1,2)]
    show ?thesis
    proof (cases "length (p_nodes (s_pipeline s1)) < 32")
      case False
      then have ad': "pipeline_add_node (Some d) s1 = (-1, s1)" using ad by simp
      define s2 where "s2 = s1\<lparr>s_mem := node_destroy (Some (the_node s1 d)) (s_mem s1), s_nodes := (s_nodes s1)(d := None)\<rparr>"
      have "r = -1" "s' = sys_log ERROR ''Failed to add dispatcher to pipeline'' s2"
        using assms(4) \<open>ts \<noteq> []\<close> dc Some a ad' by (simp_all add: pipeline_connect_shared_def dn_def nd_def s0_def s2_def)
      moreover have "sys_inv s2" unfolding s2_def by (rule sys_inv_drop_node [OF al(1) d1(2)])
      moreover have "s_nodes s2 = s_nodes s" using al(3,7) by (auto simp: s2_def fun_eq_iff domIff)
      ultimately show ?thesis by (simp add: the_node_def)
    next
      case True
      then obtain s2 where s2: "pipeline_add_node (Some d) s1 = (0, s2)" "sys_inv s2"
          "p_nodes (s_pipeline s2) = p_nodes (s_pipeline s) @ [d]"
          "s_nodes s2 = (s_nodes s1)(d \<mapsto> (the_node s1 d)\<lparr>n_should_exit := True\<rparr>)"
        using ad al(4) by auto
      have dom2: "dom (s_nodes s2) = insert d (dom (s_nodes s))" using s2(4) al(3) by auto
      have tn2: "the_node s2 n = the_node s n" if "n \<in> dom (s_nodes s)" for n
        using that s2(4) tn1 [OF that] al(7) by (auto simp: the_node_def)
      have td2: "the_node s2 d = nd\<lparr>n_should_exit := True\<rparr>" using s2(4) d1(3) by (simp add: the_node_def)
      have dd2: "from \<in> dom (s_nodes s2)" "d \<in> dom (s_nodes s2)" using dom2 assms(2) by auto
      have dfrom: "d \<noteq> from" "d \<notin> set (somes ts)" using al(7) assms(2,3) by auto
      obtain r3 s3 where c: "pipeline_connect (Some from) (Some d) s2 = (r3, s3)"
        by (cases "pipeline_connect (Some from) (Some d) s2")
      note c3 = connect_inv [OF s2(2) dd2 c]
      note k3 = connect_keeps [OF s2(2) dd2 c]
      have n3: "n_input (the_node s3 n) = n_input (the_node s n)" "core (the_node s3 n) = core (the_node s n)"
        if "n \<in> dom (s_nodes s)" for n
        using that c3 tn2 [OF that] al(7) by auto
      have t3: "targets (the_node s3 n) = targets (the_node s n)" if "n \<in> dom (s_nodes s)" "n \<noteq> from" for n
        using that c3 tn2 [OF that(1)] by auto
      have sub3: "dom (s_nodes s) \<subseteq> dom (s_nodes s3)" using c3 dom2 by auto
      show ?thesis
      proof (cases "r3 = 0")
        case False
        then obtain t where "r = -1" "s' = sys_log ERROR t s3"
          using assms(4) \<open>ts \<noteq> []\<close> dc Some a s2(1) c
          by (auto simp: pipeline_connect_shared_def dn_def nd_def s0_def)
        then show ?thesis using c3 n3 t3 sub3 by simp
      next
        case True
        have e: "connect_targets (name_of s3 from) dn d ts s3 = (r, s')"
          using assms(4) \<open>ts \<noteq> []\<close> dc Some a s2(1) c True
          by (auto simp: pipeline_connect_shared_def dn_def nd_def s0_def)
        have d3: "sys_inv s3" "d \<in> dom (s_nodes s3)" "set (somes ts) \<subseteq> dom (s_nodes s3)"
          using c3 dom2 sub3 assms(3) by auto
        note i = connect_targets_inv [OF d3 e]
        obtain q where q: "n_input (the_node s3 d) = Some q" "targets (the_node s3 from) = targets (the_node s2 from) @ [q]"
          using c3 True by auto
        have td3: "targets (the_node s3 d) = []" "n_context (the_node s3 d) = n_context nd"
          using c3 dfrom(1) td2 ds Some by (auto simp: nd_def core_def)
        have ctx: "n_context nd = Some (Dispatcher_context \<lparr>strategy = DISPATCH_ROUND_ROBIN, next_index = 0, packets_sent = 0\<rparr>)"
          using ds Some by (simp add: nd_def as_node_def)
        have keep: "n_input (the_node s' n) = Some p" if "n \<in> dom (s_nodes s)" "n_input (the_node s n) = Some p" for n p
          using that n3(1) i by simp
        have inp: "n_input (the_node s' n) = n_input (the_node s n)" if "n \<in> dom (s_nodes s)" "n \<notin> set (somes ts)" for n
          using that n3(1) i by simp
        have tg: "targets (the_node s' n) = targets (the_node s n)" if "n \<in> dom (s_nodes s)" "n \<noteq> from" for n
        proof -
          have "n \<noteq> d" using that(1) al(7) by blast
          then show ?thesis using t3 [OF that] i by simp
        qed
        have co: "core (the_node s' n) = core (the_node s n)" if "n \<in> dom (s_nodes s)" for n
          using that n3(2) i by simp
        have last: "if r = 0
         then \<exists>d q qs. d \<notin> dom (s_nodes s) \<and> d \<in> dom (s_nodes s') \<and>
           p_nodes (s_pipeline s') = p_nodes (s_pipeline s) @ [d] \<and>
           n_context (the_node s' d) = Some (Dispatcher_context
             \<lparr>strategy = DISPATCH_ROUND_ROBIN, next_index = 0, packets_sent = 0\<rparr>) \<and>
           targets (the_node s' from) = targets (the_node s from) @ [q] \<and> n_input (the_node s' d) = Some q \<and>
           targets (the_node s' d) = qs \<and> map (\<lambda>t. n_input (the_node s' t)) (somes ts) = map Some qs
         else r = -1"
        proof (cases "r = 0")
          case True
          then obtain qs where qs: "targets (the_node s' d) = targets (the_node s3 d) @ qs"
            "map (\<lambda>t. n_input (the_node s' t)) (somes ts) = map Some qs" using i by auto
          have "p_nodes (s_pipeline s') = p_nodes (s_pipeline s) @ [d]" using i c3 s2(3) by simp
          moreover have "n_context (the_node s' d) = n_context nd" using i td3(2) by (auto simp: core_def)
          moreover have "targets (the_node s' from) = targets (the_node s from) @ [q]"
            using i dfrom(1) q(2) tn2 [OF assms(2)] by auto
          moreover have "n_input (the_node s' d) = Some q" using i q(1) by simp
          moreover have "d \<in> dom (s_nodes s')" using i d3(2) by simp
          ultimately show ?thesis
            using True qs td3(1) ctx al(7) by (intro if_P [THEN iffD2] exI [of _ d] exI [of _ q] exI [of _ qs]) simp_all
        qed (use i in simp)
        have "sys_inv s'" "dom (s_nodes s) \<subseteq> dom (s_nodes s')" using i sub3 by simp_all
        then show ?thesis using last keep inp tg co by simp
      qed
    qed
  qed
qed


subsection \<open>Properties of the pipeline\<close>

text \<open>
  C20: Connecting two nodes of a well-formed system. Whatever fails, the system stays well formed
  and the result is 0 or -1. After a 0 the target has an input queue, the one it had before or, if
  it had none, a new empty queue of the pipeline, and this queue is the new last output of the
  source; no other node has changed its input or outputs.
\<close>

theorem pipeline_connect_spec:
  assumes "sys_inv s" "from \<in> dom (s_nodes s)" "to \<in> dom (s_nodes s)"
    and "pipeline_connect (Some from) (Some to) s = (r, s')"
  shows "sys_inv s' \<and> (r = 0 \<or> r = -1) \<and>
    (\<forall>n. n \<noteq> to \<longrightarrow> n_input (the_node s' n) = n_input (the_node s n)) \<and>
    (\<forall>n. n \<noteq> from \<longrightarrow> targets (the_node s' n) = targets (the_node s n)) \<and>
    (\<forall>q. n_input (the_node s to) = Some q \<longrightarrow> n_input (the_node s' to) = Some q) \<and>
    (r = 0 \<longrightarrow> (\<exists>q. n_input (the_node s' to) = Some q \<and>
       targets (the_node s' from) = targets (the_node s from) @ [q] \<and>
       (n_input (the_node s to) = None \<longrightarrow>
          packets (s_world s') q = [] \<and> p_queues (s_pipeline s') = p_queues (s_pipeline s) @ [q])))"
  using connect_inv [OF assms] by (cases "r = 0") auto

text \<open>
  A shared connection puts a round-robin dispatcher between the source and the targets. The
  system stays well formed whatever fails. After a 0 there is one new node, the last of the
  pipeline, a dispatcher that starts at its first output; the source sends to its input, and its
  outputs are the inputs of the targets, in their order, null entries left out.
\<close>

theorem pipeline_connect_shared_spec:
  assumes "sys_inv s" "from \<in> dom (s_nodes s)" "set (somes ts) \<subseteq> dom (s_nodes s)"
    and "pipeline_connect_shared (Some from) (Some ts) s = (r, s')"
  shows "sys_inv s' \<and> (r = 0 \<or> r = -1) \<and>
    (r = 0 \<longrightarrow> (\<exists>d q. d \<notin> dom (s_nodes s) \<and> p_nodes (s_pipeline s') = p_nodes (s_pipeline s) @ [d] \<and>
       n_context (the_node s' d) = Some (Dispatcher_context
         \<lparr>strategy = DISPATCH_ROUND_ROBIN, next_index = 0, packets_sent = 0\<rparr>) \<and>
       targets (the_node s' from) = targets (the_node s from) @ [q] \<and> n_input (the_node s' d) = Some q \<and>
       map (\<lambda>t. n_input (the_node s' t)) (somes ts) = map Some (targets (the_node s' d))))"
  using connect_shared_inv [OF assms] by (cases "r = 0") (simp, blast, simp)


end
