(* ===== verification/Wiring.thy ===== *)
theory Wiring
  imports Pipeline
begin

text \<open>
  What wiring a pipeline up amounts to. \<open>topology\<close> is the graph of a system: its nodes with
  what they run, their inputs and their targets; \<open>edge\<close> and \<open>shared_edge\<close> are the abstract
  operations that \<open>pipeline_connect\<close> and \<open>pipeline_connect_shared\<close> refine when no
  allocation fails. A queue never has two consumers (\<open>single_consumer\<close>), whatever fails.
\<close>

subsection \<open>One consumer per queue\<close>

definition single_consumer :: "Sys \<Rightarrow> bool" where
  "single_consumer s \<longleftrightarrow> (\<forall>n \<in> dom (s_nodes s). \<forall>n' \<in> dom (s_nodes s). \<forall>q.
     n_input (the_node s n) = Some q \<longrightarrow> n_input (the_node s n') = Some q \<longrightarrow> n = n')"

lemma single_consumerD:
  "single_consumer s \<Longrightarrow> n \<in> dom (s_nodes s) \<Longrightarrow> n' \<in> dom (s_nodes s) \<Longrightarrow>
     n_input (the_node s n) = Some q \<Longrightarrow> n_input (the_node s n') = Some q \<Longrightarrow> n = n'"
  by (simp add: single_consumer_def)

lemma single_consumer_log [simp]: "single_consumer (sys_log ty t s) = single_consumer s"
  by (simp add: single_consumer_def)

lemma input_in_pipeline: "sys_inv s \<Longrightarrow> n \<in> dom (s_nodes s) \<Longrightarrow> n_input (the_node s n) = Some q \<Longrightarrow>
    q \<in> set (p_queues (s_pipeline s))"
  using sys_inv_node [of s n] by (simp add: node_ok_def)

lemma connect_input:
  assumes "pipeline_connect (Some from) (Some to) s = (r, s')" "sys_inv s" "from \<in> dom (s_nodes s)" "to \<in> dom (s_nodes s)"
    and "n_input (the_node s to) = None" "n_input (the_node s' to) = Some q"
  shows "q \<notin> set (p_queues (s_pipeline s))"
proof -
  obtain qo s1 where c: "pipeline_create_queue s = (qo, s1)" by (cases "pipeline_create_queue s")
  note c1 = pipeline_create_queue_inv [OF assms(2) c]
  have tn: "the_node s1 n = the_node s n" for n using c1 by (simp add: the_node_def)
  show ?thesis
  proof (cases qo)
    case None
    then show ?thesis using assms c tn by (auto simp: pipeline_connect_def)
  next
    case (Some p)
    define s2 where "s2 = set_node to ((the_node s to)\<lparr>n_input := Some p\<rparr>) s1"
    have e: "connect_output from to p s2 = (r, s')"
      using assms(1,5) c Some tn by (simp add: pipeline_connect_def node_set_input_def s2_def)
    have d: "to \<in> dom (s_nodes s1)" "from \<in> dom (s_nodes s2)" "p \<in> set (p_queues (s_pipeline s2))"
      using c1 assms(3,4) Some by (auto simp: s2_def)
    have "sys_inv s2"
      unfolding s2_def using sys_inv_node [OF assms(2,4)] c1 Some d
      by (intro sys_inv_set_node) (auto simp: node_ok_def)
    from connect_output_inv [OF this d(2,3) e] have "n_input (the_node s' to) = Some p" by (simp add: s2_def)
    then have "q = p" using assms(6) by simp
    moreover have "p \<notin> set (p_queues (s_pipeline s))" using c1 Some by auto
    ultimately show ?thesis by simp
  qed
qed

lemma connect_single:
  assumes "sys_inv s" "single_consumer s" "from \<in> dom (s_nodes s)" "to \<in> dom (s_nodes s)"
    and "pipeline_connect (Some from) (Some to) s = (r, s')"
  shows "single_consumer s'"
  unfolding single_consumer_def
proof (intro ballI allI impI)
  note c = connect_inv [OF assms(1,3,4,5)]
  fix n n' q
  assume n: "n \<in> dom (s_nodes s')" "n' \<in> dom (s_nodes s')"
    and q: "n_input (the_node s' n) = Some q" "n_input (the_node s' n') = Some q"
  have d: "n \<in> dom (s_nodes s)" "n' \<in> dom (s_nodes s)" using n c by simp_all
  have other: "n_input (the_node s m) = Some q" if "n_input (the_node s' m) = Some q"
    "m \<noteq> to \<or> n_input (the_node s to) \<noteq> None" for m
    using that c by (cases "m = to") auto
  show "n = n'"
  proof (cases "n_input (the_node s to) = None \<and> (n = to \<or> n' = to)")
    case True
    have fresh: "q \<notin> set (p_queues (s_pipeline s))"
      using connect_input [OF assms(5,1,3,4)] True q by auto
    show ?thesis
    proof (rule ccontr)
      assume "n \<noteq> n'"
      then have "\<exists>m \<in> dom (s_nodes s). n_input (the_node s m) = Some q" using True d q other by blast
      then show False using fresh input_in_pipeline [OF assms(1)] by blast
    qed
  next
    case False
    then have "n_input (the_node s n) = Some q" "n_input (the_node s n') = Some q" using other q by blast+
    then show ?thesis using single_consumerD [OF assms(2) d] by simp
  qed
qed

subsection \<open>Connections that succeed\<close>

text \<open>Every allocation and every initialisation succeeds.\<close>

definition ample :: "Sys \<Rightarrow> bool" where
  "ample s \<longleftrightarrow> m_results (s_mem s) = [] \<and> s_inits s = []"

lemma sys_log_fields [simp]:
  "s_inits (sys_log ty t s) = s_inits s" "s_inits (set_node n nd s) = s_inits s" "ample (sys_log ty t s) = ample s"
  by (simp_all add: sys_log_def set_node_def ample_def)

lemma create_queue_ample:
  "ample s \<Longrightarrow> length (p_queues (s_pipeline s)) < 64 \<Longrightarrow>
    \<exists>q s'. pipeline_create_queue s = (Some q, s') \<and> ample s'"
  by (auto simp: pipeline_create_queue_def ample_def calloc_def next_init_def queue_init_def MAX_PIPELINE_QUEUES_def Let_def)

lemma connect_output_ample:
  "connect_output from to q s = (r, s') \<Longrightarrow> ample s \<Longrightarrow> ample s'"
  by (auto simp: connect_output_def ample_def Let_def split: prod.splits if_splits)

lemma connect_ample:
  assumes "sys_inv s" "from \<in> dom (s_nodes s)" "to \<in> dom (s_nodes s)" "ample s"
    and "length (p_queues (s_pipeline s)) < 64" "length (targets (the_node s from)) < 16"
  shows "\<exists>s'. pipeline_connect (Some from) (Some to) s = (0, s') \<and> ample s'"
proof -
  obtain r s' where c: "pipeline_connect (Some from) (Some to) s = (r, s')" by (cases "pipeline_connect (Some from) (Some to) s")
  have "r = 0 \<and> ample s'"
  proof (cases "n_input (the_node s to)")
    case (Some q)
    define s0 where "s0 = sys_log INFO (''Reusing existing queue for: '' @ name_of s from @ '' -> '' @ name_of s to) s"
    have "connect_output from to q s0 = (r, s')" using c Some by (simp add: pipeline_connect_def s0_def)
    moreover have "q \<in> set (p_queues (s_pipeline s0))" using input_in_pipeline [OF assms(1,3) Some] by (simp add: s0_def)
    ultimately show ?thesis
      using connect_output_inv [where s = s0 and q = q and r = r and s' = s']
        connect_output_ample [where s = s0 and q = q and r = r and s' = s'] assms by (simp add: s0_def)
  next
    case None
    obtain q s1 where q: "pipeline_create_queue s = (Some q, s1)" "ample s1"
      using create_queue_ample [OF assms(4,5)] by blast
    note c1 = pipeline_create_queue_inv [OF assms(1) q(1)]
    have tn: "the_node s1 n = the_node s n" for n using c1 by (simp add: the_node_def)
    define s2 where "s2 = set_node to ((the_node s to)\<lparr>n_input := Some q\<rparr>) s1"
    have e: "connect_output from to q s2 = (r, s')"
      using c None q(1) tn by (simp add: pipeline_connect_def node_set_input_def s2_def)
    have d: "to \<in> dom (s_nodes s1)" "from \<in> dom (s_nodes s2)" "q \<in> set (p_queues (s_pipeline s2))"
      using c1 assms(2,3) by (auto simp: s2_def)
    have "sys_inv s2"
      unfolding s2_def using sys_inv_node [OF assms(1,3)] c1 d
      by (intro sys_inv_set_node) (auto simp: node_ok_def)
    moreover have "ample s2" using q(2) by (simp add: s2_def ample_def)
    moreover have "targets (the_node s2 from) = targets (the_node s from)" by (simp add: s2_def tn)
    ultimately show ?thesis
      using connect_output_inv [where s = s2 and q = q and r = r and s' = s'] connect_output_ample [OF e] d e assms(6) by simp
  qed
  then show ?thesis using c by simp
qed

subsection \<open>The graph of a system\<close>

type_synonym node_kind = "string \<times> NodeType \<times> node_process_func \<times> Context option \<times> bool"

record Topology =
  t_kind :: "nid \<Rightarrow> node_kind option"
  t_input :: "nid \<Rightarrow> qid option"
  t_targets :: "nid \<Rightarrow> qid list"
  t_nodes :: "nid list"
  t_queues :: "qid list"

definition topology :: "Sys \<Rightarrow> Topology" where
  "topology s =
     \<lparr>t_kind = (\<lambda>n. map_option core (s_nodes s n)),
      t_input = (\<lambda>n. Option.bind (s_nodes s n) n_input),
      t_targets = (\<lambda>n. case s_nodes s n of None \<Rightarrow> [] | Some node \<Rightarrow> targets node),
      t_nodes = p_nodes (s_pipeline s), t_queues = p_queues (s_pipeline s)\<rparr>"

definition vertex :: "nid \<Rightarrow> node_kind \<Rightarrow> Topology \<Rightarrow> Topology" where
  "vertex n k t = t\<lparr>t_kind := (t_kind t)(n \<mapsto> k), t_input := (t_input t)(n := None), t_targets := (t_targets t)(n := [])\<rparr>"

definition enlist :: "nid \<Rightarrow> Topology \<Rightarrow> Topology" where
  "enlist n t = t\<lparr>t_nodes := t_nodes t @ [n],
     t_kind := (t_kind t)(n := map_option (\<lambda>(name, ty, process, con, _). (name, ty, process, con, True)) (t_kind t n))\<rparr>"

text \<open>An edge through the queue that \<open>to\<close> has already, or through the new queue \<open>q\<close>.\<close>

definition edge :: "nid \<Rightarrow> nid \<Rightarrow> qid \<Rightarrow> Topology \<Rightarrow> Topology" where
  "edge from to q t =
     (case t_input t to of
        Some p \<Rightarrow> t\<lparr>t_targets := (t_targets t)(from := t_targets t from @ [p])\<rparr>
      | None \<Rightarrow> t\<lparr>t_input := (t_input t)(to \<mapsto> q), t_targets := (t_targets t)(from := t_targets t from @ [q]),
                  t_queues := t_queues t @ [q]\<rparr>)"

lemma topology_simps [simp]:
  "n \<in> dom (s_nodes s) \<Longrightarrow> t_input (topology s) n = n_input (the_node s n)"
  "n \<in> dom (s_nodes s) \<Longrightarrow> t_targets (topology s) n = targets (the_node s n)"
  "n \<in> dom (s_nodes s) \<Longrightarrow> t_kind (topology s) n = Some (core (the_node s n))"
  "t_nodes (topology s) = p_nodes (s_pipeline s)" "t_queues (topology s) = p_queues (s_pipeline s)"
  "dom (t_kind (topology s)) = dom (s_nodes s)"
  "topology (sys_log ty text s) = topology s" "topology (s\<lparr>s_mem := m\<rparr>) = topology s"
  by (auto simp: topology_def the_node_def sys_log_def)

lemma topology_eqI:
  assumes "dom (s_nodes s) = dom (t_kind t)"
    and "\<And>n. n \<in> dom (s_nodes s) \<Longrightarrow> t_kind t n = Some (core (the_node s n)) \<and>
       t_input t n = n_input (the_node s n) \<and> t_targets t n = targets (the_node s n)"
    and "\<And>n. n \<notin> dom (s_nodes s) \<Longrightarrow> t_input t n = None \<and> t_targets t n = []"
    and "t_nodes t = p_nodes (s_pipeline s)" "t_queues t = p_queues (s_pipeline s)"
  shows "topology s = t"
proof (rule Topology.equality)
  have "map_option core (s_nodes s n) = t_kind t n \<and> Option.bind (s_nodes s n) n_input = t_input t n \<and>
      (case s_nodes s n of None \<Rightarrow> [] | Some node \<Rightarrow> targets node) = t_targets t n" for n
  proof (cases "n \<in> dom (s_nodes s)")
    case True
    then show ?thesis using assms(2) [OF True] the_node [OF True] by simp
  next
    case False
    then have "t_kind t n = None" using assms(1) by auto
    then show ?thesis using False assms(3) [OF False] by (simp add: domIff)
  qed
  then show "t_kind (topology s) = t_kind t" "t_input (topology s) = t_input t" "t_targets (topology s) = t_targets t"
    by (auto simp: topology_def)
qed (use assms in \<open>auto simp: topology_def\<close>)

lemma topology_outside:
  "n \<notin> dom (s_nodes s) \<Longrightarrow> t_input (topology s) n = None \<and> t_targets (topology s) n = [] \<and> t_kind (topology s) n = None"
  by (simp add: topology_def domIff)

text \<open>A system that is being built, and nothing fails.\<close>

definition building :: "Sys \<Rightarrow> bool" where
  "building s \<longleftrightarrow> sys_inv s \<and> ample s \<and> (\<forall>q \<in> set (p_queues (s_pipeline s)). packets (s_world s) q = [])"

lemma building_log [simp]: "building (sys_log ty text s) = building s"
  by (simp add: building_def)

lemma connect_topology:
  assumes "building s" "from \<in> dom (s_nodes s)" "to \<in> dom (s_nodes s)"
    and "length (p_queues (s_pipeline s)) < 64" "length (targets (the_node s from)) < 16"
  shows "\<exists>s' q. pipeline_connect (Some from) (Some to) s = (0, s') \<and> building s' \<and>
    q \<notin> set (p_queues (s_pipeline s)) \<and> topology s' = edge from to q (topology s)"
proof -
  have b: "sys_inv s" "ample s" using assms(1) by (simp_all add: building_def)
  obtain s' where c: "pipeline_connect (Some from) (Some to) s = (0, s')" "ample s'"
    using connect_ample [OF b(1) assms(2,3) b(2) assms(4,5)] by blast
  note i = connect_inv [OF b(1) assms(2,3) c(1)]
  obtain q where q: "n_input (the_node s' to) = Some q" "targets (the_node s' from) = targets (the_node s from) @ [q]"
    "n_input (the_node s to) = None \<Longrightarrow> q \<notin> set (p_queues (s_pipeline s)) \<and> packets (s_world s') q = [] \<and>
          p_queues (s_pipeline s') = p_queues (s_pipeline s) @ [q]"
    using i by auto
  have d: "dom (s_nodes s') = dom (s_nodes s)" using i by simp
  show ?thesis
  proof (cases "n_input (the_node s to)")
    case None
    have t: "topology s' = edge from to q (topology s)"
    proof (rule topology_eqI)
      fix n assume n: "n \<in> dom (s_nodes s')"
      then have "n \<in> dom (s_nodes s)" using d by simp
      then show "t_kind (edge from to q (topology s)) n = Some (core (the_node s' n)) \<and>
          t_input (edge from to q (topology s)) n = n_input (the_node s' n) \<and>
          t_targets (edge from to q (topology s)) n = targets (the_node s' n)"
        using i None assms(2,3) q by (cases "n = to") (auto simp: edge_def)
    qed (use d i None assms(2,3) q topology_outside [of _ s] in \<open>auto simp: edge_def\<close>)
    have "building s'"
      using assms(1) i c(2) q(3) None by (auto simp: building_def packets_def)
    then show ?thesis using c(1) t q(3) None by blast
  next
    case (Some p)
    obtain q' where q': "q' \<notin> set (p_queues (s_pipeline s))" using ex_new_if_finite [OF infinite_UNIV_nat] by blast
    have pq: "p = q" "p_queues (s_pipeline s') = p_queues (s_pipeline s)" using i Some q(1) by auto
    have t: "topology s' = edge from to q' (topology s)"
    proof (rule topology_eqI)
      fix n assume n: "n \<in> dom (s_nodes s')"
      then have "n \<in> dom (s_nodes s)" using d by simp
      then show "t_kind (edge from to q' (topology s)) n = Some (core (the_node s' n)) \<and>
          t_input (edge from to q' (topology s)) n = n_input (the_node s' n) \<and>
          t_targets (edge from to q' (topology s)) n = targets (the_node s' n)"
        using i Some assms(2,3) q pq by (cases "n = to") (auto simp: edge_def)
    qed (use d i Some assms(2,3) q pq topology_outside [of _ s] in \<open>auto simp: edge_def\<close>)
    have "building s'"
      using assms(1) i c(2) pq by (auto simp: building_def packets_def)
    then show ?thesis using c(1) t q' by blast
  qed
qed

lemma alloc_topology:
  assumes "building s" "node_ok {} False node" "n_input node = None" "targets node = []" "alloc_node node s = (n, s')"
  shows "building s' \<and> n \<notin> dom (s_nodes s) \<and> s_nodes s' = (s_nodes s)(n \<mapsto> node) \<and>
    topology s' = vertex n (core node) (topology s)"
proof -
  have ok: "node_ok (set (p_queues (s_pipeline s))) False node" using assms(2) by (auto simp: node_ok_def)
  have i: "sys_inv s" using assms(1) by (simp add: building_def)
  note a = sys_inv_alloc [OF i ok, unfolded assms(5) fst_conv snd_conv]
  have m: "s_mem s' = s_mem s" "s_inits s' = s_inits s" using assms(5) by (auto simp: alloc_node_def)
  have "building s'" using assms(1) a m by (simp add: building_def ample_def)
  moreover have "topology s' = vertex n (core node) (topology s)"
    using a assms(3,4) by (auto simp: topology_def vertex_def fun_eq_iff)
  ultimately show ?thesis using a by auto
qed

lemma add_topology:
  assumes "building s" "n \<in> dom (s_nodes s)" "n \<notin> set (p_nodes (s_pipeline s))" "length (p_nodes (s_pipeline s)) < 32"
  shows "\<exists>s'. pipeline_add_node (Some n) s = (0, s') \<and> building s' \<and> topology s' = enlist n (topology s)"
proof -
  have i: "sys_inv s" using assms(1) by (simp add: building_def)
  obtain s' where s': "pipeline_add_node (Some n) s = (0, s')" "sys_inv s'"
    "p_nodes (s_pipeline s') = p_nodes (s_pipeline s) @ [n]" "p_queues (s_pipeline s') = p_queues (s_pipeline s)"
    "s_nodes s' = (s_nodes s)(n \<mapsto> (the_node s n)\<lparr>n_should_exit := True\<rparr>)" "s_mem s' = s_mem s"
    using pipeline_add_node_inv [OF i assms(2,3)] assms(4) by auto
  have m: "s_inits s' = s_inits s" "packets (s_world s') q = packets (s_world s) q" for q
    using s'(1) assms(4) by (auto simp: pipeline_add_node_def MAX_PIPELINE_NODES_def Let_def packets_def)
  have "building s'" using assms(1) s' m by (simp add: building_def ample_def)
  moreover have "topology s' = enlist n (topology s)"
    using s' the_node [OF assms(2)] by (auto simp: topology_def enlist_def core_def fun_eq_iff)
  ultimately show ?thesis using s'(1) by blast
qed

subsection \<open>New nodes\<close>

definition created :: "string \<Rightarrow> NodeType \<Rightarrow> node_process_func \<Rightarrow> 'c option \<Rightarrow> 'c Node \<Rightarrow> bool" where
  "created name ty process context n \<longleftrightarrow>
     node_inv n \<and> n_input n = None \<and> targets n = [] \<and> \<not> n_should_exit n \<and> node_name n = take 63 (cstr name) \<and>
     n_type n = ty \<and> n_process n = process \<and> n_context n = context"

lemma created_node_ok: "created name ty process context n \<Longrightarrow> node_ok qs False (as_node con n)"
  by (simp add: created_def node_ok_def)

lemma created_simps:
  "created name ty process context n \<Longrightarrow> n_input (as_node con n) = None"
  "created name ty process context n \<Longrightarrow> targets (as_node con n) = []"
  "created name ty process context n \<Longrightarrow>
     core (as_node con n) = (n_name n, ty, process, map_option con context, False)"
  by (simp_all add: created_def core_def as_node_def targets_def)

lemma calloc_ample: "m_results m = [] \<Longrightarrow> \<exists>m'. calloc m = (True, m') \<and> m_results m' = []"
  by (simp add: calloc_def)

lemma node_create_ample:
  assumes "m_results m = []"
  shows "\<exists>n m'. node_create (Some name) ty (Some process) context m = (Some n, m') \<and> m_results m' = [] \<and>
    created name ty process context n"
proof -
  obtain n m' where c: "node_create (Some name) ty (Some process) context m = (Some n, m')" "m_results m' = []"
    using assms by (auto simp: node_create_def calloc_def)
  show ?thesis using c node_create_spec [OF c(1)] by (auto simp: created_def)
qed

lemma dispatcher_ample:
  assumes "m_results m = []"
  shows "\<exists>n m'. dispatcher_node_create (Some name) strat m = (Some n, m') \<and> m_results m' = [] \<and>
    created name NODE_TYPE_CUSTOM Dispatcher_process (Some \<lparr>strategy = strat, next_index = 0, packets_sent = 0\<rparr>) n"
proof -
  obtain m1 where c: "calloc m = (True, m1)" "m_results m1 = []" using calloc_ample [OF assms] by blast
  show ?thesis
    using c(1) node_create_ample [OF c(2), of name NODE_TYPE_CUSTOM Dispatcher_process
        "Some \<lparr>strategy = strat, next_index = 0, packets_sent = 0\<rparr>"]
    by (auto simp: dispatcher_node_create_def)
qed

lemma tagger_ample:
  assumes "m_results m = []" "0 < k"
  shows "\<exists>n m'. tagger_node_create (Some name) (Some rs) k m = (Some n, m') \<and> m_results m' = [] \<and>
    created name NODE_TYPE_TAGGER Tagger_process
      (Some \<lparr>tc_rules = map (\<lambda>i. copy_rule (rs ! i)) [0..<nat k], tc_size = k\<rparr>) n"
proof -
  obtain m1 m2 where c: "calloc m = (True, m1)" "calloc m1 = (True, m2)" "m_results m2 = []"
    using calloc_ample [OF assms(1)] calloc_ample by blast
  show ?thesis
    using c(1,2) assms(2) node_create_ample [OF c(3), of name NODE_TYPE_TAGGER Tagger_process
        "Some \<lparr>tc_rules = map (\<lambda>i. copy_rule (rs ! i)) [0..<nat k], tc_size = k\<rparr>"]
    by (auto simp: tagger_node_create_def)
qed

lemma packet_counter_ample:
  assumes "m_results m = []" "0 < k"
  shows "\<exists>n m'. packet_counter_node_create (Some name) k m = (Some n, m') \<and> m_results m' = [] \<and>
    created name NODE_TYPE_CUSTOM Packet_counter_process
      (Some \<lparr>total_packets = 0, total_bytes = 0, vlan_packets = 0, non_vlan_packets = 0, pc_log_interval = k\<rparr>) n"
proof -
  obtain m1 where c: "calloc m = (True, m1)" "m_results m1 = []" using calloc_ample [OF assms(1)] by blast
  show ?thesis
    using c(1) assms(2) node_create_ample [OF c(2), of name NODE_TYPE_CUSTOM Packet_counter_process
        "Some \<lparr>total_packets = 0, total_bytes = 0, vlan_packets = 0, non_vlan_packets = 0, pc_log_interval = k\<rparr>"]
    by (auto simp: packet_counter_node_create_def)
qed

lemma logger_ample:
  assumes "m_results m = []"
  shows "\<exists>n m'. logger_node_create (Some name) k m = (Some n, m') \<and> m_results m' = [] \<and>
    created name NODE_TYPE_CUSTOM Logger_process (Some \<lparr>ln_log_interval = k, packet_count = 0\<rparr>) n"
proof -
  obtain m1 where c: "calloc m = (True, m1)" "m_results m1 = []" using calloc_ample [OF assms(1)] by blast
  show ?thesis
    using c(1) node_create_ample [OF c(2), of name NODE_TYPE_CUSTOM Logger_process
        "Some \<lparr>ln_log_interval = k, packet_count = 0\<rparr>"]
    by (auto simp: logger_node_create_def)
qed

lemma collector_ample:
  assumes "m_results m = []"
  shows "\<exists>n m'. collector_node_create (Some name) m = (Some n, m') \<and> m_results m' = [] \<and>
    created name NODE_TYPE_CUSTOM Collector_process None n"
  using node_create_ample [OF assms, of name NODE_TYPE_CUSTOM Collector_process "None :: unit option"]
  by (auto simp: collector_node_create_def)

text \<open>The kernel opens and binds the socket of an interface.\<close>

definition interface_up :: "kernel \<Rightarrow> string \<Rightarrow> bool" where
  "interface_up k dev \<longleftrightarrow> 0 \<le> k_socket k \<and> k_ifindex k \<noteq> None \<and> k_ifindex k \<noteq> Some 0 \<and> k_bind k \<and>
     0 < strlen dev \<and> strlen dev < 16"

definition bound_to :: "kernel \<Rightarrow> socket_context" where
  "bound_to k = \<lparr>sc_socket = k_socket k,
     sc_saddr = \<lparr>sll_family = AF_PACKET, sll_protocol = htons ETH_P_ALL, sll_ifindex = the (k_ifindex k)\<rparr>\<rparr>"

lemma setup_up:
  "interface_up k dev \<Longrightarrow> setup_packet_socket k (Some dev) se (Some a) s =
     (k_socket k, Some (sc_saddr (bound_to k)), s\<lparr>o_fds := k_socket k # o_fds s\<rparr>)"
  by (auto simp: interface_up_def setup_packet_socket_def bound_to_def IFNAMSIZ_def Let_def)

lemma sniffer_ample:
  assumes "m_results m = []" "interface_up k dev"
  shows "\<exists>n m'. sniffer_node_create k (Some name) (Some dev) m s = (Some n, m', s\<lparr>o_fds := k_socket k # o_fds s\<rparr>) \<and>
    m_results m' = [] \<and> created name NODE_TYPE_SNIFFER Sniffer_process (Some (bound_to k)) n"
proof -
  obtain m1 where c: "calloc m = (True, m1)" "m_results m1 = []" using calloc_ample [OF assms(1)] by blast
  have "k_socket k \<noteq> -1" using assms(2) by (auto simp: interface_up_def)
  then show ?thesis
    using c(1) setup_up [OF assms(2)] node_create_ample [OF c(2), of name NODE_TYPE_SNIFFER Sniffer_process "Some (bound_to k)"]
    by (auto simp: sniffer_node_create_def bound_to_def)
qed

lemma sender_ample:
  assumes "m_results m = []" "interface_up k dev"
  shows "\<exists>n m'. sender_node_create k (Some name) (Some dev) m s = (Some n, m', s\<lparr>o_fds := k_socket k # o_fds s\<rparr>) \<and>
    m_results m' = [] \<and> created name NODE_TYPE_SENDER Sender_process (Some (bound_to k)) n"
proof -
  obtain m1 where c: "calloc m = (True, m1)" "m_results m1 = []" using calloc_ample [OF assms(1)] by blast
  have "k_socket k \<noteq> -1" using assms(2) by (auto simp: interface_up_def)
  then show ?thesis
    using c(1) setup_up [OF assms(2)] node_create_ample [OF c(2), of name NODE_TYPE_SENDER Sender_process "Some (bound_to k)"]
    by (auto simp: sender_node_create_def bound_to_def)
qed

subsection \<open>Shared connections that succeed\<close>

text \<open>An edge through some queue that the pipeline did not have, or through the one \<open>to\<close> has.\<close>

definition edge_to :: "nid \<Rightarrow> nid \<Rightarrow> Topology \<Rightarrow> Topology \<Rightarrow> bool" where
  "edge_to from to t t' \<longleftrightarrow> (\<exists>q. q \<notin> set (t_queues t) \<and> t' = edge from to q t)"

fun links :: "(nid \<times> nid) list \<Rightarrow> Topology \<Rightarrow> Topology \<Rightarrow> bool" where
  "links [] t t' \<longleftrightarrow> t' = t"
| "links (e # es) t t' \<longleftrightarrow> (\<exists>t1. edge_to (fst e) (snd e) t t1 \<and> links es t1 t')"

definition shared_edge :: "nid \<Rightarrow> nid list \<Rightarrow> Topology \<Rightarrow> Topology \<Rightarrow> bool" where
  "shared_edge from ns t t' \<longleftrightarrow>
     (\<exists>d name t1. d \<notin> dom (t_kind t) \<and>
        edge_to from d (enlist d (vertex d (name, NODE_TYPE_CUSTOM, Dispatcher_process,
          Some (Dispatcher_context \<lparr>strategy = DISPATCH_ROUND_ROBIN, next_index = 0, packets_sent = 0\<rparr>), False) t)) t1 \<and>
        links (map (Pair d) ns) t1 t')"

lemma edge_queues: "edge_to from to t t' \<Longrightarrow> length (t_queues t') \<le> length (t_queues t) + 1 \<and> dom (t_kind t') = dom (t_kind t)"
  by (auto simp: edge_to_def edge_def split: option.splits)

lemma edge_targets: "edge_to from to t t' \<Longrightarrow>
    length (t_targets t' n) = (if n = from then length (t_targets t n) + 1 else length (t_targets t n))"
  by (auto simp: edge_to_def edge_def split: option.splits)

lemma building_connect:
  assumes "building s" "from \<in> dom (s_nodes s)" "to \<in> dom (s_nodes s)"
    and "length (t_queues (topology s)) < 64" "length (t_targets (topology s) from) < 16"
  shows "\<exists>s'. pipeline_connect (Some from) (Some to) s = (0, s') \<and> building s' \<and> edge_to from to (topology s) (topology s')"
proof -
  obtain s' q where "pipeline_connect (Some from) (Some to) s = (0, s')" "building s'"
    "q \<notin> set (p_queues (s_pipeline s))" "topology s' = edge from to q (topology s)"
    using connect_topology [OF assms(1-3)] assms(2,4,5) by auto
  then show ?thesis unfolding edge_to_def by (intro exI [of _ s']) auto
qed

lemma dom_topology: "n \<in> dom (t_kind (topology s)) \<longleftrightarrow> n \<in> dom (s_nodes s)"
  by simp

lemma links_bounds: "links es t t' \<Longrightarrow> length (t_queues t') \<le> length (t_queues t) + length es \<and>
    length (t_targets t' n) \<le> length (t_targets t n) + length es \<and> dom (t_kind t') = dom (t_kind t) \<and>
    t_kind t' = t_kind t \<and> t_nodes t' = t_nodes t"
proof (induction es arbitrary: t)
  case (Cons e es)
  then obtain t1 where t1: "edge_to (fst e) (snd e) t t1" "links es t1 t'" by auto
  have "t_kind t1 = t_kind t" "t_nodes t1 = t_nodes t"
    using t1(1) by (auto simp: edge_to_def edge_def split: option.splits)
  then show ?case
    using Cons.IH [OF t1(2)] edge_queues [OF t1(1)] edge_targets [OF t1(1), of n] by (auto split: if_splits)
qed simp

lemma connect_targets_topology:
  assumes "building s" "d \<in> dom (s_nodes s)" "set (somes ts) \<subseteq> dom (s_nodes s)"
    and "length (t_queues (topology s)) + length (somes ts) \<le> 64"
    and "length (t_targets (topology s) d) + length (somes ts) \<le> 16"
  shows "\<exists>s'. connect_targets fn dn d ts s = (0, s') \<and> building s' \<and> links (map (Pair d) (somes ts)) (topology s) (topology s')"
  using assms
proof (induction ts arbitrary: s)
  case Nil
  then show ?case by simp
next
  case (Cons o_t ts)
  show ?case
  proof (cases o_t)
    case None
    then show ?thesis using Cons by simp
  next
    case (Some t)
    obtain s1 where c: "pipeline_connect (Some d) (Some t) s = (0, s1)" "building s1" "edge_to d t (topology s) (topology s1)"
      using building_connect [of s d t] Cons.prems Some by auto
    define s2 where "s2 = sys_log INFO (''Connected (shared via dispatcher): '' @ fn @ '' -> '' @ dn
                @ '' -> '' @ name_of s1 t) s1"
    have s2: "building s2" "topology s2 = topology s1" using c(2) by (simp_all add: s2_def)
    have d: "dom (s_nodes s2) = dom (s_nodes s)"
      using edge_queues [OF c(3)] s2(2) by (simp add: s2_def)
    have "\<exists>s'. connect_targets fn dn d ts s2 = (0, s') \<and> building s' \<and> links (map (Pair d) (somes ts)) (topology s2) (topology s')"
      using Cons.prems edge_queues [OF c(3)] edge_targets [OF c(3), of d] s2(2) Some d
      by (intro Cons.IH s2(1)) auto
    then show ?thesis using c s2(2) Some by (auto simp: s2_def)
  qed
qed

text \<open>A node that is allocated and added.\<close>

lemma add_new_topology:
  assumes "building s" "node_ok {} False node" "n_input node = None" "targets node = []"
    and "alloc_node node s = (n, s1)" "length (t_nodes (topology s)) < 32"
  shows "\<exists>s2. pipeline_add_node (Some n) s1 = (0, s2) \<and> building s2 \<and> n \<notin> dom (s_nodes s) \<and>
    topology s2 = enlist n (vertex n (core node) (topology s))"
proof -
  note a = alloc_topology [OF assms(1-5)]
  have i: "sys_inv s" using assms(1) by (simp add: building_def)
  have n: "n \<in> dom (s_nodes s1)" "p_nodes (s_pipeline s1) = p_nodes (s_pipeline s)"
    using a assms(5) by (auto simp: alloc_node_def)
  have "n \<notin> set (p_nodes (s_pipeline s1))" using a n(2) i by (auto simp: sys_inv_def)
  then show ?thesis using add_topology [of s1 n] a n assms(6) by auto
qed

lemma connect_shared_topology:
  assumes "building s" "from \<in> dom (s_nodes s)" "set (somes ts) \<subseteq> dom (s_nodes s)" "ts \<noteq> []"
    and "length (t_nodes (topology s)) < 32" "length (t_queues (topology s)) + length (somes ts) < 64"
    and "length (t_targets (topology s) from) < 16" "length (somes ts) \<le> 16"
  shows "\<exists>s'. pipeline_connect_shared (Some from) (Some ts) s = (0, s') \<and> building s' \<and>
    shared_edge from (somes ts) (topology s) (topology s')"
proof -
  define dn where "dn = ''Disp_'' @ take 58 (name_of s from)"
  have "m_results (s_mem s) = []" using assms(1) by (simp add: building_def ample_def)
  then obtain dnode m where c: "dispatcher_node_create (Some dn) DISPATCH_ROUND_ROBIN (s_mem s) = (Some dnode, m)" "m_results m = []"
    "created dn NODE_TYPE_CUSTOM Dispatcher_process (Some \<lparr>strategy = DISPATCH_ROUND_ROBIN, next_index = 0, packets_sent = 0\<rparr>) dnode"
    using dispatcher_ample by blast
  define s0 where "s0 = s\<lparr>s_mem := m\<rparr>"
  define nd where "nd = as_node Dispatcher_context dnode"
  have s0: "building s0" "topology s0 = topology s" "s_nodes s0 = s_nodes s"
    using assms(1) c(2) by (simp_all add: s0_def building_def ample_def)
  obtain d s1 where a: "alloc_node nd s0 = (d, s1)" by (cases "alloc_node nd s0")
  obtain s2 where ad: "pipeline_add_node (Some d) s1 = (0, s2)" "building s2" "d \<notin> dom (s_nodes s0)"
    "topology s2 = enlist d (vertex d (core nd) (topology s0))"
    using add_new_topology [OF s0(1) created_node_ok [OF c(3)] created_simps(1) [OF c(3)] created_simps(2) [OF c(3)] a [unfolded nd_def]]
      assms(5) s0(2) unfolding nd_def by auto
  have dom2: "dom (s_nodes s2) = insert d (dom (s_nodes s))"
  proof -
    have "dom (s_nodes s2) = dom (t_kind (topology s2))" by simp
    also have "\<dots> = insert d (dom (t_kind (topology s)))"
      unfolding ad(4) s0(2) by (auto simp: enlist_def vertex_def)
    finally show ?thesis by simp
  qed
  have fd: "from \<noteq> d" using assms(2) ad(3) s0(3) by auto
  have t2: "t_queues (topology s2) = t_queues (topology s)" "t_targets (topology s2) d = []"
    "t_targets (topology s2) from = t_targets (topology s) from"
    using fd unfolding ad(4) s0(2) by (simp_all add: enlist_def vertex_def)
  obtain s3 where k: "pipeline_connect (Some from) (Some d) s2 = (0, s3)" "building s3" "edge_to from d (topology s2) (topology s3)"
    using building_connect [OF ad(2), of "from" d] dom2 assms(2,6,7) t2 by auto
  have dom3: "dom (s_nodes s3) = insert d (dom (s_nodes s))" using edge_queues [OF k(3)] dom2 by simp
  have "length (t_queues (topology s3)) \<le> length (t_queues (topology s)) + 1" using edge_queues [OF k(3)] t2(1) by simp
  moreover have "length (t_targets (topology s3) d) = 0" using edge_targets [OF k(3), of d] fd t2(2) by simp
  ultimately obtain s' where e: "connect_targets (name_of s3 from) dn d ts s3 = (0, s')" "building s'"
    "links (map (Pair d) (somes ts)) (topology s3) (topology s')"
    using connect_targets_topology [OF k(2), of d ts] dom3 assms(3,6,8) by fastforce
  have "pipeline_connect_shared (Some from) (Some ts) s = (0, s')"
    using c(1) a ad(1) k(1) e(1) assms(4) by (simp add: pipeline_connect_shared_def dn_def nd_def s0_def Let_def)
  moreover have "d \<notin> dom (t_kind (topology s))" using ad(3) s0(3) by simp
  ultimately show ?thesis
    using e(2,3) k(3) created_simps(3) [OF c(3), of Dispatcher_context] unfolding ad(4) s0(2) nd_def shared_edge_def
    by (intro exI [of _ s']) (auto simp del: topology_simps)
qed

subsection \<open>Properties of the wiring\<close>

text \<open>
  C16: Connecting two nodes refines the addition of an edge to the graph of the system. In a system
  that is being built, with fewer than 64 queues and fewer than 16 outputs at the source,
  \<open>pipeline_connect\<close> returns 0 and the new graph is the old one with the edge, through the
  input queue of the target or, if it had none, through a queue that is new to the pipeline.
  The system is well formed and all its queues are empty afterwards.
\<close>

theorem pipeline_connect_refines_edge:
  assumes "building s" "from \<in> dom (s_nodes s)" "to \<in> dom (s_nodes s)"
    and "length (p_queues (s_pipeline s)) < 64" "length (targets (the_node s from)) < 16"
  shows "\<exists>s' q. pipeline_connect (Some from) (Some to) s = (0, s') \<and> building s' \<and>
    q \<notin> set (p_queues (s_pipeline s)) \<and> topology s' = edge from to q (topology s)"
  using connect_topology [OF assms] .

text \<open>
  C17: A shared connection refines a graph operation too: a new vertex, a round-robin dispatcher
  that is the last node of the pipeline, an edge to it from the source, and an edge from it to each
  of the targets in their order.
\<close>

theorem pipeline_connect_shared_refines:
  assumes "building s" "from \<in> dom (s_nodes s)" "set (somes ts) \<subseteq> dom (s_nodes s)" "ts \<noteq> []"
    and "length (t_nodes (topology s)) < 32" "length (t_queues (topology s)) + length (somes ts) < 64"
    and "length (t_targets (topology s) from) < 16" "length (somes ts) \<le> 16"
  shows "\<exists>s'. pipeline_connect_shared (Some from) (Some ts) s = (0, s') \<and> building s' \<and>
    shared_edge from (somes ts) (topology s) (topology s')"
  using connect_shared_topology [OF assms] .

text \<open>
  C19: No connection, successful or not, gives two nodes the same input queue: if every queue has
  at most one consumer before \<open>pipeline_connect\<close>, it has afterwards.
\<close>

theorem pipeline_connect_single_consumer:
  assumes "sys_inv s" "single_consumer s" "from \<in> dom (s_nodes s)" "to \<in> dom (s_nodes s)"
    and "pipeline_connect (Some from) (Some to) s = (r, s')"
  shows "single_consumer s'"
  using connect_single [OF assms] .

text \<open>A system without nodes, and one with three nodes, to try things on.\<close>

definition start_sys :: Sys where
  "start_sys = \<lparr>s_pipeline = \<lparr>p_nodes = [], p_queues = []\<rparr>, s_nodes = Map.empty, s_fresh_nid = 3, s_fresh_qid = 7,
     s_world = \<lparr>w_queues = Map.empty, w_log = [], w_exit = False\<rparr>, s_mem = \<lparr>m_results = [], m_live = 0\<rparr>,
     s_inits = [], s_garbage = (\<lambda>_. empty_ring)\<rparr>"

definition some_node :: "Context Node" where
  "some_node = as_node No_context (the (fst (collector_node_create (Some ''Node'') \<lparr>m_results = [], m_live = 0\<rparr>)))"

definition three_nodes :: Sys where
  "three_nodes = snd (alloc_node some_node (snd (alloc_node some_node (snd (alloc_node some_node start_sys)))))"

lemma start_sys: "building start_sys" "p_nodes (s_pipeline start_sys) = []" "p_queues (s_pipeline start_sys) = []"
  "s_nodes start_sys = Map.empty" "s_fresh_nid start_sys = 3"
  using empty_ring by (simp_all add: building_def ample_def start_sys_def sys_inv_def world_inv_def queue_inv_def)

lemma some_node: "node_ok {} False some_node" "n_input some_node = None" "targets some_node = []"
proof -
  obtain n m' where "collector_node_create (Some ''Node'') \<lparr>m_results = [], m_live = 0\<rparr> = (Some n, m')"
    "created ''Node'' NODE_TYPE_CUSTOM Collector_process None n"
    using collector_ample [of "\<lparr>m_results = [], m_live = 0\<rparr>" "''Node''"] by auto
  then show "node_ok {} False some_node" "n_input some_node = None" "targets some_node = []"
    using created_node_ok created_simps(1,2) by (auto simp: some_node_def)
qed

lemma three_nodes: "building three_nodes" "dom (s_nodes three_nodes) = {3, 4, 5}"
  "the_node three_nodes 3 = some_node" "the_node three_nodes 4 = some_node" "the_node three_nodes 5 = some_node"
  "p_nodes (s_pipeline three_nodes) = []" "p_queues (s_pipeline three_nodes) = []"
proof -
  define s1 where "s1 = snd (alloc_node some_node start_sys)"
  define s2 where "s2 = snd (alloc_node some_node s1)"
  have s1: "building s1" "s_fresh_nid s1 = 4"
    using alloc_topology [OF start_sys(1) some_node, of "fst (alloc_node some_node start_sys)" s1] start_sys(5)
    by (simp_all add: s1_def alloc_node_def)
  have s2: "building s2" "s_fresh_nid s2 = 5"
    using alloc_topology [OF s1(1) some_node, of "fst (alloc_node some_node s1)" s2] s1(2)
    by (simp_all add: s2_def alloc_node_def)
  have t: "three_nodes = snd (alloc_node some_node s2)" by (simp add: three_nodes_def s1_def s2_def)
  show "building three_nodes"
    using alloc_topology [OF s2(1) some_node, of "fst (alloc_node some_node s2)" three_nodes] by (simp add: t)
  have n: "s_nodes three_nodes = [3 \<mapsto> some_node, 4 \<mapsto> some_node, 5 \<mapsto> some_node]"
    using start_sys(4,5) s1(2) s2(2) by (simp add: t s2_def s1_def alloc_node_def)
  show "dom (s_nodes three_nodes) = {3, 4, 5}" by (simp add: n insert_commute)
  show "the_node three_nodes 3 = some_node" "the_node three_nodes 4 = some_node" "the_node three_nodes 5 = some_node"
    by (simp_all add: the_node_def n)
  show "p_nodes (s_pipeline three_nodes) = []" "p_queues (s_pipeline three_nodes) = []"
    using start_sys(2,3) by (simp_all add: t s2_def s1_def alloc_node_def)
qed

lemma pipeline_connect_refines_edge_witness:
  "\<exists>s' q. pipeline_connect (Some 3) (Some 4) three_nodes = (0, s') \<and> topology s' = edge 3 4 q (topology three_nodes)"
  using pipeline_connect_refines_edge [of three_nodes 3 4] three_nodes some_node by auto

lemma pipeline_connect_shared_refines_witness:
  "\<exists>s'. pipeline_connect_shared (Some 3) (Some [Some 4, None, Some 5]) three_nodes = (0, s') \<and>
     shared_edge 3 [4, 5] (topology three_nodes) (topology s')"
  using pipeline_connect_shared_refines [of three_nodes 3 "[Some 4, None, Some 5]"] three_nodes some_node by auto

lemma three_nodes_single: "single_consumer three_nodes"
  using three_nodes(2-5) some_node(2) by (simp add: single_consumer_def)

lemma pipeline_connect_single_consumer_witness:
  "single_consumer (snd (pipeline_connect (Some 3) (Some 4) three_nodes))"
  by (rule pipeline_connect_single_consumer [OF _ three_nodes_single _ _ prod.collapse [symmetric]])
    (use three_nodes in \<open>simp_all add: building_def\<close>)

lemma pipeline_connect_spec_witness:
  "\<exists>q. n_input (the_node (snd (pipeline_connect (Some 3) (Some 4) three_nodes)) 4) = Some q \<and>
     targets (the_node (snd (pipeline_connect (Some 3) (Some 4) three_nodes)) 3) = [q]"
proof -
  have i: "sys_inv three_nodes" "3 \<in> dom (s_nodes three_nodes)" "4 \<in> dom (s_nodes three_nodes)"
    using three_nodes by (simp_all add: building_def)
  obtain s' where c: "pipeline_connect (Some 3) (Some 4) three_nodes = (0, s')"
    using connect_ample [OF i] three_nodes some_node by (auto simp: building_def)
  from pipeline_connect_spec [OF i c] obtain q where "n_input (the_node s' 4) = Some q" "targets (the_node s' 3) = [q]"
    using three_nodes(3) some_node(3) by auto
  then show ?thesis by (simp add: c)
qed

lemma pipeline_connect_shared_spec_witness:
  "\<exists>s' d. pipeline_connect_shared (Some 3) (Some [Some 4, None, Some 5]) three_nodes = (0, s') \<and>
     p_nodes (s_pipeline s') = [d] \<and> length (targets (the_node s' d)) = 2"
proof -
  have i: "sys_inv three_nodes" "3 \<in> dom (s_nodes three_nodes)" "set (somes [Some 4, None, Some 5]) \<subseteq> dom (s_nodes three_nodes)"
    using three_nodes by (simp_all add: building_def)
  obtain s' where c: "pipeline_connect_shared (Some 3) (Some [Some 4, None, Some 5]) three_nodes = (0, s')"
    using connect_shared_topology [of three_nodes 3 "[Some 4, None, Some 5]"] three_nodes some_node by auto
  from pipeline_connect_shared_spec [OF i c] obtain d where d: "p_nodes (s_pipeline s') = [d]"
    "map (\<lambda>t. n_input (the_node s' t)) [4, 5] = map Some (targets (the_node s' d))"
    using three_nodes(6) by auto
  have "length (map Some (targets (the_node s' d))) = 2" unfolding d(2) [symmetric] by simp
  then have "length (targets (the_node s' d)) = 2" by simp
  then show ?thesis using c d(1) by blast
qed

end
