(* ===== verification/Patterns.thy ===== *)
theory Patterns
  imports Wiring
begin

text \<open>
  The two pipelines that the program can build, pipeline_patterns/patterns.c. A pattern creates its
  nodes in a chain that stops at the first failure (\<open>create_all\<close>), adds them to the pipeline
  and connects them; the results of adding and connecting are ignored there (\<open>run_calls\<close>).

  \<open>Host\<close> is the system together with the open descriptors of the process.
\<close>

record Host =
  h_sys :: Sys
  h_fds :: "int list"

record vlan_tagger_context_t =
  vc_tag_rules :: tag_rules_t
  vc_src_dev_name :: string
  vc_dst_dev_name :: string

subsection \<open>Creating the nodes\<close>

text \<open>A node that a creation function returns is an object of the heap.\<close>

definition create_node :: "('c \<Rightarrow> Context) \<Rightarrow> (Mem \<Rightarrow> 'c Node option \<times> Mem) \<Rightarrow> Host \<Rightarrow> nid option \<times> Host" where
  "create_node con create h =
     (let s = h_sys h; (node, m) = create (s_mem s); s = s\<lparr>s_mem := m\<rparr>
      in case node of
           None \<Rightarrow> (None, h\<lparr>h_sys := s\<rparr>)
         | Some node \<Rightarrow> (let (n, s) = alloc_node (as_node con node) s in (Some n, h\<lparr>h_sys := s\<rparr>)))"

definition create_socket_node :: "(Mem \<Rightarrow> os \<Rightarrow> socket_context Node option \<times> Mem \<times> os) \<Rightarrow> Host
    \<Rightarrow> nid option \<times> Host" where
  "create_socket_node create h =
     (let s = h_sys h;
          (node, m, k) = create (s_mem s) \<lparr>o_fds = h_fds h, o_log = w_log (s_world s)\<rparr>;
          s = s\<lparr>s_mem := m, s_world := (s_world s)\<lparr>w_log := o_log k\<rparr>\<rparr>;
          h = h\<lparr>h_fds := o_fds k\<rparr>
      in case node of
           None \<Rightarrow> (None, h\<lparr>h_sys := s\<rparr>)
         | Some node \<Rightarrow> (let (n, s) = alloc_node (as_node Socket_context node) s in (Some n, h\<lparr>h_sys := s\<rparr>)))"

text \<open>The chain \<^verbatim>\<open>!(n1 = ...) || !(n2 = ...) || ...\<close>; the pointers after a failure stay null.\<close>

fun create_all :: "(Host \<Rightarrow> nid option \<times> Host) list \<Rightarrow> Host \<Rightarrow> nid option list \<times> Host" where
  "create_all [] h = ([], h)"
| "create_all (c # cs) h =
     (let (n, h) = c h in
      if n = None then (None # map (\<lambda>_. None) cs, h)
      else (let (ns, h) = create_all cs h in (n # ns, h)))"

definition destroy_all :: "nid option list \<Rightarrow> Host \<Rightarrow> Host" where
  "destroy_all ns h = h\<lparr>h_sys := fold (\<lambda>n s. case n of None \<Rightarrow> s | Some n \<Rightarrow> destroy_node n s) ns (h_sys h)\<rparr>"

definition run_calls :: "(Sys \<Rightarrow> int \<times> Sys) list \<Rightarrow> Host \<Rightarrow> Host" where
  "run_calls cs h = h\<lparr>h_sys := fold (\<lambda>c s. snd (c s)) cs (h_sys h)\<rparr>"

subsection \<open>The patterns\<close>

text \<open>\<open>k_src\<close> and \<open>k_dst\<close> are the answers of the kernel about the two interfaces.\<close>

definition vlan_tagger_pattern :: "kernel \<Rightarrow> kernel \<Rightarrow> vlan_tagger_context_t \<Rightarrow> Host \<Rightarrow> int \<times> Host" where
  "vlan_tagger_pattern k_src k_dst ctx h =
     (let rs = vc_tag_rules ctx;
          (ns, h) = create_all
            [create_socket_node (sniffer_node_create k_src (Some ''Sniffer'') (Some (vc_src_dev_name ctx))),
             create_node Tagger_context (tagger_node_create (Some ''Tagger1'') (Some (rules rs)) (int (rules_size rs))),
             create_node Tagger_context (tagger_node_create (Some ''Tagger2'') (Some (rules rs)) (int (rules_size rs))),
             create_node Counter_context (packet_counter_node_create (Some ''PacketCounter'') 10),
             create_socket_node (sender_node_create k_dst (Some ''Sender'') (Some (vc_dst_dev_name ctx)))] h;
          sniffer = ns ! 0; tagger1 = ns ! 1; tagger2 = ns ! 2; counter = ns ! 3; sender = ns ! 4
      in if None \<in> set ns then (1, destroy_all [sniffer, tagger1, tagger2, counter, sender] h)
         else
           (0, run_calls
             [pipeline_add_node sniffer, pipeline_add_node tagger1, pipeline_add_node tagger2,
              pipeline_add_node counter, pipeline_add_node sender,
              pipeline_connect_shared sniffer (Some [tagger1, tagger2]),
              pipeline_connect tagger1 counter, pipeline_connect tagger2 counter,
              pipeline_connect counter sender] h))"

definition detailed_logging_pattern :: "kernel \<Rightarrow> kernel \<Rightarrow> vlan_tagger_context_t \<Rightarrow> Host \<Rightarrow> int \<times> Host" where
  "detailed_logging_pattern k_src k_dst ctx h =
     (let rs = vc_tag_rules ctx;
          (ns, h) = create_all
            [create_socket_node (sniffer_node_create k_src (Some ''Sniffer'') (Some (vc_src_dev_name ctx))),
             create_node Tagger_context (tagger_node_create (Some ''Tagger1'') (Some (rules rs)) (int (rules_size rs))),
             create_node Tagger_context (tagger_node_create (Some ''Tagger2'') (Some (rules rs)) (int (rules_size rs))),
             create_node No_context (collector_node_create (Some ''Collector'')),
             create_node Logger_context (logger_node_create (Some ''Logger1'') 1),
             create_node Logger_context (logger_node_create (Some ''Logger2'') 1),
             create_node Counter_context (packet_counter_node_create (Some ''PacketCounter'') 10),
             create_socket_node (sender_node_create k_dst (Some ''Sender'') (Some (vc_dst_dev_name ctx)))] h;
          sniffer = ns ! 0; tagger1 = ns ! 1; tagger2 = ns ! 2; collector = ns ! 3; logger1 = ns ! 4;
          logger2 = ns ! 5; counter = ns ! 6; sender = ns ! 7
      in if None \<in> set ns
         then (1, destroy_all [sniffer, tagger1, tagger2, collector, logger1, logger2, counter, sender] h)
         else
           (0, run_calls
             [pipeline_add_node sniffer, pipeline_add_node tagger1, pipeline_add_node tagger2,
              pipeline_add_node collector, pipeline_add_node logger1, pipeline_add_node logger2,
              pipeline_add_node counter, pipeline_add_node sender,
              pipeline_connect_shared sniffer (Some [tagger1, tagger2]), pipeline_connect sniffer logger1,
              pipeline_connect tagger1 collector, pipeline_connect tagger2 collector,
              pipeline_connect collector sender, pipeline_connect collector logger2,
              pipeline_connect collector counter] h))"

subsection \<open>What the parts of a pattern do when nothing fails\<close>

definition new_vertex :: "NodeType \<Rightarrow> node_process_func \<Rightarrow> Context option \<Rightarrow> nid \<Rightarrow> Topology \<Rightarrow> Topology \<Rightarrow> bool" where
  "new_vertex ty process context n t t' \<longleftrightarrow>
     n \<notin> dom (t_kind t) \<and> (\<exists>name. t' = vertex n (name, ty, process, context, False) t)"

lemma alloc_created:
  assumes "building s" "m_results m = []" "created name ty process context node"
    and "alloc_node (as_node con node) (s\<lparr>s_mem := m, s_world := (s_world s)\<lparr>w_log := l\<rparr>\<rparr>) = (n, s')"
  shows "building s' \<and> new_vertex ty process (map_option con context) n (topology s) (topology s')"
proof -
  define s0 where "s0 = s\<lparr>s_mem := m, s_world := (s_world s)\<lparr>w_log := l\<rparr>\<rparr>"
  have s0: "building s0" "topology s0 = topology s" "s_nodes s0 = s_nodes s"
    using assms(1,2) by (simp_all add: s0_def building_def ample_def sys_inv_def world_inv_def packets_def topology_def)
  note a = alloc_topology [OF s0(1) created_node_ok [OF assms(3)] created_simps(1) [OF assms(3)] created_simps(2) [OF assms(3)]
      assms(4) [folded s0_def]]
  show ?thesis
    using a s0 created_simps(3) [OF assms(3), of con] by (auto simp: new_vertex_def)
qed

lemma create_node_up:
  assumes "building (h_sys h)" "create (s_mem (h_sys h)) = (Some node, m)" "m_results m = []"
    and "created name ty process context node"
  shows "\<exists>n h'. create_node con create h = (Some n, h') \<and> building (h_sys h') \<and> h_fds h' = h_fds h \<and>
    new_vertex ty process (map_option con context) n (topology (h_sys h)) (topology (h_sys h'))"
proof -
  obtain n s' where a: "alloc_node (as_node con node) ((h_sys h)\<lparr>s_mem := m\<rparr>) = (n, s')"
    by (cases "alloc_node (as_node con node) ((h_sys h)\<lparr>s_mem := m\<rparr>)")
  have "building s' \<and> new_vertex ty process (map_option con context) n (topology (h_sys h)) (topology s')"
    using alloc_created [OF assms(1,3,4), of con "w_log (s_world (h_sys h))"] a by simp
  then show ?thesis using assms(2) a by (simp add: create_node_def)
qed

lemma create_socket_up:
  assumes "building (h_sys h)" "m_results m = []" "created name ty process (Some (bound_to k)) node"
    and "create (s_mem (h_sys h)) \<lparr>o_fds = h_fds h, o_log = w_log (s_world (h_sys h))\<rparr> =
      (Some node, m, \<lparr>o_fds = h_fds h, o_log = w_log (s_world (h_sys h))\<rparr>\<lparr>o_fds := k_socket k # h_fds h\<rparr>)"
  shows "\<exists>n h'. create_socket_node create h = (Some n, h') \<and> building (h_sys h') \<and> h_fds h' = k_socket k # h_fds h \<and>
    new_vertex ty process (Some (Socket_context (bound_to k))) n (topology (h_sys h)) (topology (h_sys h'))"
proof -
  let ?s = "(h_sys h)\<lparr>s_mem := m, s_world := (s_world (h_sys h))\<lparr>w_log := w_log (s_world (h_sys h))\<rparr>\<rparr>"
  obtain n s' where a: "alloc_node (as_node Socket_context node) ?s = (n, s')"
    by (cases "alloc_node (as_node Socket_context node) ?s")
  have "building s' \<and> new_vertex ty process (Some (Socket_context (bound_to k))) n (topology (h_sys h)) (topology s')"
    using alloc_created [OF assms(1,2,3) a] by simp
  then show ?thesis using assms(4) a by (simp add: create_socket_node_def)
qed

lemma host_ample: "building (h_sys h) \<Longrightarrow> m_results (s_mem (h_sys h)) = []"
  by (simp add: building_def ample_def)

lemma sniffer_up:
  assumes "building (h_sys h)" "interface_up k dev"
  shows "\<exists>n h'. create_socket_node (sniffer_node_create k (Some name) (Some dev)) h = (Some n, h') \<and>
    building (h_sys h') \<and> h_fds h' = k_socket k # h_fds h \<and>
    new_vertex NODE_TYPE_SNIFFER Sniffer_process (Some (Socket_context (bound_to k))) n (topology (h_sys h)) (topology (h_sys h'))"
proof -
  obtain node m where n: "m_results m = []" "created name NODE_TYPE_SNIFFER Sniffer_process (Some (bound_to k)) node"
    "sniffer_node_create k (Some name) (Some dev) (s_mem (h_sys h)) \<lparr>o_fds = h_fds h, o_log = w_log (s_world (h_sys h))\<rparr> =
      (Some node, m, \<lparr>o_fds = h_fds h, o_log = w_log (s_world (h_sys h))\<rparr>\<lparr>o_fds := k_socket k # h_fds h\<rparr>)"
    using sniffer_ample [OF host_ample [OF assms(1)] assms(2), of name "\<lparr>o_fds = h_fds h, o_log = w_log (s_world (h_sys h))\<rparr>"]
    by auto
  from create_socket_up [where create = "sniffer_node_create k (Some name) (Some dev)", OF assms(1) n] show ?thesis .
qed

lemma sender_up:
  assumes "building (h_sys h)" "interface_up k dev"
  shows "\<exists>n h'. create_socket_node (sender_node_create k (Some name) (Some dev)) h = (Some n, h') \<and>
    building (h_sys h') \<and> h_fds h' = k_socket k # h_fds h \<and>
    new_vertex NODE_TYPE_SENDER Sender_process (Some (Socket_context (bound_to k))) n (topology (h_sys h)) (topology (h_sys h'))"
proof -
  obtain node m where n: "m_results m = []" "created name NODE_TYPE_SENDER Sender_process (Some (bound_to k)) node"
    "sender_node_create k (Some name) (Some dev) (s_mem (h_sys h)) \<lparr>o_fds = h_fds h, o_log = w_log (s_world (h_sys h))\<rparr> =
      (Some node, m, \<lparr>o_fds = h_fds h, o_log = w_log (s_world (h_sys h))\<rparr>\<lparr>o_fds := k_socket k # h_fds h\<rparr>)"
    using sender_ample [OF host_ample [OF assms(1)] assms(2), of name "\<lparr>o_fds = h_fds h, o_log = w_log (s_world (h_sys h))\<rparr>"]
    by auto
  from create_socket_up [where create = "sender_node_create k (Some name) (Some dev)", OF assms(1) n] show ?thesis .
qed

definition tagger_context :: "tag_rules_t \<Rightarrow> TaggerContext" where
  "tagger_context rs = \<lparr>tc_rules = map (\<lambda>i. copy_rule (rules rs ! i)) [0..<rules_size rs], tc_size = int (rules_size rs)\<rparr>"

lemma tagger_up:
  assumes "building (h_sys h)" "0 < rules_size rs"
  shows "\<exists>n h'. create_node Tagger_context (tagger_node_create (Some name) (Some (rules rs)) (int (rules_size rs))) h = (Some n, h') \<and>
    building (h_sys h') \<and> h_fds h' = h_fds h \<and>
    new_vertex NODE_TYPE_TAGGER Tagger_process (Some (Tagger_context (tagger_context rs))) n (topology (h_sys h)) (topology (h_sys h'))"
proof -
  obtain node m where "tagger_node_create (Some name) (Some (rules rs)) (int (rules_size rs)) (s_mem (h_sys h)) = (Some node, m)"
    "m_results m = []" "created name NODE_TYPE_TAGGER Tagger_process (Some (tagger_context rs)) node"
    using tagger_ample [OF host_ample [OF assms(1)], of "int (rules_size rs)" name "rules rs"] assms(2)
    by (auto simp: tagger_context_def)
  from create_node_up [where con = Tagger_context and create = "tagger_node_create (Some name) (Some (rules rs)) (int (rules_size rs))", OF assms(1) this] show ?thesis by simp
qed

definition no_packets :: "int \<Rightarrow> PacketCounterContext" where
  "no_packets k = \<lparr>total_packets = 0, total_bytes = 0, vlan_packets = 0, non_vlan_packets = 0, pc_log_interval = k\<rparr>"

lemma packet_counter_up:
  assumes "building (h_sys h)"
  shows "\<exists>n h'. create_node Counter_context (packet_counter_node_create (Some name) 10) h = (Some n, h') \<and>
    building (h_sys h') \<and> h_fds h' = h_fds h \<and>
    new_vertex NODE_TYPE_CUSTOM Packet_counter_process (Some (Counter_context (no_packets 10))) n
      (topology (h_sys h)) (topology (h_sys h'))"
proof -
  obtain node m where "packet_counter_node_create (Some name) 10 (s_mem (h_sys h)) = (Some node, m)"
    "m_results m = []" "created name NODE_TYPE_CUSTOM Packet_counter_process (Some (no_packets 10)) node"
    using packet_counter_ample [OF host_ample [OF assms], of 10 name] by (auto simp: no_packets_def)
  from create_node_up [where con = Counter_context and create = "packet_counter_node_create (Some name) 10", OF assms(1) this] show ?thesis by simp
qed

lemma logger_up:
  assumes "building (h_sys h)"
  shows "\<exists>n h'. create_node Logger_context (logger_node_create (Some name) k) h = (Some n, h') \<and>
    building (h_sys h') \<and> h_fds h' = h_fds h \<and>
    new_vertex NODE_TYPE_CUSTOM Logger_process (Some (Logger_context \<lparr>ln_log_interval = k, packet_count = 0\<rparr>)) n
      (topology (h_sys h)) (topology (h_sys h'))"
proof -
  obtain node m where "logger_node_create (Some name) k (s_mem (h_sys h)) = (Some node, m)"
    "m_results m = []" "created name NODE_TYPE_CUSTOM Logger_process (Some \<lparr>ln_log_interval = k, packet_count = 0\<rparr>) node"
    using logger_ample [OF host_ample [OF assms], of name k] by auto
  from create_node_up [where con = Logger_context and create = "logger_node_create (Some name) k", OF assms(1) this] show ?thesis by simp
qed

lemma collector_up:
  assumes "building (h_sys h)"
  shows "\<exists>n h'. create_node No_context (collector_node_create (Some name)) h = (Some n, h') \<and>
    building (h_sys h') \<and> h_fds h' = h_fds h \<and>
    new_vertex NODE_TYPE_CUSTOM Collector_process None n (topology (h_sys h)) (topology (h_sys h'))"
proof -
  obtain node m where "collector_node_create (Some name) (s_mem (h_sys h)) = (Some node, m)"
    "m_results m = []" "created name NODE_TYPE_CUSTOM Collector_process None node"
    using collector_ample [OF host_ample [OF assms], of name] by auto
  from create_node_up [where con = No_context and create = "collector_node_create (Some name)", OF assms(1) this] show ?thesis by simp
qed

lemma add_all_topology:
  assumes "building s" "distinct ns" "set ns \<subseteq> dom (t_kind (topology s))" "set ns \<inter> set (t_nodes (topology s)) = {}"
    and "length (t_nodes (topology s)) + length ns \<le> 32"
  shows "building (fold (\<lambda>n s. snd (pipeline_add_node (Some n) s)) ns s) \<and>
    topology (fold (\<lambda>n s. snd (pipeline_add_node (Some n) s)) ns s) = fold enlist ns (topology s)"
  using assms
proof (induction ns arbitrary: s)
  case (Cons n ns)
  obtain s1 where s1: "pipeline_add_node (Some n) s = (0, s1)" "building s1" "topology s1 = enlist n (topology s)"
    using add_topology [OF Cons.prems(1), of n] Cons.prems(3-5) by auto
  have k: "dom (t_kind (topology s1)) = dom (t_kind (topology s))" "t_nodes (topology s1) = t_nodes (topology s) @ [n]"
    using Cons.prems(3) unfolding s1(3) by (auto simp: enlist_def)
  from Cons.IH [OF s1(2)] Cons.prems k have
    "building (fold (\<lambda>n s. snd (pipeline_add_node (Some n) s)) ns s1) \<and>
     topology (fold (\<lambda>n s. snd (pipeline_add_node (Some n) s)) ns s1) = fold enlist ns (topology s1)" by auto
  then show ?case using s1(1,3) by simp
qed simp

lemma connect_all_topology:
  assumes "building s" "\<forall>(a, b) \<in> set es. a \<in> dom (t_kind (topology s)) \<and> b \<in> dom (t_kind (topology s))"
    and "length (t_queues (topology s)) + length es \<le> 64"
    and "\<forall>(a, b) \<in> set es. length (t_targets (topology s) a) + length es \<le> 16"
  shows "building (fold (\<lambda>(a, b) s. snd (pipeline_connect (Some a) (Some b) s)) es s) \<and>
    links es (topology s) (topology (fold (\<lambda>(a, b) s. snd (pipeline_connect (Some a) (Some b) s)) es s))"
  using assms
proof (induction es arbitrary: s)
  case (Cons e es)
  obtain a b where e: "e = (a, b)" by (cases e)
  obtain s1 where s1: "pipeline_connect (Some a) (Some b) s = (0, s1)" "building s1" "edge_to a b (topology s) (topology s1)"
    using building_connect [OF Cons.prems(1), of a b] Cons.prems(2-4) e by auto
  note q = edge_queues [OF s1(3)] edge_targets [OF s1(3)]
  have "\<forall>(c, d) \<in> set es. length (t_targets (topology s1) c) + length es \<le> 16"
    using Cons.prems(4) q(2) by fastforce
  then have "building (fold (\<lambda>(a, b) s. snd (pipeline_connect (Some a) (Some b) s)) es s1) \<and>
    links es (topology s1) (topology (fold (\<lambda>(a, b) s. snd (pipeline_connect (Some a) (Some b) s)) es s1))"
    using Cons.prems(2,3) q(1) by (intro Cons.IH s1(2)) auto
  then show ?case using s1(1,3) e by auto
qed simp

subsection \<open>The VLAN pipeline\<close>

text \<open>
  The graph of the pipeline sniffer, dispatcher, two taggers, counter, sender: its six nodes in the
  order of the pipeline, and its five queues, the inputs of the dispatcher, the taggers, the
  counter and the sender.
\<close>

definition vlan_kinds :: "kernel \<Rightarrow> kernel \<Rightarrow> tag_rules_t \<Rightarrow> (NodeType \<times> node_process_func \<times> Context option \<times> bool) option list" where
  "vlan_kinds k_src k_dst rs =
       [Some (NODE_TYPE_SNIFFER, Sniffer_process, Some (Socket_context (bound_to k_src)), True),
        Some (NODE_TYPE_TAGGER, Tagger_process, Some (Tagger_context (tagger_context rs)), True),
        Some (NODE_TYPE_TAGGER, Tagger_process, Some (Tagger_context (tagger_context rs)), True),
        Some (NODE_TYPE_CUSTOM, Packet_counter_process, Some (Counter_context (no_packets 10)), True),
        Some (NODE_TYPE_SENDER, Sender_process, Some (Socket_context (bound_to k_dst)), True),
        Some (NODE_TYPE_CUSTOM, Dispatcher_process,
          Some (Dispatcher_context \<lparr>strategy = DISPATCH_ROUND_ROBIN, next_index = 0, packets_sent = 0\<rparr>), True)]"

definition vlan_graph :: "kernel \<Rightarrow> kernel \<Rightarrow> tag_rules_t \<Rightarrow> nid list \<Rightarrow> qid list \<Rightarrow> Topology \<Rightarrow> bool" where
  "vlan_graph k_src k_dst rs ns qs t \<longleftrightarrow>
     length ns = 6 \<and> length qs = 5 \<and> distinct ns \<and> distinct qs \<and> t_nodes t = ns \<and> t_queues t = qs \<and>
     map (t_input t) ns = [None, Some (qs ! 1), Some (qs ! 2), Some (qs ! 3), Some (qs ! 4), Some (qs ! 0)] \<and>
     map (t_targets t) ns = [[qs ! 0], [qs ! 3], [qs ! 3], [qs ! 4], [], [qs ! 1, qs ! 2]] \<and>
     map (\<lambda>n. map_option snd (t_kind t n)) ns = vlan_kinds k_src k_dst rs"

definition empty_pipeline :: "Topology \<Rightarrow> bool" where
  "empty_pipeline t \<longleftrightarrow> t_nodes t = [] \<and> t_queues t = []"

lemma enlist_all:
  "t_nodes (fold enlist ns t) = t_nodes t @ ns" "t_queues (fold enlist ns t) = t_queues t"
  "t_input (fold enlist ns t) = t_input t" "t_targets (fold enlist ns t) = t_targets t"
  "dom (t_kind (fold enlist ns t)) = dom (t_kind t)"
  "t_kind (fold enlist ns t) n =
     (if n \<in> set ns then map_option (\<lambda>(name, ty, process, con, _). (name, ty, process, con, True)) (t_kind t n)
      else t_kind t n)"
proof -
  have "t_nodes (fold enlist ns t) = t_nodes t @ ns \<and> t_queues (fold enlist ns t) = t_queues t \<and>
      t_input (fold enlist ns t) = t_input t \<and> t_targets (fold enlist ns t) = t_targets t \<and>
      (\<forall>n. t_kind (fold enlist ns t) n =
       (if n \<in> set ns then map_option (\<lambda>(name, ty, process, con, _). (name, ty, process, con, True)) (t_kind t n)
        else t_kind t n))"
    by (induction ns arbitrary: t) (auto simp: enlist_def option.map_comp option.map_ident comp_def case_prod_beta
        intro!: option.map_cong)
  then show "t_nodes (fold enlist ns t) = t_nodes t @ ns" "t_queues (fold enlist ns t) = t_queues t"
    "t_input (fold enlist ns t) = t_input t" "t_targets (fold enlist ns t) = t_targets t"
    "t_kind (fold enlist ns t) n =
     (if n \<in> set ns then map_option (\<lambda>(name, ty, process, con, _). (name, ty, process, con, True)) (t_kind t n)
      else t_kind t n)"
    "dom (t_kind (fold enlist ns t)) = dom (t_kind t)"
    by (auto simp: dom_def split: if_splits)
qed

lemma new_vertexD:
  assumes "new_vertex ty process c n t t'"
  shows "n \<notin> dom (t_kind t)" "dom (t_kind t') = insert n (dom (t_kind t))" "t_nodes t' = t_nodes t" "t_queues t' = t_queues t"
    "map_option (\<lambda>(name, ty, process, con, _). (name, ty, process, con, True)) (t_kind t' n) =
       map_option (\<lambda>(name, ty, process, con, _). (name, ty, process, con, True)) (t_kind t' n)"
    "map_option snd (t_kind t' n) = Some (ty, process, c, False)" "t_input t' n = None" "t_targets t' n = []"
    "m \<noteq> n \<Longrightarrow> t_kind t' m = t_kind t m \<and> t_input t' m = t_input t m \<and> t_targets t' m = t_targets t m"
  using assms by (auto simp: new_vertex_def vertex_def)

lemma listed_kind:
  "map_option snd k = Some (ty, process, c, b) \<Longrightarrow>
   map_option snd (map_option (\<lambda>(name, ty, process, con, _). (name, ty, process, con, True)) k) = Some (ty, process, c, True)"
  by (cases k) auto

text \<open>New vertices, enlisted: they are different, not connected, and the only nodes of the pipeline.\<close>

fun new_vertices :: "(NodeType \<times> node_process_func \<times> Context option) list \<Rightarrow> nid list \<Rightarrow> Topology \<Rightarrow> Topology \<Rightarrow> bool" where
  "new_vertices [] [] t t' \<longleftrightarrow> t' = t"
| "new_vertices ((ty, process, c) # ks) (n # ns) t t' \<longleftrightarrow> (\<exists>u. new_vertex ty process c n t u \<and> new_vertices ks ns u t')"
| "new_vertices _ _ t t' \<longleftrightarrow> False"

lemma new_vertices:
  "new_vertices ks ns t t' \<Longrightarrow>
     distinct ns \<and> set ns \<inter> dom (t_kind t) = {} \<and> dom (t_kind t') = set ns \<union> dom (t_kind t) \<and>
     t_nodes t' = t_nodes t \<and> t_queues t' = t_queues t \<and>
     (\<forall>n \<in> set ns. t_input t' n = None \<and> t_targets t' n = []) \<and>
     map (\<lambda>n. map_option snd (t_kind t' n)) ns = map (\<lambda>(ty, process, c). Some (ty, process, c, False)) ks \<and>
     (\<forall>n. n \<notin> set ns \<longrightarrow> t_kind t' n = t_kind t n \<and> t_input t' n = t_input t n \<and> t_targets t' n = t_targets t n)"
proof (induction ks ns t t' rule: new_vertices.induct)
  case (2 ty process c ks n ns t t')
  then obtain u where u: "new_vertex ty process c n t u" "new_vertices ks ns u t'" by auto
  note d = new_vertexD [OF u(1)]
  note ih = "2.IH" [OF u(2)]
  have h: "distinct ns" "set ns \<inter> dom (t_kind u) = {}" "dom (t_kind t') = set ns \<union> dom (t_kind u)"
    using ih by - (elim conjE, assumption)+
  have n: "n \<notin> set ns" using h(2) d(2) by auto
  then have k: "t_kind t' n = t_kind u n" "t_input t' n = None" "t_targets t' n = []" using ih d(7,8) by simp_all
  have "map (\<lambda>n. map_option snd (t_kind t' n)) (n # ns) =
      map (\<lambda>(ty, process, c). Some (ty, process, c, False)) ((ty, process, c) # ks)"
    using ih k(1) d(6) by simp
  moreover have "\<forall>m. m \<notin> set (n # ns) \<longrightarrow> t_kind t' m = t_kind t m \<and> t_input t' m = t_input t m \<and> t_targets t' m = t_targets t m"
    using ih d(9) by simp
  moreover have "distinct (n # ns)" "t_nodes t' = t_nodes t" "t_queues t' = t_queues t" using ih n d(3,4) by simp_all
  moreover have "set (n # ns) \<inter> dom (t_kind t) = {}" "dom (t_kind t') = set (n # ns) \<union> dom (t_kind t)"
    using h d(1,2) by auto
  moreover have "\<forall>m \<in> set (n # ns). t_input t' m = None \<and> t_targets t' m = []" using ih k(2,3) by simp
  ultimately show ?case by (intro conjI)
qed simp_all

lemma listed_vertices:
  assumes "new_vertices ks ns t t'" "empty_pipeline t"
  defines "v \<equiv> fold enlist ns t'"
  shows "distinct ns \<and> set ns \<subseteq> dom (t_kind v) \<and> t_nodes v = ns \<and> t_queues v = [] \<and>
     (\<forall>n \<in> set ns. t_input v n = None \<and> t_targets v n = []) \<and>
     map (\<lambda>n. map_option snd (t_kind v n)) ns = map (\<lambda>(ty, process, c). Some (ty, process, c, True)) ks"
proof -
  note n = new_vertices [OF assms(1)]
  have m: "map (\<lambda>n. map_option snd (t_kind t' n)) ns = map (\<lambda>(ty, process, c). Some (ty, process, c, False)) ks"
    "distinct ns" "dom (t_kind t') = set ns \<union> dom (t_kind t)" "t_nodes t' = t_nodes t" "t_queues t' = t_queues t"
    "\<forall>n \<in> set ns. t_input t' n = None \<and> t_targets t' n = []"
    using n by - (elim conjE, assumption)+
  have l: "length ks = length ns" using arg_cong [OF m(1), of length] by simp
  have "map_option snd (t_kind v (ns ! i)) = (case ks ! i of (ty, process, c) \<Rightarrow> Some (ty, process, c, True))" if "i < length ns" for i
  proof -
    obtain ty process c where k: "ks ! i = (ty, process, c)" by (cases "ks ! i")
    have "map (\<lambda>n. map_option snd (t_kind t' n)) ns ! i = map (\<lambda>(ty, process, c). Some (ty, process, c, False)) ks ! i"
      using m(1) by (rule arg_cong)
    then have "map_option snd (t_kind t' (ns ! i)) = Some (ty, process, c, False)" using that l k by simp
    from listed_kind [OF this] show ?thesis using that k by (simp add: v_def enlist_all(6))
  qed
  then have "map (\<lambda>n. map_option snd (t_kind v n)) ns = map (\<lambda>(ty, process, c). Some (ty, process, c, True)) ks"
    using l by (intro nth_equalityI) simp_all
  then show ?thesis using m(2-6) assms(2) by (simp add: v_def enlist_all(1-5) empty_pipeline_def)
qed

lemma links_targets: "links es t t' \<Longrightarrow> n \<notin> fst ` set es \<Longrightarrow> t_targets t' n = t_targets t n"
proof (induction es arbitrary: t)
  case (Cons e es)
  then obtain u where u: "edge_to (fst e) (snd e) t u" "links es u t'" by auto
  have "t_targets u n = t_targets t n" using u(1) Cons.prems(2) by (auto simp: edge_to_def edge_def split: option.splits)
  then show ?case using Cons.IH [OF u(2)] Cons.prems(2) by auto
qed simp

text \<open>The dispatcher of a shared connection, as a vertex.\<close>

lemma shared_edgeD:
  assumes "shared_edge from ns t t'"
  obtains d q u v where "d \<notin> dom (t_kind t)" "new_vertex NODE_TYPE_CUSTOM Dispatcher_process (Some (Dispatcher_context
      \<lparr>strategy = DISPATCH_ROUND_ROBIN, next_index = 0, packets_sent = 0\<rparr>)) d t u" "q \<notin> set (t_queues t)"
    "v = edge from d q (enlist d u)" "links (map (Pair d) ns) v t'"
proof -
  obtain d name v where v: "d \<notin> dom (t_kind t)" "edge_to from d (enlist d (vertex d (name, NODE_TYPE_CUSTOM, Dispatcher_process,
          Some (Dispatcher_context \<lparr>strategy = DISPATCH_ROUND_ROBIN, next_index = 0, packets_sent = 0\<rparr>), False) t)) v"
    "links (map (Pair d) ns) v t'"
    using assms unfolding shared_edge_def by blast
  define u where "u = vertex d (name, NODE_TYPE_CUSTOM, Dispatcher_process,
          Some (Dispatcher_context \<lparr>strategy = DISPATCH_ROUND_ROBIN, next_index = 0, packets_sent = 0\<rparr>), False) t"
  obtain q where q: "q \<notin> set (t_queues (enlist d u))" "v = edge from d q (enlist d u)"
    using v(2) unfolding edge_to_def u_def by blast
  have "new_vertex NODE_TYPE_CUSTOM Dispatcher_process (Some (Dispatcher_context
      \<lparr>strategy = DISPATCH_ROUND_ROBIN, next_index = 0, packets_sent = 0\<rparr>)) d t u"
    using v(1) unfolding new_vertex_def u_def by blast
  moreover have "q \<notin> set (t_queues t)" using q(1) by (simp add: u_def enlist_def vertex_def)
  ultimately show ?thesis using that v(1,3) q(2) by blast
qed

lemma shared_edge_bounds:
  assumes "shared_edge from ns t t'" "from \<in> dom (t_kind t)"
  shows "dom (t_kind t) \<subseteq> dom (t_kind t') \<and> length (t_queues t') \<le> length (t_queues t) + 1 + length ns \<and>
    (\<forall>n \<in> dom (t_kind t). n \<noteq> from \<longrightarrow> t_targets t' n = t_targets t n) \<and>
    length (t_targets t' from) = length (t_targets t from) + 1"
proof -
  from assms(1) obtain d q u v where s: "d \<notin> dom (t_kind t)" "new_vertex NODE_TYPE_CUSTOM Dispatcher_process (Some (Dispatcher_context
      \<lparr>strategy = DISPATCH_ROUND_ROBIN, next_index = 0, packets_sent = 0\<rparr>)) d t u" "q \<notin> set (t_queues t)"
    "v = edge from d q (enlist d u)" "links (map (Pair d) ns) v t'" by (rule shared_edgeD)
  note n = new_vertexD [OF s(2)]
  note e = enlist_all [of "[d]" u, simplified]
  have u: "t_targets u m = t_targets t m" if "m \<in> dom (t_kind t)" for m using that s(1) n(9) [of m] by auto
  have v: "v = (enlist d u)\<lparr>t_input := (t_input u)(d \<mapsto> q), t_targets := (t_targets u)(from := t_targets u from @ [q]),
      t_queues := t_queues t @ [q]\<rparr>"
    using s(4) e n(4,7) by (simp add: edge_def)
  have tg: "t_targets t' m = t_targets v m" if "m \<in> dom (t_kind t)" for m
  proof -
    have "m \<noteq> d" using that s(1) by blast
    then show ?thesis by (intro links_targets [OF s(5)]) auto
  qed
  have "t_targets t' m = t_targets t m" if "m \<in> dom (t_kind t)" "m \<noteq> from" for m using tg [OF that(1)] u that v by simp
  moreover have "dom (t_kind v) = insert d (dom (t_kind t))" "length (t_queues v) = length (t_queues t) + 1"
    using n(2) e(5) by (auto simp: v)
  moreover have "length (t_targets t' from) = length (t_targets t from) + 1" using tg [OF assms(2)] u [OF assms(2)] by (simp add: v)
  ultimately show ?thesis using links_bounds [OF s(5)] by auto
qed

definition dispatcher_kind :: "NodeType \<times> node_process_func \<times> Context option \<times> bool" where
  "dispatcher_kind = (NODE_TYPE_CUSTOM, Dispatcher_process,
     Some (Dispatcher_context \<lparr>strategy = DISPATCH_ROUND_ROBIN, next_index = 0, packets_sent = 0\<rparr>), True)"

text \<open>The shared connection of both patterns, from one node to two taggers.\<close>

lemma shared_two:
  assumes "distinct ns \<and> set ns \<subseteq> dom (t_kind v) \<and> t_nodes v = ns \<and> t_queues v = [] \<and>
     (\<forall>n \<in> set ns. t_input v n = None \<and> t_targets v n = []) \<and> map (\<lambda>n. map_option snd (t_kind v n)) ns = kinds"
    and "{sn, t1, t2} \<subseteq> set ns" "distinct [sn, t1, t2]" "shared_edge sn [t1, t2] v v1"
  obtains d q0 q1 q2 i tg where "distinct (ns @ [d])" "distinct [q0, q1, q2]" "t_nodes v1 = ns @ [d]" "t_queues v1 = [q0, q1, q2]"
    "t_input v1 = i(d := Some q0, t1 := Some q1, t2 := Some q2)" "t_targets v1 = tg(sn := [q0], d := [q1, q2])"
    "\<forall>n \<in> set ns. i n = None \<and> tg n = []"
    "map (\<lambda>n. map_option snd (t_kind v1 n)) (ns @ [d]) = kinds @ [Some dispatcher_kind]"
proof -
  from assms(4) obtain d q0 u v0 where s: "d \<notin> dom (t_kind v)" "new_vertex NODE_TYPE_CUSTOM Dispatcher_process (Some (Dispatcher_context
      \<lparr>strategy = DISPATCH_ROUND_ROBIN, next_index = 0, packets_sent = 0\<rparr>)) d v u" "q0 \<notin> set (t_queues v)"
    "v0 = edge sn d q0 (enlist d u)" "links (map (Pair d) [t1, t2]) v0 v1" by (rule shared_edgeD)
  note n = new_vertexD [OF s(2)]
  note e = enlist_all [of "[d]" u, simplified]
  have dn: "d \<notin> set ns" using s(1) assms(1) by blast
  have u: "t_input u m = None" "t_targets u m = []" "t_kind u m = t_kind v m" if "m \<in> set ns" for m
    using n(9) [of m] dn assms(1) that by auto
  have ne: "d \<noteq> sn" "d \<noteq> t1" "d \<noteq> t2" "t1 \<noteq> t2" "t1 \<in> set ns" "t2 \<in> set ns" "sn \<in> set ns" using dn assms(2,3) by auto
  have v0: "v0 = (enlist d u)\<lparr>t_input := (t_input u)(d \<mapsto> q0), t_targets := (t_targets u)(sn := [q0]), t_queues := [q0]\<rparr>"
    using s(4) e n(4,7) u(2) assms(1) ne by (simp add: edge_def)
  obtain q1 q2 where v1: "v1 = edge d t2 q2 (edge d t1 q1 v0)" "q1 \<notin> set (t_queues v0)" "q2 \<notin> set (t_queues (edge d t1 q1 v0))"
    using s(5) by (auto simp: edge_to_def)
  have w1: "edge d t1 q1 v0 = v0\<lparr>t_input := (t_input u)(d \<mapsto> q0, t1 \<mapsto> q1),
      t_targets := (t_targets u)(sn := [q0], d := [q1]), t_queues := [q0, q1]\<rparr>"
    using ne u n(8) by (simp add: v0 edge_def)
  have w2: "v1 = v0\<lparr>t_input := (t_input u)(d \<mapsto> q0, t1 \<mapsto> q1, t2 \<mapsto> q2),
      t_targets := (t_targets u)(sn := [q0], d := [q1, q2]), t_queues := [q0, q1, q2]\<rparr>"
    unfolding v1(1) w1 using ne u by (simp add: edge_def)
  have "q1 \<noteq> q0" "q2 \<noteq> q0" "q2 \<noteq> q1" using v1(2) v1(3) [unfolded w1] by (simp_all add: v0)
  then have dq: "distinct [q0, q1, q2]" by auto
  have k: "t_kind v1 m = (if m = d then map_option (\<lambda>(name, ty, process, con, _). (name, ty, process, con, True)) (t_kind u d) else t_kind u m)" for m
    using e(6) [of m] by (simp add: w2 v0)
  have "map (\<lambda>n. map_option snd (t_kind v1 n)) ns = map (\<lambda>n. map_option snd (t_kind v n)) ns"
    using k u(3) dn by (intro map_cong refl) auto
  moreover have "map_option snd (t_kind v1 d) = Some dispatcher_kind"
    using k [of d] listed_kind [OF n(6)] by (simp add: dispatcher_kind_def)
  ultimately have "map (\<lambda>n. map_option snd (t_kind v1 n)) (ns @ [d]) = kinds @ [Some dispatcher_kind]"
    using assms(1) by simp
  moreover have "t_nodes v1 = ns @ [d]" using e(1) n(3) assms(1) by (simp add: w2 v0)
  ultimately show ?thesis
    using dn assms(1) dq u by (intro that [of d q0 q1 q2 "t_input u" "t_targets u"]) (simp_all add: w2)
qed

text \<open>A single connection, to a node without an input or with one.\<close>

lemma edge_new: "t_input t b = None \<Longrightarrow> edge a b q t =
    t\<lparr>t_input := (t_input t)(b \<mapsto> q), t_targets := (t_targets t)(a := t_targets t a @ [q]), t_queues := t_queues t @ [q]\<rparr>"
  by (simp add: edge_def)

lemma edge_old: "t_input t b = Some p \<Longrightarrow> edge a b q t = t\<lparr>t_targets := (t_targets t)(a := t_targets t a @ [p])\<rparr>"
  by (simp add: edge_def)

lemma links_new:
  assumes "links ((a, b) # es) t t'" "t_input t b = None"
  obtains q where "q \<notin> set (t_queues t)" "links es (t\<lparr>t_input := (t_input t)(b \<mapsto> q),
     t_targets := (t_targets t)(a := t_targets t a @ [q]), t_queues := t_queues t @ [q]\<rparr>) t'"
  using assms by (auto simp: edge_to_def edge_new)

lemma links_old:
  assumes "links ((a, b) # es) t t'" "t_input t b = Some p"
  shows "links es (t\<lparr>t_targets := (t_targets t)(a := t_targets t a @ [p])\<rparr>) t'"
  using assms by (auto simp: edge_to_def edge_old)

lemma vlan_edges:
  assumes v: "distinct ns \<and> set ns \<subseteq> dom (t_kind v) \<and> t_nodes v = ns \<and> t_queues v = [] \<and>
     (\<forall>n \<in> set ns. t_input v n = None \<and> t_targets v n = []) \<and> map (\<lambda>n. map_option snd (t_kind v n)) ns = butlast (vlan_kinds k_src k_dst rs)"
    and ns: "ns = [sn, t1, t2, cn, se]"
    and "shared_edge sn [t1, t2] v v1" "links [(t1, cn), (t2, cn), (cn, se)] v1 w"
  shows "\<exists>ns qs. vlan_graph k_src k_dst rs ns qs w"
proof -
  have "{sn, t1, t2} \<subseteq> set ns" "distinct [sn, t1, t2]" using v ns by auto
  from shared_two [OF v this assms(3)] obtain d q0 q1 q2 i tg where s: "distinct (ns @ [d])" "distinct [q0, q1, q2]"
    "t_nodes v1 = ns @ [d]" "t_queues v1 = [q0, q1, q2]"
    "t_input v1 = i(d := Some q0, t1 := Some q1, t2 := Some q2)" "t_targets v1 = tg(sn := [q0], d := [q1, q2])"
    "\<forall>n \<in> set ns. i n = None \<and> tg n = []"
    "map (\<lambda>n. map_option snd (t_kind v1 n)) (ns @ [d]) = butlast (vlan_kinds k_src k_dst rs) @ [Some dispatcher_kind]" by blast
  have ds: "distinct [sn, t1, t2, cn, se, d]" "distinct (rev [sn, t1, t2, cn, se, d])" using s(1) ns by auto
  have "t_input v1 cn = None" using s(5,7) ds ns by simp
  from links_new [OF assms(4) this] obtain q3 where q3: "q3 \<notin> set (t_queues v1)"
    "links [(t2, cn), (cn, se)] (v1\<lparr>t_input := (t_input v1)(cn \<mapsto> q3), t_targets := (t_targets v1)(t1 := [q3]),
       t_queues := [q0, q1, q2, q3]\<rparr>) w"
    using s(4,6,7) ds ns by auto
  from links_old [OF q3(2), of q3] obtain v2 where v2: "links [(cn, se)] v2 w"
    "t_input v2 = (t_input v1)(cn \<mapsto> q3)" "t_targets v2 = (t_targets v1)(t1 := [q3], t2 := [q3])" "t_queues v2 = [q0, q1, q2, q3]"
    "t_nodes v2 = t_nodes v1" "t_kind v2 = t_kind v1"
    using s(6,7) ds ns by auto
  have "t_input v2 se = None" using v2(2) s(5,7) ds ns by simp
  from links_new [OF v2(1) this] obtain q4 where w: "q4 \<notin> set (t_queues v2)" "w = v2\<lparr>t_input := (t_input v2)(se \<mapsto> q4),
     t_targets := (t_targets v2)(cn := t_targets v2 cn @ [q4]), t_queues := t_queues v2 @ [q4]\<rparr>" by auto
  have q4: "q4 \<notin> {q0, q1, q2, q3}"
    "t_input w = (t_input v1)(cn \<mapsto> q3, se \<mapsto> q4)" "t_targets w = (t_targets v1)(t1 := [q3], t2 := [q3], cn := [q4])"
    "t_queues w = [q0, q1, q2, q3, q4]" "t_nodes w = t_nodes v1" "t_kind w = t_kind v1"
    using w(1) v2(2-6) s(6,7) ds ns by (simp_all add: w(2))
  have dq: "distinct [q0, q1, q2, q3, q4]" "distinct (rev [q0, q1, q2, q3, q4])" using s(2,4) q3(1) q4(1) by auto
  have "t_nodes w = ns @ [d]" "length (ns @ [d]) = 6" using s(3) ns by (simp_all add: q4(2-6))
  moreover have "map (t_input w) (ns @ [d]) = [None, Some q1, Some q2, Some q3, Some q4, Some q0]"
    "map (t_targets w) (ns @ [d]) = [[q0], [q3], [q3], [q4], [], [q1, q2]]"
    using s(5-7) ds ns by (simp_all add: q4(2-6))
  moreover have "map (\<lambda>n. map_option snd (t_kind w n)) (ns @ [d]) = vlan_kinds k_src k_dst rs"
    using s(8) by (simp add: q4(2-6) vlan_kinds_def dispatcher_kind_def)
  ultimately have "vlan_graph k_src k_dst rs (ns @ [d]) [q0, q1, q2, q3, q4] w"
    using s(1) dq by (simp add: vlan_graph_def q4(2-6))
  then show ?thesis by blast
qed

lemma add_new_vertices:
  assumes "building s" "new_vertices ks ns t (topology s)" "empty_pipeline t" "length ns \<le> 32"
  shows "\<exists>s'. fold (\<lambda>c s. snd (c s)) (map (\<lambda>n. pipeline_add_node (Some n)) ns) s = s' \<and> building s' \<and>
    topology s' = fold enlist ns (topology s)"
proof -
  note n = new_vertices [OF assms(2)]
  have "t_nodes (topology s) = []" using n assms(3) by (simp add: empty_pipeline_def)
  moreover have "set ns \<subseteq> dom (t_kind (topology s))" using n by blast
  ultimately show ?thesis
    using add_all_topology [OF assms(1), of ns] n assms(4) by (simp add: fold_map comp_def)
qed

lemma connect_all_calls:
  assumes "building s" "\<forall>(a, b) \<in> set es. a \<in> dom (t_kind (topology s)) \<and> b \<in> dom (t_kind (topology s))"
    and "length (t_queues (topology s)) + length es \<le> 64"
    and "\<forall>(a, b) \<in> set es. length (t_targets (topology s) a) + length es \<le> 16"
  shows "\<exists>s'. fold (\<lambda>c s. snd (c s)) (map (\<lambda>(a, b). pipeline_connect (Some a) (Some b)) es) s = s' \<and> building s' \<and>
    links es (topology s) (topology s')"
  using connect_all_topology [OF assms] by (simp add: fold_map comp_def split_def)

text \<open>A creation that succeeds, with the kind of its node and the descriptors it opens.\<close>

definition makes :: "(Host \<Rightarrow> nid option \<times> Host) \<Rightarrow> NodeType \<times> node_process_func \<times> Context option \<Rightarrow> int list \<Rightarrow> bool" where
  "makes c k fds \<longleftrightarrow>
     (\<forall>h. building (h_sys h) \<longrightarrow> (\<exists>n h'. c h = (Some n, h') \<and> building (h_sys h') \<and> h_fds h' = fds @ h_fds h \<and>
        new_vertex (fst k) (fst (snd k)) (snd (snd k)) n (topology (h_sys h)) (topology (h_sys h'))))"

lemma makes_nodes:
  "interface_up k dev \<Longrightarrow> makes (create_socket_node (sniffer_node_create k (Some name) (Some dev)))
     (NODE_TYPE_SNIFFER, Sniffer_process, Some (Socket_context (bound_to k))) [k_socket k]"
  "interface_up k dev \<Longrightarrow> makes (create_socket_node (sender_node_create k (Some name) (Some dev)))
     (NODE_TYPE_SENDER, Sender_process, Some (Socket_context (bound_to k))) [k_socket k]"
  "0 < rules_size rs \<Longrightarrow> makes (create_node Tagger_context (tagger_node_create (Some name) (Some (rules rs)) (int (rules_size rs))))
     (NODE_TYPE_TAGGER, Tagger_process, Some (Tagger_context (tagger_context rs))) []"
  "makes (create_node Counter_context (packet_counter_node_create (Some name) 10))
     (NODE_TYPE_CUSTOM, Packet_counter_process, Some (Counter_context (no_packets 10))) []"
  "makes (create_node Logger_context (logger_node_create (Some name) i))
     (NODE_TYPE_CUSTOM, Logger_process, Some (Logger_context \<lparr>ln_log_interval = i, packet_count = 0\<rparr>)) []"
  "makes (create_node No_context (collector_node_create (Some name))) (NODE_TYPE_CUSTOM, Collector_process, None) []"
  using sniffer_up sender_up tagger_up packet_counter_up logger_up collector_up by (simp_all add: makes_def)

lemma create_all_up:
  "list_all2 (\<lambda>c k. makes c (fst k) (snd k)) cs ks \<Longrightarrow> building (h_sys h) \<Longrightarrow>
     \<exists>ns h'. create_all cs h = (map Some ns, h') \<and> building (h_sys h') \<and> h_fds h' = concat (map snd (rev ks)) @ h_fds h \<and>
       length ns = length ks \<and> new_vertices (map fst ks) ns (topology (h_sys h)) (topology (h_sys h'))"
proof (induction cs ks arbitrary: h rule: list_all2_induct)
  case (Cons c cs k ks)
  obtain n h1 where c: "c h = (Some n, h1)" "building (h_sys h1)" "h_fds h1 = snd k @ h_fds h"
    "new_vertex (fst (fst k)) (fst (snd (fst k))) (snd (snd (fst k))) n (topology (h_sys h)) (topology (h_sys h1))"
    using Cons.hyps(1) Cons.prems unfolding makes_def by blast
  obtain ns h' where r: "create_all cs h1 = (map Some ns, h')" "building (h_sys h')" "h_fds h' = concat (map snd (rev ks)) @ h_fds h1"
    "length ns = length ks" "new_vertices (map fst ks) ns (topology (h_sys h1)) (topology (h_sys h'))"
    using Cons.IH [OF c(2)] by blast
  have "new_vertices (map fst (k # ks)) (n # ns) (topology (h_sys h)) (topology (h_sys h'))"
    using c(4) r(5) by (cases "fst k") (auto simp del: topology_simps)
  then show ?case
    using c(1,3) r(1-4) by (intro exI [of _ "n # ns"] exI [of _ h']) (simp del: topology_simps new_vertices.simps)
qed simp

text \<open>Adding the nodes, one shared connection, and then single connections.\<close>

lemma wire_up:
  assumes "building s" "new_vertices ks ns t (topology s)" "empty_pipeline t" "length ns \<le> 31"
    and "from \<in> set ns" "set pool \<subseteq> set ns" "pool \<noteq> []" "fst ` set es \<union> snd ` set es \<subseteq> set ns"
    and "length pool + length es \<le> 15"
  shows "\<exists>s' v. fold (\<lambda>c s. snd (c s)) (map (\<lambda>n. pipeline_add_node (Some n)) ns @
        pipeline_connect_shared (Some from) (Some (map Some pool)) #
        map (\<lambda>(a, b). pipeline_connect (Some a) (Some b)) es) s = s' \<and> building s' \<and>
      shared_edge from pool (fold enlist ns (topology s)) v \<and> links es v (topology s')"
proof -
  obtain s6 where s6: "fold (\<lambda>c s. snd (c s)) (map (\<lambda>n. pipeline_add_node (Some n)) ns) s = s6" "building s6"
    "topology s6 = fold enlist ns (topology s)"
    using add_new_vertices [OF assms(1-3)] assms(4) by auto
  note v6 = listed_vertices [OF assms(2,3), folded s6(3)]
  have d6: "set ns \<subseteq> dom (t_kind (topology s6))" using v6 by blast
  have so: "somes (map Some pool) = pool" by (induction pool) simp_all
  have f6: "from \<in> dom (s_nodes s6)" "set (somes (map Some pool)) \<subseteq> dom (s_nodes s6)" "map Some pool \<noteq> []"
    using d6 assms(5-7) so by auto
  have tg: "t_targets (topology s6) n = []" if "n \<in> set ns" for n using v6 that by blast
  obtain s7 where s7: "pipeline_connect_shared (Some from) (Some (map Some pool)) s6 = (0, s7)" "building s7"
    "shared_edge from pool (topology s6) (topology s7)"
    using connect_shared_topology [OF s6(2) f6] v6 assms(4,9) tg [OF assms(5)] so by (auto simp del: topology_simps)
  have fd: "from \<in> dom (t_kind (topology s6))" using d6 assms(5) by blast
  note b = shared_edge_bounds [OF s7(3) fd]
  have len: "length (t_targets (topology s7) n) \<le> 1" if "n \<in> set ns" for n
    using b d6 tg [OF that] tg [OF assms(5)] that by (cases "n = from") (auto simp del: topology_simps)
  obtain s8 where s8: "fold (\<lambda>c s. snd (c s)) (map (\<lambda>(a, b). pipeline_connect (Some a) (Some b)) es) s7 = s8" "building s8"
    "links es (topology s7) (topology s8)"
  proof -
    have e: "a \<in> set ns \<and> b \<in> set ns" if "(a, b) \<in> set es" for a b using assms(8) that by force
    have "\<forall>(a, b) \<in> set es. a \<in> dom (t_kind (topology s7)) \<and> b \<in> dom (t_kind (topology s7))"
      using e b d6 by blast
    moreover have "length (t_queues (topology s7)) + length es \<le> 64" using b v6 assms(9) by (simp del: topology_simps)
    moreover have "\<forall>(a, b) \<in> set es. length (t_targets (topology s7) a) + length es \<le> 16"
      using e len assms(9) by fastforce
    ultimately show ?thesis using connect_all_calls [OF s7(2)] that by blast
  qed
  then show ?thesis using s6(1,3) s7(1,3) by (auto simp del: topology_simps)
qed

lemma vlan_pattern_graph:
  assumes "building (h_sys h)" "empty_pipeline (topology (h_sys h))"
    and "interface_up k_src (vc_src_dev_name ctx)" "interface_up k_dst (vc_dst_dev_name ctx)"
    and "0 < rules_size (vc_tag_rules ctx)"
  shows "\<exists>h' ns qs. vlan_tagger_pattern k_src k_dst ctx h = (0, h') \<and> building (h_sys h') \<and>
    h_fds h' = k_socket k_dst # k_socket k_src # h_fds h \<and>
    vlan_graph k_src k_dst (vc_tag_rules ctx) ns qs (topology (h_sys h'))"
proof -
  let ?rs = "vc_tag_rules ctx"
  let ?cs = "[create_socket_node (sniffer_node_create k_src (Some ''Sniffer'') (Some (vc_src_dev_name ctx))),
     create_node Tagger_context (tagger_node_create (Some ''Tagger1'') (Some (rules ?rs)) (int (rules_size ?rs))),
     create_node Tagger_context (tagger_node_create (Some ''Tagger2'') (Some (rules ?rs)) (int (rules_size ?rs))),
     create_node Counter_context (packet_counter_node_create (Some ''PacketCounter'') 10),
     create_socket_node (sender_node_create k_dst (Some ''Sender'') (Some (vc_dst_dev_name ctx)))]"
  let ?ks = "[((NODE_TYPE_SNIFFER, Sniffer_process, Some (Socket_context (bound_to k_src))), [k_socket k_src]),
     ((NODE_TYPE_TAGGER, Tagger_process, Some (Tagger_context (tagger_context ?rs))), []),
     ((NODE_TYPE_TAGGER, Tagger_process, Some (Tagger_context (tagger_context ?rs))), []),
     ((NODE_TYPE_CUSTOM, Packet_counter_process, Some (Counter_context (no_packets 10))), []),
     ((NODE_TYPE_SENDER, Sender_process, Some (Socket_context (bound_to k_dst))), [k_socket k_dst])]"
  have mk: "list_all2 (\<lambda>c k. makes c (fst k) (snd k)) ?cs ?ks"
    using assms(3-5) by (simp add: makes_nodes)
  obtain ns h5 where c: "create_all ?cs h = (map Some ns, h5)" "building (h_sys h5)"
    "h_fds h5 = concat (map snd (rev ?ks)) @ h_fds h" "length ns = length ?ks"
    "new_vertices (map fst ?ks) ns (topology (h_sys h)) (topology (h_sys h5))"
    using create_all_up [OF mk assms(1)] by blast
  obtain sn t1 t2 cn se where ns: "ns = [sn, t1, t2, cn, se]"
    using c(4) by (auto simp: length_Suc_conv)
  let ?es = "[(t1, cn), (t2, cn), (cn, se)]"
  have "length ns \<le> 31" "sn \<in> set ns" "set [t1, t2] \<subseteq> set ns" "[t1, t2] \<noteq> []"
    "fst ` set ?es \<union> snd ` set ?es \<subseteq> set ns" "length [t1, t2] + length ?es \<le> 15" by (simp_all add: ns)
  from wire_up [OF c(2,5) assms(2) this] obtain s' v where w: "fold (\<lambda>c s. snd (c s))
        (map (\<lambda>n. pipeline_add_node (Some n)) ns @ pipeline_connect_shared (Some sn) (Some (map Some [t1, t2])) #
         map (\<lambda>(a, b). pipeline_connect (Some a) (Some b)) ?es) (h_sys h5) = s'"
      "building s'" "shared_edge sn [t1, t2] (fold enlist ns (topology (h_sys h5))) v" "links ?es v (topology s')"
    by blast
  have "vlan_tagger_pattern k_src k_dst ctx h = (0, h5\<lparr>h_sys := s'\<rparr>)"
    using c(1) w(1) by (simp add: vlan_tagger_pattern_def run_calls_def ns del: create_all.simps)
  moreover have "\<exists>ns qs. vlan_graph k_src k_dst ?rs ns qs (topology s')"
    using listed_vertices [OF c(5) assms(2)]
    by (intro vlan_edges [OF _ ns w(3,4)]) (simp del: topology_simps add: vlan_kinds_def)
  ultimately show ?thesis using w(2) c(3) by auto
qed

subsection \<open>The pipeline with detailed logging\<close>

text \<open>
  The nodes sniffer, taggers, collector, loggers, counter, sender and dispatcher; the queues are the
  inputs of dispatcher, taggers, first logger, collector, sender, second logger and counter.
\<close>

definition logging_kinds :: "kernel \<Rightarrow> kernel \<Rightarrow> tag_rules_t \<Rightarrow> (NodeType \<times> node_process_func \<times> Context option \<times> bool) option list" where
  "logging_kinds k_src k_dst rs =
       [Some (NODE_TYPE_SNIFFER, Sniffer_process, Some (Socket_context (bound_to k_src)), True),
        Some (NODE_TYPE_TAGGER, Tagger_process, Some (Tagger_context (tagger_context rs)), True),
        Some (NODE_TYPE_TAGGER, Tagger_process, Some (Tagger_context (tagger_context rs)), True),
        Some (NODE_TYPE_CUSTOM, Collector_process, None, True),
        Some (NODE_TYPE_CUSTOM, Logger_process, Some (Logger_context \<lparr>ln_log_interval = 1, packet_count = 0\<rparr>), True),
        Some (NODE_TYPE_CUSTOM, Logger_process, Some (Logger_context \<lparr>ln_log_interval = 1, packet_count = 0\<rparr>), True),
        Some (NODE_TYPE_CUSTOM, Packet_counter_process, Some (Counter_context (no_packets 10)), True),
        Some (NODE_TYPE_SENDER, Sender_process, Some (Socket_context (bound_to k_dst)), True),
        Some (NODE_TYPE_CUSTOM, Dispatcher_process,
          Some (Dispatcher_context \<lparr>strategy = DISPATCH_ROUND_ROBIN, next_index = 0, packets_sent = 0\<rparr>), True)]"

definition logging_graph :: "kernel \<Rightarrow> kernel \<Rightarrow> tag_rules_t \<Rightarrow> nid list \<Rightarrow> qid list \<Rightarrow> Topology \<Rightarrow> bool" where
  "logging_graph k_src k_dst rs ns qs t \<longleftrightarrow>
     length ns = 9 \<and> length qs = 8 \<and> distinct ns \<and> distinct qs \<and> t_nodes t = ns \<and> t_queues t = qs \<and>
     map (t_input t) ns = [None, Some (qs ! 1), Some (qs ! 2), Some (qs ! 4), Some (qs ! 3), Some (qs ! 6), Some (qs ! 7),
       Some (qs ! 5), Some (qs ! 0)] \<and>
     map (t_targets t) ns = [[qs ! 0, qs ! 3], [qs ! 4], [qs ! 4], [qs ! 5, qs ! 6, qs ! 7], [], [], [], [], [qs ! 1, qs ! 2]] \<and>
     map (\<lambda>n. map_option snd (t_kind t n)) ns = logging_kinds k_src k_dst rs"

text \<open>One more edge, to a node that has no input yet, on a graph given by its parts.\<close>

lemma links_step:
  assumes "links ((a, b) # es) t w" "t_input t = i" "t_targets t = tg" "t_queues t = qs" "i b = None"
  obtains q t' where "q \<notin> set qs" "links es t' w" "t_input t' = i(b \<mapsto> q)" "t_targets t' = tg(a := tg a @ [q])"
    "t_queues t' = qs @ [q]" "t_nodes t' = t_nodes t" "t_kind t' = t_kind t"
proof -
  from assms have "t_input t b = None" by simp
  from links_new [OF assms(1) this] obtain q where q: "q \<notin> set (t_queues t)" "links es (t\<lparr>t_input := (t_input t)(b \<mapsto> q),
     t_targets := (t_targets t)(a := t_targets t a @ [q]), t_queues := t_queues t @ [q]\<rparr>) w" by blast
  show ?thesis using q(1) assms(2-4) by (intro that [OF _ q(2)]) simp_all
qed

lemma links_step_old:
  assumes "links ((a, b) # es) t w" "t_input t = i" "t_targets t = tg" "t_queues t = qs" "i b = Some q"
  obtains t' where "links es t' w" "t_input t' = i" "t_targets t' = tg(a := tg a @ [q])"
    "t_queues t' = qs" "t_nodes t' = t_nodes t" "t_kind t' = t_kind t"
proof -
  from assms have "t_input t b = Some q" by simp
  from links_old [OF assms(1) this] show ?thesis using assms(2-4) by - (rule that, assumption, simp_all)
qed

lemma logging_edges:
  assumes v: "distinct ns \<and> set ns \<subseteq> dom (t_kind v) \<and> t_nodes v = ns \<and> t_queues v = [] \<and>
     (\<forall>n \<in> set ns. t_input v n = None \<and> t_targets v n = []) \<and>
     map (\<lambda>n. map_option snd (t_kind v n)) ns = butlast (logging_kinds k_src k_dst rs)"
    and ns: "ns = [sn, t1, t2, co, l1, l2, cn, se]"
    and "shared_edge sn [t1, t2] v v1"
    and "links [(sn, l1), (t1, co), (t2, co), (co, se), (co, l2), (co, cn)] v1 w"
  shows "\<exists>ns qs. logging_graph k_src k_dst rs ns qs w"
proof -
  have "{sn, t1, t2} \<subseteq> set ns" "distinct [sn, t1, t2]" using v ns by auto
  from shared_two [OF v this assms(3)] obtain d q0 q1 q2 i tg where s: "distinct (ns @ [d])" "distinct [q0, q1, q2]"
    "t_nodes v1 = ns @ [d]" "t_queues v1 = [q0, q1, q2]"
    "t_input v1 = i(d := Some q0, t1 := Some q1, t2 := Some q2)" "t_targets v1 = tg(sn := [q0], d := [q1, q2])"
    "\<forall>n \<in> set ns. i n = None \<and> tg n = []"
    "map (\<lambda>n. map_option snd (t_kind v1 n)) (ns @ [d]) = butlast (logging_kinds k_src k_dst rs) @ [Some dispatcher_kind]" by blast
  have "distinct [sn, t1, t2, co, l1, l2, cn, se, d] \<and> distinct (rev [sn, t1, t2, co, l1, l2, cn, se, d])" using s(1) ns by auto
  note ds = this [simplified]
  have f: "i n = None" "tg n = []" if "n \<in> {sn, t1, t2, co, l1, l2, cn, se}" for n using s(7) ns that by auto
  obtain q3 w1 where w1: "q3 \<notin> set [q0, q1, q2]" "links [(t1, co), (t2, co), (co, se), (co, l2), (co, cn)] w1 w"
    "t_input w1 = i(d := Some q0, t1 := Some q1, t2 := Some q2, l1 := Some q3)"
    "t_targets w1 = tg(sn := [q0, q3], d := [q1, q2])" "t_queues w1 = [q0, q1, q2, q3]" "t_nodes w1 = ns @ [d]" "t_kind w1 = t_kind v1"
    by (rule links_step [OF assms(4) s(5,6,4)]) (simp_all add: ds f s(3) fun_upd_twist)
  obtain q4 w2 where w2: "q4 \<notin> set [q0, q1, q2, q3]" "links [(t2, co), (co, se), (co, l2), (co, cn)] w2 w"
    "t_input w2 = i(d := Some q0, t1 := Some q1, t2 := Some q2, l1 := Some q3, co := Some q4)"
    "t_targets w2 = tg(sn := [q0, q3], d := [q1, q2], t1 := [q4])" "t_queues w2 = [q0, q1, q2, q3, q4]"
    "t_nodes w2 = ns @ [d]" "t_kind w2 = t_kind v1"
    by (rule links_step [OF w1(2-5)]) (simp_all add: ds f w1(6,7))
  obtain w3 where w3: "links [(co, se), (co, l2), (co, cn)] w3 w"
    "t_input w3 = i(d := Some q0, t1 := Some q1, t2 := Some q2, l1 := Some q3, co := Some q4)"
    "t_targets w3 = tg(sn := [q0, q3], d := [q1, q2], t1 := [q4], t2 := [q4])" "t_queues w3 = [q0, q1, q2, q3, q4]"
    "t_nodes w3 = ns @ [d]" "t_kind w3 = t_kind v1"
    by (rule links_step_old [OF w2(2-5)]) (simp_all add: ds f w2(6,7))
  obtain q5 w4 where w4: "q5 \<notin> set [q0, q1, q2, q3, q4]" "links [(co, l2), (co, cn)] w4 w"
    "t_input w4 = i(d := Some q0, t1 := Some q1, t2 := Some q2, l1 := Some q3, co := Some q4, se := Some q5)"
    "t_targets w4 = tg(sn := [q0, q3], d := [q1, q2], t1 := [q4], t2 := [q4], co := [q5])" "t_queues w4 = [q0, q1, q2, q3, q4, q5]"
    "t_nodes w4 = ns @ [d]" "t_kind w4 = t_kind v1"
    by (rule links_step [OF w3(1-4)]) (simp_all add: ds f w3(5,6))
  obtain q6 w5 where w5: "q6 \<notin> set [q0, q1, q2, q3, q4, q5]" "links [(co, cn)] w5 w"
    "t_input w5 = i(d := Some q0, t1 := Some q1, t2 := Some q2, l1 := Some q3, co := Some q4, se := Some q5, l2 := Some q6)"
    "t_targets w5 = tg(sn := [q0, q3], d := [q1, q2], t1 := [q4], t2 := [q4], co := [q5, q6])"
    "t_queues w5 = [q0, q1, q2, q3, q4, q5, q6]" "t_nodes w5 = ns @ [d]" "t_kind w5 = t_kind v1"
    by (rule links_step [OF w4(2-5)]) (simp_all add: ds f w4(6,7))
  obtain q7 where w6: "q7 \<notin> set [q0, q1, q2, q3, q4, q5, q6]"
    "t_input w = i(d := Some q0, t1 := Some q1, t2 := Some q2, l1 := Some q3, co := Some q4, se := Some q5, l2 := Some q6, cn := Some q7)"
    "t_targets w = tg(sn := [q0, q3], d := [q1, q2], t1 := [q4], t2 := [q4], co := [q5, q6, q7])"
    "t_queues w = [q0, q1, q2, q3, q4, q5, q6, q7]" "t_nodes w = ns @ [d]" "t_kind w = t_kind v1"
    by (rule links_step [OF w5(2-5)]) (simp_all add: ds f w5(6,7))
  let ?qs = "[q0, q1, q2, q3, q4, q5, q6, q7]"
  have "distinct ?qs" using s(2) w1(1) w2(1) w4(1) w5(1) w6(1) by auto
  moreover have "map (t_input w) (ns @ [d]) = [None, Some q1, Some q2, Some q4, Some q3, Some q6, Some q7, Some q5, Some q0]"
    "map (t_targets w) (ns @ [d]) = [[q0, q3], [q4], [q4], [q5, q6, q7], [], [], [], [], [q1, q2]]"
    by (simp_all add: w6(2,3) ns ds f)
  moreover have "map (\<lambda>n. map_option snd (t_kind w n)) (ns @ [d]) = logging_kinds k_src k_dst rs"
    using s(8) by (simp add: w6(6) logging_kinds_def dispatcher_kind_def)
  ultimately have "logging_graph k_src k_dst rs (ns @ [d]) ?qs w"
    using s(1) w6(4,5) by (simp add: logging_graph_def ns)
  then show ?thesis by blast
qed

lemma logging_pattern_graph:
  assumes "building (h_sys h)" "empty_pipeline (topology (h_sys h))"
    and "interface_up k_src (vc_src_dev_name ctx)" "interface_up k_dst (vc_dst_dev_name ctx)"
    and "0 < rules_size (vc_tag_rules ctx)"
  shows "\<exists>h' ns qs. detailed_logging_pattern k_src k_dst ctx h = (0, h') \<and> building (h_sys h') \<and>
    h_fds h' = k_socket k_dst # k_socket k_src # h_fds h \<and>
    logging_graph k_src k_dst (vc_tag_rules ctx) ns qs (topology (h_sys h'))"
proof -
  let ?rs = "vc_tag_rules ctx"
  let ?cs = "[create_socket_node (sniffer_node_create k_src (Some ''Sniffer'') (Some (vc_src_dev_name ctx))),
     create_node Tagger_context (tagger_node_create (Some ''Tagger1'') (Some (rules ?rs)) (int (rules_size ?rs))),
     create_node Tagger_context (tagger_node_create (Some ''Tagger2'') (Some (rules ?rs)) (int (rules_size ?rs))),
     create_node No_context (collector_node_create (Some ''Collector'')),
     create_node Logger_context (logger_node_create (Some ''Logger1'') 1),
     create_node Logger_context (logger_node_create (Some ''Logger2'') 1),
     create_node Counter_context (packet_counter_node_create (Some ''PacketCounter'') 10),
     create_socket_node (sender_node_create k_dst (Some ''Sender'') (Some (vc_dst_dev_name ctx)))]"
  let ?ks = "[((NODE_TYPE_SNIFFER, Sniffer_process, Some (Socket_context (bound_to k_src))), [k_socket k_src]),
     ((NODE_TYPE_TAGGER, Tagger_process, Some (Tagger_context (tagger_context ?rs))), []),
     ((NODE_TYPE_TAGGER, Tagger_process, Some (Tagger_context (tagger_context ?rs))), []),
     ((NODE_TYPE_CUSTOM, Collector_process, None), []),
     ((NODE_TYPE_CUSTOM, Logger_process, Some (Logger_context \<lparr>ln_log_interval = 1, packet_count = 0\<rparr>)), []),
     ((NODE_TYPE_CUSTOM, Logger_process, Some (Logger_context \<lparr>ln_log_interval = 1, packet_count = 0\<rparr>)), []),
     ((NODE_TYPE_CUSTOM, Packet_counter_process, Some (Counter_context (no_packets 10))), []),
     ((NODE_TYPE_SENDER, Sender_process, Some (Socket_context (bound_to k_dst))), [k_socket k_dst])]"
  have mk: "list_all2 (\<lambda>c k. makes c (fst k) (snd k)) ?cs ?ks"
    using assms(3-5) by (simp add: makes_nodes)
  obtain ns h5 where c: "create_all ?cs h = (map Some ns, h5)" "building (h_sys h5)"
    "h_fds h5 = concat (map snd (rev ?ks)) @ h_fds h" "length ns = length ?ks"
    "new_vertices (map fst ?ks) ns (topology (h_sys h)) (topology (h_sys h5))"
    using create_all_up [OF mk assms(1)] by blast
  obtain sn t1 t2 co l1 l2 cn se where ns: "ns = [sn, t1, t2, co, l1, l2, cn, se]"
    using c(4) by (auto simp: length_Suc_conv)
  let ?es = "[(sn, l1), (t1, co), (t2, co), (co, se), (co, l2), (co, cn)]"
  have "length ns \<le> 31" "sn \<in> set ns" "set [t1, t2] \<subseteq> set ns" "[t1, t2] \<noteq> []"
    "fst ` set ?es \<union> snd ` set ?es \<subseteq> set ns" "length [t1, t2] + length ?es \<le> 15" by (simp_all add: ns)
  from wire_up [OF c(2,5) assms(2) this] obtain s' v where w: "fold (\<lambda>c s. snd (c s))
        (map (\<lambda>n. pipeline_add_node (Some n)) ns @ pipeline_connect_shared (Some sn) (Some (map Some [t1, t2])) #
         map (\<lambda>(a, b). pipeline_connect (Some a) (Some b)) ?es) (h_sys h5) = s'"
      "building s'" "shared_edge sn [t1, t2] (fold enlist ns (topology (h_sys h5))) v" "links ?es v (topology s')"
    by blast
  have "detailed_logging_pattern k_src k_dst ctx h = (0, h5\<lparr>h_sys := s'\<rparr>)"
    using c(1) w(1) by (simp add: detailed_logging_pattern_def run_calls_def ns del: create_all.simps)
  moreover have "\<exists>ns qs. logging_graph k_src k_dst ?rs ns qs (topology s')"
    using listed_vertices [OF c(5) assms(2)]
    by (intro logging_edges [OF _ ns w(3,4)]) (simp del: topology_simps add: logging_kinds_def)
  ultimately show ?thesis using w(2) c(3) by auto
qed

subsection \<open>What a failed pattern leaves behind\<close>

definition unused_above :: "Sys \<Rightarrow> bool" where
  "unused_above s \<longleftrightarrow> (\<forall>n \<ge> s_fresh_nid s. s_nodes s n = None)"

text \<open>
  A creation that fails changes nothing but the log; one that succeeds allocates a node, its outputs
  and \<open>b\<close> further blocks, and opens \<open>fds\<close>.
\<close>

definition leaves :: "(Host \<Rightarrow> nid option \<times> Host) \<Rightarrow> nat \<Rightarrow> int list \<Rightarrow> bool" where
  "leaves c b fds \<longleftrightarrow> (\<forall>h res h'. unused_above (h_sys h) \<longrightarrow> c h = (res, h') \<longrightarrow>
     unused_above (h_sys h') \<and> s_pipeline (h_sys h') = s_pipeline (h_sys h) \<and>
     w_queues (s_world (h_sys h')) = w_queues (s_world (h_sys h)) \<and>
     (case res of
        None \<Rightarrow> s_nodes (h_sys h') = s_nodes (h_sys h) \<and> m_live (s_mem (h_sys h')) = m_live (s_mem (h_sys h)) \<and> h_fds h' = h_fds h
      | Some n \<Rightarrow> s_nodes (h_sys h) n = None \<and> (\<forall>m. m \<noteq> n \<longrightarrow> s_nodes (h_sys h') m = s_nodes (h_sys h) m) \<and>
          m_live (s_mem (h_sys h')) = m_live (s_mem (h_sys h)) + b + 2 \<and> h_fds h' = fds @ h_fds h))"

lemma create_node_leaves:
  assumes "\<And>m res m'. create m = (res, m') \<Longrightarrow> m_live m' = (if res = None then m_live m else m_live m + b + 2)"
  shows "leaves (create_node con create) b []"
  unfolding leaves_def
proof (intro allI impI)
  fix h res h'
  assume u: "unused_above (h_sys h)" and c: "create_node con create h = (res, h')"
  obtain r m where m: "create (s_mem (h_sys h)) = (r, m)" by (cases "create (s_mem (h_sys h))")
  show "unused_above (h_sys h') \<and> s_pipeline (h_sys h') = s_pipeline (h_sys h) \<and>
     w_queues (s_world (h_sys h')) = w_queues (s_world (h_sys h)) \<and>
     (case res of
        None \<Rightarrow> s_nodes (h_sys h') = s_nodes (h_sys h) \<and> m_live (s_mem (h_sys h')) = m_live (s_mem (h_sys h)) \<and> h_fds h' = h_fds h
      | Some n \<Rightarrow> s_nodes (h_sys h) n = None \<and> (\<forall>m. m \<noteq> n \<longrightarrow> s_nodes (h_sys h') m = s_nodes (h_sys h) m) \<and>
          m_live (s_mem (h_sys h')) = m_live (s_mem (h_sys h)) + b + 2 \<and> h_fds h' = [] @ h_fds h)"
    using u c m assms [OF m] by (auto simp: create_node_def alloc_node_def unused_above_def Let_def split: option.splits)
qed

lemma create_socket_leaves:
  assumes "\<And>m s res m' s'. create m s = (res, m', s') \<Longrightarrow>
     m_live m' = (if res = None then m_live m else m_live m + b + 2) \<and> o_fds s' = (if res = None then o_fds s else fds @ o_fds s)"
  shows "leaves (create_socket_node create) b fds"
  unfolding leaves_def
proof (intro allI impI)
  fix h res h'
  assume u: "unused_above (h_sys h)" and c: "create_socket_node create h = (res, h')"
  obtain r m s where m: "create (s_mem (h_sys h)) \<lparr>o_fds = h_fds h, o_log = w_log (s_world (h_sys h))\<rparr> = (r, m, s)"
    by (cases "create (s_mem (h_sys h)) \<lparr>o_fds = h_fds h, o_log = w_log (s_world (h_sys h))\<rparr>") auto
  show "unused_above (h_sys h') \<and> s_pipeline (h_sys h') = s_pipeline (h_sys h) \<and>
     w_queues (s_world (h_sys h')) = w_queues (s_world (h_sys h)) \<and>
     (case res of
        None \<Rightarrow> s_nodes (h_sys h') = s_nodes (h_sys h) \<and> m_live (s_mem (h_sys h')) = m_live (s_mem (h_sys h)) \<and> h_fds h' = h_fds h
      | Some n \<Rightarrow> s_nodes (h_sys h) n = None \<and> (\<forall>m. m \<noteq> n \<longrightarrow> s_nodes (h_sys h') m = s_nodes (h_sys h) m) \<and>
          m_live (s_mem (h_sys h')) = m_live (s_mem (h_sys h)) + b + 2 \<and> h_fds h' = fds @ h_fds h)"
    using u c m assms [OF m] by (auto simp: create_socket_node_def alloc_node_def unused_above_def Let_def split: option.splits)
qed

lemma create_live:
  "tagger_node_create name rs k m = (t, m') \<Longrightarrow> m_live m' = (if t = None then m_live m else m_live m + 2 + 2)"
  "packet_counter_node_create name i m = (c, m') \<Longrightarrow> m_live m' = (if c = None then m_live m else m_live m + 1 + 2)"
  by (auto simp: tagger_node_create_def packet_counter_node_create_def Let_def
      dest!: calloc_live node_create_live split: option.splits prod.splits if_splits)

lemma leaves_nodes:
  "leaves (create_node con (tagger_node_create name rs k)) 2 []"
  "leaves (create_node con' (packet_counter_node_create name i)) 1 []"
  "-1 \<le> k_socket ks \<Longrightarrow> leaves (create_socket_node (sniffer_node_create ks name dev)) 1 [k_socket ks]"
  "-1 \<le> k_socket ks \<Longrightarrow> leaves (create_socket_node (sender_node_create ks name dev)) 1 [k_socket ks]"
  using create_live by (blast intro: create_node_leaves)+
    (auto intro!: create_socket_leaves simp: socket_creates dest!: socket_create_leak split: option.splits)

text \<open>\<open>j\<close> nodes are created before the first failure.\<close>

lemma create_all_leaves:
  assumes "list_all2 (\<lambda>c k. leaves c (fst k) (snd k)) cs ks" "unused_above (h_sys h)" "create_all cs h = (ns, h')"
  shows "\<exists>j \<le> length cs. (None \<in> set ns \<longleftrightarrow> j < length cs) \<and>
    s_pipeline (h_sys h') = s_pipeline (h_sys h) \<and> w_queues (s_world (h_sys h')) = w_queues (s_world (h_sys h)) \<and>
    (\<forall>m. Some m \<in> set ns \<longrightarrow> s_nodes (h_sys h) m = None) \<and>
    (\<forall>m. Some m \<notin> set ns \<longrightarrow> s_nodes (h_sys h') m = s_nodes (h_sys h) m) \<and>
    length (somes ns) = j \<and> length ns = length cs \<and>
    m_live (s_mem (h_sys h')) = m_live (s_mem (h_sys h)) + sum_list (map fst (take j ks)) + 2 * j \<and>
    h_fds h' = concat (map snd (rev (take j ks))) @ h_fds h"
  using assms
proof (induction cs ks arbitrary: h ns rule: list_all2_induct)
  case Nil
  then show ?case by simp
next
  case (Cons c cs k ks)
  obtain n h1 where c: "c h = (n, h1)" by (cases "c h")
  note l = Cons.hyps(1) [unfolded leaves_def, rule_format, OF Cons.prems(1) c]
  show ?case
  proof (cases n)
    case None
    then have e: "ns = None # map (\<lambda>_. None) cs" "h' = h1" using Cons.prems(2) c by auto
    have "somes (map (\<lambda>_. None) cs) = []" by (induction cs) simp_all
    then show ?thesis using l None e by (intro exI [of _ 0]) auto
  next
    case (Some i)
    obtain ns' where e: "create_all cs h1 = (ns', h')" "ns = Some i # ns'"
      using Cons.prems(2) c Some by (auto split: prod.splits)
    have u1: "unused_above (h_sys h1)" using l by blast
    from Cons.IH [OF u1 e(1)] obtain j where j: "j \<le> length cs" "None \<in> set ns' \<longleftrightarrow> j < length cs"
      "s_pipeline (h_sys h') = s_pipeline (h_sys h1)" "w_queues (s_world (h_sys h')) = w_queues (s_world (h_sys h1))"
      "\<forall>m. Some m \<in> set ns' \<longrightarrow> s_nodes (h_sys h1) m = None"
      "\<forall>m. Some m \<notin> set ns' \<longrightarrow> s_nodes (h_sys h') m = s_nodes (h_sys h1) m"
      "length (somes ns') = j" "length ns' = length cs"
      "m_live (s_mem (h_sys h')) = m_live (s_mem (h_sys h1)) + sum_list (map fst (take j ks)) + 2 * j"
      "h_fds h' = concat (map snd (rev (take j ks))) @ h_fds h1" by blast
    have l1: "s_nodes (h_sys h) i = None" "\<forall>m. m \<noteq> i \<longrightarrow> s_nodes (h_sys h1) m = s_nodes (h_sys h) m"
      "m_live (s_mem (h_sys h1)) = m_live (s_mem (h_sys h)) + fst k + 2" "h_fds h1 = snd k @ h_fds h"
      "s_pipeline (h_sys h1) = s_pipeline (h_sys h)" "w_queues (s_world (h_sys h1)) = w_queues (s_world (h_sys h))"
      using l Some by auto
    have "\<forall>m. Some m \<in> set ns \<longrightarrow> s_nodes (h_sys h) m = None" using j(5) l1(1,2) e(2) by (metis option.inject set_ConsD)
    moreover have "\<forall>m. Some m \<notin> set ns \<longrightarrow> s_nodes (h_sys h') m = s_nodes (h_sys h) m" using j(6) l1(2) e(2) by auto
    ultimately show ?thesis using j l1(3-6) e(2) by (intro exI [of _ "Suc j"]) auto
  qed
qed

lemma destroy_all_leaves:
  "s_pipeline (h_sys (destroy_all ns h)) = s_pipeline (h_sys h) \<and>
   w_queues (s_world (h_sys (destroy_all ns h))) = w_queues (s_world (h_sys h)) \<and>
   h_fds (destroy_all ns h) = h_fds h \<and>
   s_nodes (h_sys (destroy_all ns h)) m = (if Some m \<in> set ns then None else s_nodes (h_sys h) m) \<and>
   m_live (s_mem (h_sys (destroy_all ns h))) = m_live (s_mem (h_sys h)) - 2 * length (somes ns)"
proof (induction ns arbitrary: h)
  case (Cons n ns)
  have "destroy_all (n # ns) h = destroy_all ns (h\<lparr>h_sys := (case n of None \<Rightarrow> h_sys h | Some n \<Rightarrow> destroy_node n (h_sys h))\<rparr>)"
    by (simp add: destroy_all_def)
  then show ?case
    using Cons.IH by (cases n) (auto simp: destroy_node_def node_destroy_def)
qed (simp add: destroy_all_def)

lemma vlan_pattern_failure:
  assumes "unused_above (h_sys h)" "vlan_tagger_pattern k_src k_dst ctx h = (r, h')" "r \<noteq> 0"
    and "-1 \<le> k_socket k_src" "-1 \<le> k_socket k_dst"
  shows "r = 1 \<and> s_pipeline (h_sys h') = s_pipeline (h_sys h) \<and> s_nodes (h_sys h') = s_nodes (h_sys h) \<and>
    w_queues (s_world (h_sys h')) = w_queues (s_world (h_sys h)) \<and>
    (\<exists>j \<le> 4. m_live (s_mem (h_sys h')) = m_live (s_mem (h_sys h)) + [0, 1, 3, 5, 6] ! j \<and>
       h_fds h' = (if j = 0 then h_fds h else k_socket k_src # h_fds h))"
proof -
  let ?rs = "vc_tag_rules ctx"
  let ?cs = "[create_socket_node (sniffer_node_create k_src (Some ''Sniffer'') (Some (vc_src_dev_name ctx))),
     create_node Tagger_context (tagger_node_create (Some ''Tagger1'') (Some (rules ?rs)) (int (rules_size ?rs))),
     create_node Tagger_context (tagger_node_create (Some ''Tagger2'') (Some (rules ?rs)) (int (rules_size ?rs))),
     create_node Counter_context (packet_counter_node_create (Some ''PacketCounter'') 10),
     create_socket_node (sender_node_create k_dst (Some ''Sender'') (Some (vc_dst_dev_name ctx)))]"
  let ?ks = "[(1 :: nat, [k_socket k_src]), (2, []), (2, []), (1, []), (1, [k_socket k_dst])]"
  obtain ns h5 where c: "create_all ?cs h = (ns, h5)" by (cases "create_all ?cs h")
  have "list_all2 (\<lambda>c k. leaves c (fst k) (snd k)) ?cs ?ks" using assms(4,5) leaves_nodes by simp
  from create_all_leaves [OF this assms(1) c] obtain j where j: "j \<le> 5" "None \<in> set ns \<longleftrightarrow> j < 5"
    "s_pipeline (h_sys h5) = s_pipeline (h_sys h)" "w_queues (s_world (h_sys h5)) = w_queues (s_world (h_sys h))"
    "\<forall>m. Some m \<in> set ns \<longrightarrow> s_nodes (h_sys h) m = None"
    "\<forall>m. Some m \<notin> set ns \<longrightarrow> s_nodes (h_sys h5) m = s_nodes (h_sys h) m"
    "length (somes ns) = j" "length ns = 5"
    "m_live (s_mem (h_sys h5)) = m_live (s_mem (h_sys h)) + sum_list (map fst (take j ?ks)) + 2 * j"
    "h_fds h5 = concat (map snd (rev (take j ?ks))) @ h_fds h" by auto
  have ns: "[ns ! 0, ns ! 1, ns ! 2, ns ! 3, ns ! 4] = ns"
    using j(8) by (auto simp: length_Suc_conv numeral_nat)
  have f: "None \<in> set ns" "r = 1" "h' = destroy_all ns h5"
    using assms(2,3) c ns by (auto simp: vlan_tagger_pattern_def Let_def simp del: create_all.simps split: if_splits)
  have "s_nodes (h_sys h') = s_nodes (h_sys h)"
    using destroy_all_leaves [of ns h5] j(5,6) f(3) by auto
  moreover have "m_live (s_mem (h_sys h')) = m_live (s_mem (h_sys h)) + sum_list (map fst (take j ?ks))"
    using destroy_all_leaves [of ns h5] j(7,9) f(3) by auto
  moreover have "j \<in> {0, 1, 2, 3, 4}" using f(1) j(2) by auto
  ultimately show ?thesis
    using destroy_all_leaves [of ns h5] f(2,3) j(3,4,10) by (intro conjI exI [of _ j]) auto
qed

subsection \<open>Properties of the patterns\<close>

text \<open>
  C11: When the interfaces can be opened, memory is available and there is at least one rule,
  \<open>vlan_tagger_pattern\<close> returns 0 and leaves exactly the graph that main.c announces: the
  sniffer sends to a round-robin dispatcher, which sends to two taggers with the loaded rules;
  both taggers share the input queue of the counter, and the counter sends to the sender. There
  are five queues, all empty, and every node looks at the exit flag of the pipeline.
\<close>

theorem vlan_tagger_pattern_spec:
  assumes "building (h_sys h)" "empty_pipeline (topology (h_sys h))"
    and "interface_up k_src (vc_src_dev_name ctx)" "interface_up k_dst (vc_dst_dev_name ctx)"
    and "0 < rules_size (vc_tag_rules ctx)"
  shows "\<exists>h' ns qs. vlan_tagger_pattern k_src k_dst ctx h = (0, h') \<and> building (h_sys h') \<and>
    h_fds h' = k_socket k_dst # k_socket k_src # h_fds h \<and>
    vlan_graph k_src k_dst (vc_tag_rules ctx) ns qs (topology (h_sys h'))"
  using vlan_pattern_graph [OF assms] .

text \<open>
  C32: Under the same conditions \<open>detailed_logging_pattern\<close> returns 0 and leaves the graph with
  detailed logging: the sniffer sends to the dispatcher of the two taggers and to the first
  logger, the taggers to one collector, and the collector to the sender, the second logger and the
  counter.
\<close>

theorem detailed_logging_pattern_spec:
  assumes "building (h_sys h)" "empty_pipeline (topology (h_sys h))"
    and "interface_up k_src (vc_src_dev_name ctx)" "interface_up k_dst (vc_dst_dev_name ctx)"
    and "0 < rules_size (vc_tag_rules ctx)"
  shows "\<exists>h' ns qs. detailed_logging_pattern k_src k_dst ctx h = (0, h') \<and> building (h_sys h') \<and>
    h_fds h' = k_socket k_dst # k_socket k_src # h_fds h \<and>
    logging_graph k_src k_dst (vc_tag_rules ctx) ns qs (topology (h_sys h'))"
  using logging_pattern_graph [OF assms] .


lemma no_rules_fails: "rules_size (vc_tag_rules ctx) = 0 \<Longrightarrow> fst (vlan_tagger_pattern k_src k_dst ctx h) = 1"
  by (auto simp: vlan_tagger_pattern_def create_node_def tagger_node_create_def Let_def split: prod.splits)

definition start_host :: Host where
  "start_host = \<lparr>h_sys = start_sys, h_fds = []\<rparr>"

definition good_kernel :: "int \<Rightarrow> kernel" where
  "good_kernel fd = \<lparr>k_socket = fd, k_ifindex = Some 2, k_bind = True, k_errno = 0\<rparr>"

definition one_rule :: tag_rules_t where
  "one_rule = \<lparr>rules = replicate 128 \<lparr>ip_left = 0x0100000A, ip_right = 0x0900000A, tag = 100\<rparr>, rules_size = 1\<rparr>"

definition some_context :: "tag_rules_t \<Rightarrow> vlan_tagger_context_t" where
  "some_context rs = \<lparr>vc_tag_rules = rs, vc_src_dev_name = ''eth0'', vc_dst_dev_name = ''eth1''\<rparr>"

lemma start_host: "building (h_sys start_host)" "empty_pipeline (topology (h_sys start_host))" "h_fds start_host = []"
  "m_live (s_mem (h_sys start_host)) = 0" "unused_above (h_sys start_host)"
  using start_sys by (simp_all add: start_host_def empty_pipeline_def start_sys_def unused_above_def)

lemma good_kernel: "0 \<le> fd \<Longrightarrow> interface_up (good_kernel fd) ''eth0''" "0 \<le> fd \<Longrightarrow> interface_up (good_kernel fd) ''eth1''"
  "k_socket (good_kernel fd) = fd"
  by (simp_all add: interface_up_def good_kernel_def strlen_def cstr_def)

lemma vlan_tagger_pattern_spec_witness:
  "\<exists>h' ns qs. vlan_tagger_pattern (good_kernel 3) (good_kernel 4) (some_context one_rule) start_host = (0, h') \<and>
     h_fds h' = [4, 3] \<and> vlan_graph (good_kernel 3) (good_kernel 4) one_rule ns qs (topology (h_sys h'))"
  using vlan_tagger_pattern_spec [OF start_host(1,2), of "good_kernel 3" "some_context one_rule" "good_kernel 4"] good_kernel start_host(3)
  by (auto simp: some_context_def one_rule_def)

lemma detailed_logging_pattern_spec_witness:
  "\<exists>h' ns qs. detailed_logging_pattern (good_kernel 3) (good_kernel 4) (some_context one_rule) start_host = (0, h') \<and>
     h_fds h' = [4, 3] \<and> logging_graph (good_kernel 3) (good_kernel 4) one_rule ns qs (topology (h_sys h'))"
  using detailed_logging_pattern_spec [OF start_host(1,2), of "good_kernel 3" "some_context one_rule" "good_kernel 4"] good_kernel start_host(3)
  by (auto simp: some_context_def one_rule_def)


end
