(* ===== verification/Main_Program.thy ===== *)
theory Main_Program
  imports Patterns
begin

text \<open>
  The program, main.c: the checks before and after the fork, the loading of the rules, the building
  and starting of the pipeline, and \<open>cleanup\<close>. What the system answers is the record
  \<open>env\<close>. The pipeline is a global object, so the \<open>free\<close> at the end of
  \<open>pipeline_destroy\<close> has no defined effect (\<open>Undefined\<close>); nor has a message when the
  log could not be opened, since the result of \<open>start_log\<close> is ignored and every path from
  there on writes one. \<open>Blocked_in\<close> is waiting for a thread that does not end. What goes to
  the standard streams is left out.
\<close>

definition DEFAULT_CONFIG_PATH :: string where "DEFAULT_CONFIG_PATH = ''vlan-tagger.cfg''"
definition EXIT_SUCCESS :: int where "EXIT_SUCCESS = 0"
definition EXIT_FAILURE :: int where "EXIT_FAILURE = 1"

record env =
  e_argv :: "string list"
  e_fork :: int
  e_setsid :: int
  e_log :: bool                        \<comment> \<open>\<open>start_log\<close> returns 0\<close>
  e_rlimit :: bool                     \<comment> \<open>\<open>setrlimit\<close> returns 0\<close>
  e_signals :: "bool list"             \<comment> \<open>which of the three handlers can be set\<close>
  e_fs :: "string \<Rightarrow> FILE option"
  e_src :: kernel
  e_dst :: kernel
  e_creates :: "bool list"             \<comment> \<open>the results of \<open>pthread_create\<close>\<close>
  e_join :: "nid \<Rightarrow> world \<Rightarrow> world option"

datatype run =
    Exited int Host
  | Blocked_in Host
  | Undefined Host

definition say :: "Type_e \<Rightarrow> Sender_e \<Rightarrow> string \<Rightarrow> Host \<Rightarrow> Host" where
  "say ty se text h = h\<lparr>h_sys := (h_sys h)\<lparr>s_world := log_to ty se text (s_world (h_sys h))\<rparr>\<rparr>"

subsection \<open>The functions\<close>

text \<open>The handler of SIGINT, SIGSEGV and SIGTERM; \<^const>\<open>None\<close>: it does not return.\<close>

definition signal_handler :: "(nid \<Rightarrow> world \<Rightarrow> world option) \<Rightarrow> int \<Rightarrow> Sys \<Rightarrow> Sys option" where
  "signal_handler join signal s =
     pipeline_stop join (sys_log INFO (''Received signal '' @ show_int signal @ '', stopping pipeline'') s)"

text \<open>\<open>cleanup\<close> followed by \<open>exit\<close>; \<open>stop_log\<close> only closes the log.\<close>

definition cleanup_exit :: "int \<Rightarrow> Host \<Rightarrow> run" where
  "cleanup_exit code h =
     (case pipeline_destroy False (h_sys h) of
        None \<Rightarrow> Undefined h
      | Some s \<Rightarrow> Exited code (h\<lparr>h_sys := s\<rparr>))"

text \<open>The result and the table; \<^const>\<open>None\<close> for undefined behaviour of the parser.\<close>

definition fill_tag_rules :: "(string \<Rightarrow> FILE option) \<Rightarrow> tag_rules_t \<Rightarrow> string \<Rightarrow> Host \<Rightarrow> (int \<times> tag_rules_t \<times> Host) option" where
  "fill_tag_rules fs tag_rules config_path h =
     (case tag_rules_load fs (Some tag_rules) (Some config_path) of
        None \<Rightarrow> None
      | Some (result, rs) \<Rightarrow>
          (let rs = the rs in
           if result < 0
           then Some (1, rs, say ERROR PARSER (''Error loading config (code: '' @ show_int result @ '')!'') h)
           else
             (let h = (if result = 0 then say WARNING PARSER ''No rules loaded from config file!'' h else h) in
              Some (0, rs, say INFO PARSER
                (''Loaded '' @ show_int result @ '' tag rules from '' @ config_path) h))))"

fun join_all :: "(nid \<Rightarrow> world \<Rightarrow> world option) \<Rightarrow> nid list \<Rightarrow> Host \<Rightarrow> Host option" where
  "join_all join [] h = Some h"
| "join_all join (n # ns) h =
     (case join n (s_world (h_sys h)) of
        None \<Rightarrow> None
      | Some w \<Rightarrow> join_all join ns (h\<lparr>h_sys := (h_sys h)\<lparr>s_world := w\<rparr>\<rparr>))"

text \<open>\<open>main\<close> from \<open>start_log\<close> on, with an open log.\<close>

definition main_daemon :: "env \<Rightarrow> Host \<Rightarrow> run" where
  "main_daemon e h =
     (if \<not> e_rlimit e
      then cleanup_exit EXIT_FAILURE (say ERROR INITIATOR ''Error setting stack size limit'' h)
      else if False \<in> set (e_signals e)
      then cleanup_exit EXIT_FAILURE (say ERROR INITIATOR ''Signal processing error'' h)
      else
        (case fill_tag_rules (e_fs e) zero_rules DEFAULT_CONFIG_PATH h of
           None \<Rightarrow> Undefined h
         | Some (r, global_tag_rules, h) \<Rightarrow>
             (if r \<noteq> 0
              then cleanup_exit EXIT_FAILURE (say ERROR PARSER ''Error reading tag rules!'' h)
              else
                (let (r, s) = pipeline_init (h_sys h); h = h\<lparr>h_sys := s\<rparr> in
                 if r \<noteq> 0
                 then cleanup_exit EXIT_FAILURE (say ERROR INITIATOR ''Failed to init pipeline'' h)
                 else
                   (let ctx = \<lparr>vc_tag_rules = global_tag_rules, vc_src_dev_name = e_argv e ! 1,
                               vc_dst_dev_name = e_argv e ! 2\<rparr>;
                        (r, h) = pipeline_build (Some (vlan_tagger_pattern (e_src e) (e_dst e) ctx)) h
                    in if r \<noteq> 0
                       then cleanup_exit EXIT_FAILURE (say ERROR INITIATOR ''Failed to build pipeline'' h)
                       else
                         (let h = say INFO INITIATOR ''Pipeline configured:'' h;
                              h = say INFO INITIATOR
                                    ''  Sniffer -> [Tagger1, Tagger2] -> PacketCounter -> Sender'' h;
                              (r, s) = pipeline_start (e_creates e) (h_sys h); h = h\<lparr>h_sys := s\<rparr>
                          in if r \<noteq> 0
                             then cleanup_exit EXIT_FAILURE (say ERROR INITIATOR ''Failed to start pipeline'' h)
                             else
                               (case join_all (e_join e) (p_nodes (s_pipeline (h_sys h))) h of
                                  None \<Rightarrow> Blocked_in h
                                | Some h \<Rightarrow> cleanup_exit EXIT_SUCCESS h)))))))"

definition main :: "env \<Rightarrow> Host \<Rightarrow> run" where
  "main e h =
     (if length (e_argv e) \<noteq> 3 then Exited EXIT_FAILURE h
      else if e_fork e < 0 then Exited EXIT_FAILURE h
      else if e_fork e > 0 then Exited EXIT_SUCCESS h
      else if e_setsid e < 0 then Exited EXIT_FAILURE h
      else if \<not> e_log e then Undefined h
      else main_daemon e h)"

subsection \<open>Starting\<close>

lemma destroy_static [simp]: "pipeline_destroy False s = None"
  by (simp add: pipeline_destroy_def Let_def)

lemma cleanup_undefined [simp]: "cleanup_exit code h = Undefined h"
  by (simp add: cleanup_exit_def)

lemma say_simps [simp]:
  "building (h_sys (say ty se t h)) = building (h_sys h)" "topology (h_sys (say ty se t h)) = topology (h_sys h)"
  "h_fds (say ty se t h) = h_fds h" "w_exit (s_world (h_sys (say ty se t h))) = w_exit (s_world (h_sys h))"
  "m_live (s_mem (h_sys (say ty se t h))) = m_live (s_mem (h_sys h))" "unused_above (h_sys (say ty se t h)) = unused_above (h_sys h)"
  "s_nodes (h_sys (say ty se t h)) = s_nodes (h_sys h)"
  by (simp_all add: say_def building_def sys_inv_def world_inv_def ample_def packets_def topology_def unused_above_def)

lemma tag_rules_load_size:
  "tag_rules_load fs r p = Some (int k, Some rs) \<Longrightarrow> rules_size rs = k"
  using tag_rules_load_table [of fs r p "int k" rs] by simp

lemma pipeline_init_up:
  assumes "building s" "s_nodes s = Map.empty"
  shows "\<exists>s'. pipeline_init s = (0, s') \<and> building s' \<and> empty_pipeline (topology s') \<and> \<not> w_exit (s_world s') \<and>
    s_nodes s' = s_nodes s"
proof -
  have "m_results (s_mem s) = []" using assms by (simp add: building_def ample_def)
  then obtain m1 m2 where c: "calloc (s_mem s) = (True, m1)" "calloc m1 = (True, m2)" "m_results m2 = []"
    using calloc_ample by blast
  let ?s = "s\<lparr>s_mem := m2, s_pipeline := \<lparr>p_nodes = [], p_queues = []\<rparr>, s_world := (s_world s)\<lparr>w_exit := False\<rparr>\<rparr>"
  have "pipeline_init s = (0, ?s)" using c by (simp add: pipeline_init_def)
  moreover have "empty_pipeline (topology ?s)" by (simp add: empty_pipeline_def)
  ultimately show ?thesis
    using assms c(3) by (simp add: building_def ample_def sys_inv_def world_inv_def)
qed

text \<open>Building leaves the exit flag alone.\<close>

lemma calls_keep_exit:
  "w_exit (s_world (snd (pipeline_add_node n s))) = w_exit (s_world s)"
  "w_exit (s_world (snd (pipeline_create_queue s))) = w_exit (s_world s)"
  "w_exit (s_world (snd (connect_output a b q s))) = w_exit (s_world s)"
proof -
  show "w_exit (s_world (snd (pipeline_add_node n s))) = w_exit (s_world s)"
    by (simp add: pipeline_add_node_def Let_def sys_log_def split: option.split)
  show "w_exit (s_world (snd (pipeline_create_queue s))) = w_exit (s_world s)"
    by (auto simp: pipeline_create_queue_def Let_def next_init_def split: option.split prod.split list.split)
  show "w_exit (s_world (snd (connect_output a b q s))) = w_exit (s_world s)"
    by (simp add: connect_output_def Let_def split: prod.split)
qed

lemma connect_keeps_exit: "w_exit (s_world (snd (pipeline_connect a b s))) = w_exit (s_world s)"
  using calls_keep_exit(2) [of s]
  by (auto simp: pipeline_connect_def calls_keep_exit(3) Let_def split: option.split prod.split)

lemma connect_targets_keeps_exit: "w_exit (s_world (snd (connect_targets fn dn d ts s))) = w_exit (s_world s)"
proof (induction fn dn d ts s rule: connect_targets.induct)
  case (3 fn dn d t ts s)
  obtain r s1 where c: "pipeline_connect (Some d) (Some t) s = (r, s1)" by (cases "pipeline_connect (Some d) (Some t) s")
  then have "w_exit (s_world s1) = w_exit (s_world s)" using connect_keeps_exit [of "Some d" "Some t" s] by simp
  then show ?case using c 3 by auto
qed simp_all

lemma connect_shared_keeps_exit: "w_exit (s_world (snd (pipeline_connect_shared a ts s))) = w_exit (s_world s)"
proof -
  have "w_exit (s_world (snd (alloc_node nd s))) = w_exit (s_world s)" for nd s by (simp add: alloc_node_def)
  then show ?thesis
    by (simp add: pipeline_connect_shared_def split_def Let_def calls_keep_exit(1) connect_keeps_exit
        connect_targets_keeps_exit split: option.split)
qed

lemma create_all_keeps_exit:
  assumes "\<forall>c \<in> set cs. \<forall>h. w_exit (s_world (h_sys (snd (c h)))) = w_exit (s_world (h_sys h))"
  shows "w_exit (s_world (h_sys (snd (create_all cs h)))) = w_exit (s_world (h_sys h))"
  using assms
proof (induction cs arbitrary: h)
  case (Cons c cs)
  obtain n h1 where c: "c h = (n, h1)" by (cases "c h")
  then have "w_exit (s_world (h_sys h1)) = w_exit (s_world (h_sys h))" using Cons.prems by (metis list.set_intros(1) snd_conv)
  moreover have "w_exit (s_world (h_sys (snd (create_all cs h1)))) = w_exit (s_world (h_sys h1))" using Cons by simp
  ultimately show ?case using c by (simp add: split_def Let_def)
qed simp

lemma create_keeps_exit:
  "w_exit (s_world (h_sys (snd (create_node con f h)))) = w_exit (s_world (h_sys h))"
  "w_exit (s_world (h_sys (snd (create_socket_node g h)))) = w_exit (s_world (h_sys h))"
  by (simp_all add: create_node_def create_socket_node_def alloc_node_def Let_def split: option.split prod.split)

lemma pattern_keeps_exit: "w_exit (s_world (h_sys (snd (vlan_tagger_pattern k k' ctx h)))) = w_exit (s_world (h_sys h))"
proof -
  have "w_exit (s_world (fold (\<lambda>c s. snd (c s)) cs s)) = w_exit (s_world s)"
    if "\<forall>c \<in> set cs. \<forall>s. w_exit (s_world (snd (c s))) = w_exit (s_world s)" for cs and s :: Sys
    using that by (induction cs arbitrary: s) simp_all
  then have f: "w_exit (s_world (h_sys (run_calls cs h))) = w_exit (s_world (h_sys h))"
    if "\<forall>c \<in> set cs. \<forall>s. w_exit (s_world (snd (c s))) = w_exit (s_world s)" for cs h
    using that by (simp add: run_calls_def)
  have d: "w_exit (s_world (h_sys (destroy_all ns h))) = w_exit (s_world (h_sys h))" for ns h
  proof -
    have "w_exit (s_world (fold (\<lambda>n s. case n of None \<Rightarrow> s | Some n \<Rightarrow> destroy_node n s) ns s)) = w_exit (s_world s)" for s
      by (induction ns arbitrary: s) (simp_all add: destroy_node_def split: option.split)
    then show ?thesis by (simp add: destroy_all_def)
  qed
  show ?thesis
    unfolding vlan_tagger_pattern_def Let_def
    by (simp add: split_def f d calls_keep_exit(1) connect_keeps_exit connect_shared_keeps_exit
        create_all_keeps_exit create_keeps_exit del: create_all.simps)
qed

lemma start_nodes_up:
  assumes "building s" "set ns \<subseteq> dom (s_nodes s)" "False \<notin> set creates"
  shows "\<exists>s'. start_nodes creates ns s = (0, s') \<and> building s' \<and> topology s' = topology s \<and>
    w_exit (s_world s') = w_exit (s_world s) \<and>
    (\<forall>n \<in> dom (s_nodes s). n_thread (the_node s' n) \<longleftrightarrow> n \<in> set ns \<or> n_thread (the_node s n))"
  using assms
proof (induction ns arbitrary: s creates)
  case Nil
  then show ?case by simp
next
  case (Cons n ns)
  let ?nd = "(the_node s n)\<lparr>n_thread := True\<rparr>"
  let ?w = "log_to INFO INITIATOR (''Node started: '' @ node_name (the_node s n)) (s_world s)"
  define s1 where "s1 = (set_node n ?nd s)\<lparr>s_world := ?w\<rparr>"
  have n: "n \<in> dom (s_nodes s)" using Cons.prems(2) by simp
  have i: "sys_inv s" using Cons.prems(1) by (simp add: building_def)
  have "sys_inv (set_node n ?nd s)"
    using sys_inv_node [OF i n] by (intro sys_inv_set_node i n) (simp add: node_ok_def)
  then have b: "building s1" using Cons.prems(1) by (simp add: building_def s1_def ample_def sys_inv_def)
  have t: "topology s1 = topology s"
    using the_node [OF n] by (auto simp: s1_def topology_def fun_eq_iff core_def)
  obtain c cs where cr: "(case creates of [] \<Rightarrow> (True, []) | c # cs \<Rightarrow> (c, cs)) = (c, cs)" "c" "False \<notin> set cs"
    using Cons.prems(3) by (cases creates) auto
  have "set ns \<subseteq> dom (s_nodes s1)" using Cons.prems(2) by (auto simp: s1_def)
  from Cons.IH [OF b this cr(3)] obtain s' where s': "start_nodes cs ns s1 = (0, s')" "building s'" "topology s' = topology s1"
    "w_exit (s_world s') = w_exit (s_world s1)"
    "\<forall>n \<in> dom (s_nodes s1). n_thread (the_node s' n) \<longleftrightarrow> n \<in> set ns \<or> n_thread (the_node s1 n)" by blast
  have "start_nodes creates (n # ns) s = (0, s')"
    using cr s'(1) by (simp add: node_start_def s1_def)
  moreover have "n_thread (the_node s' m) \<longleftrightarrow> m \<in> set (n # ns) \<or> n_thread (the_node s m)" if "m \<in> dom (s_nodes s)" for m
    using that s'(5) by (auto simp: s1_def the_node_def)
  ultimately show ?case using s'(2-4) t by (auto simp: s1_def)
qed

lemma rules_loaded:
  assumes "tag_rules_load fs (Some zero_rules) (Some DEFAULT_CONFIG_PATH) = Some (int k, Some rs)" "0 < k"
  shows "fill_tag_rules fs zero_rules DEFAULT_CONFIG_PATH h =
    Some (0, rs, say INFO PARSER (''Loaded '' @ show_int (int k) @ '' tag rules from '' @ DEFAULT_CONFIG_PATH) h)"
  using assms by (simp add: fill_tag_rules_def)

lemma main_starts:
  assumes "length (e_argv e) = 3" "e_fork e = 0" "0 \<le> e_setsid e" "e_log e" "e_rlimit e" "False \<notin> set (e_signals e)"
    and "tag_rules_load (e_fs e) (Some zero_rules) (Some DEFAULT_CONFIG_PATH) = Some (int k, Some rs)" "0 < k"
    and "interface_up (e_src e) (e_argv e ! 1)" "interface_up (e_dst e) (e_argv e ! 2)" "False \<notin> set (e_creates e)"
    and "building (h_sys h)" "s_nodes (h_sys h) = Map.empty" "e_join e = (\<lambda>n w. None)"
  shows "\<exists>h' ns qs. main e h = Blocked_in h' \<and> building (h_sys h') \<and> \<not> w_exit (s_world (h_sys h')) \<and>
    vlan_graph (e_src e) (e_dst e) rs ns qs (topology (h_sys h')) \<and> (\<forall>n \<in> set ns. n_thread (the_node (h_sys h') n))"
proof -
  define h1 where "h1 = say INFO PARSER (''Loaded '' @ show_int (int k) @ '' tag rules from '' @ DEFAULT_CONFIG_PATH) h"
  have b1: "building (h_sys h1)" "s_nodes (h_sys h1) = Map.empty" using assms(12,13) by (simp_all add: h1_def)
  obtain s2 where s2: "pipeline_init (h_sys h1) = (0, s2)" "building s2" "empty_pipeline (topology s2)" "\<not> w_exit (s_world s2)"
    using pipeline_init_up [OF b1] by blast
  define ctx where "ctx = \<lparr>vc_tag_rules = rs, vc_src_dev_name = e_argv e ! 1, vc_dst_dev_name = e_argv e ! 2\<rparr>"
  have "0 < rules_size rs" using tag_rules_load_size [OF assms(7)] assms(8) by simp
  then obtain h3 ns qs where h3: "vlan_tagger_pattern (e_src e) (e_dst e) ctx (h1\<lparr>h_sys := s2\<rparr>) = (0, h3)" "building (h_sys h3)"
    "vlan_graph (e_src e) (e_dst e) rs ns qs (topology (h_sys h3))"
    using vlan_pattern_graph [of "h1\<lparr>h_sys := s2\<rparr>" "e_src e" ctx "e_dst e"] s2(2,3) assms(9,10) by (auto simp: ctx_def)
  have x3: "\<not> w_exit (s_world (h_sys h3))"
    using pattern_keeps_exit [of "e_src e" "e_dst e" ctx "h1\<lparr>h_sys := s2\<rparr>"] h3(1) s2(4) by simp
  define h4 where "h4 = say INFO INITIATOR ''  Sniffer -> [Tagger1, Tagger2] -> PacketCounter -> Sender''
    (say INFO INITIATOR ''Pipeline configured:'' h3)"
  have h4: "building (h_sys h4)" "topology (h_sys h4) = topology (h_sys h3)" "\<not> w_exit (s_world (h_sys h4))"
    using h3(2) x3 by (simp_all add: h4_def)
  have ns: "p_nodes (s_pipeline (h_sys h4)) = ns" "ns \<noteq> []"
    using h3(3) h4(2) by (auto simp: vlan_graph_def simp flip: topology_simps(4))
  have "set ns \<subseteq> dom (s_nodes (h_sys h4))" using h4(1) ns(1) by (auto simp: building_def sys_inv_def)
  then obtain s5 where s5: "pipeline_start (e_creates e) (h_sys h4) = (0, s5)" "building s5" "topology s5 = topology (h_sys h4)"
    "\<not> w_exit (s_world s5)" "\<forall>n \<in> set ns. n_thread (the_node s5 n)"
    using start_nodes_up [OF _ _ assms(11), of "sys_log INFO (''Starting pipeline with '' @ dec (length ns) @ '' nodes'') (h_sys h4)" ns]
      h4 ns(1) by (auto simp: pipeline_start_def Let_def)
  have j: "join_all (e_join e) (p_nodes (s_pipeline s5)) (h4\<lparr>h_sys := s5\<rparr>) = None"
  proof -
    have "p_nodes (s_pipeline s5) = ns" using s5(3) ns(1) by (metis topology_simps(4))
    then show ?thesis using ns(2) assms(14) by (cases ns) simp_all
  qed
  have f1: "fill_tag_rules (e_fs e) zero_rules DEFAULT_CONFIG_PATH h = Some (0, rs, h1)"
    using rules_loaded [OF assms(7,8)] by (simp add: h1_def)
  have "main e h = Blocked_in (h4\<lparr>h_sys := s5\<rparr>)"
    using assms(1-6) s2(1) h3(1) s5(1) j
    by (simp add: main_def main_daemon_def f1 ctx_def pipeline_build_def h4_def)
  then show ?thesis using s5(2-5) h4(2) h3(3) by auto
qed

subsection \<open>Properties of the program\<close>


text \<open>
  C12: A start without failures. When the log opens, the handlers can be set, the configuration file
  holds at least one rule and loads, both interfaces can be opened and the threads created, the
  daemon builds the VLAN pipeline with the rules of the file, starts a thread for each of
  its six nodes and waits for them; the exit flag is not set and all queues are empty.
\<close>

theorem main_starts_pipeline:
  assumes "length (e_argv e) = 3" "e_fork e = 0" "0 \<le> e_setsid e" "e_log e" "e_rlimit e" "False \<notin> set (e_signals e)"
    and "tag_rules_load (e_fs e) (Some zero_rules) (Some DEFAULT_CONFIG_PATH) = Some (int k, Some rs)" "0 < k"
    and "interface_up (e_src e) (e_argv e ! 1)" "interface_up (e_dst e) (e_argv e ! 2)" "False \<notin> set (e_creates e)"
    and "building (h_sys h)" "s_nodes (h_sys h) = Map.empty" "e_join e = (\<lambda>n w. None)"
  shows "\<exists>h' ns qs. main e h = Blocked_in h' \<and> building (h_sys h') \<and> \<not> w_exit (s_world (h_sys h')) \<and>
    vlan_graph (e_src e) (e_dst e) rs ns qs (topology (h_sys h')) \<and> (\<forall>n \<in> set ns. n_thread (the_node (h_sys h') n))"
  using main_starts [OF assms] .

text \<open>
  C22: A configuration file without rules is only warned about when it is read, but the daemon cannot
  start with it: no tagger can be created, so building the pipeline fails, and the process
  runs into the undefined \<open>free\<close> of \<open>cleanup\<close>. The last message is the failure.
\<close>

theorem main_without_rules:
  assumes "length (e_argv e) = 3" "e_fork e = 0" "0 \<le> e_setsid e" "e_log e" "e_rlimit e" "False \<notin> set (e_signals e)"
    and "tag_rules_load (e_fs e) (Some zero_rules) (Some DEFAULT_CONFIG_PATH) = Some (0, Some rs)"
    and "m_results (s_mem (h_sys h)) = []"
  shows "\<exists>h'. main e h = Undefined h' \<and>
    (ERROR, INITIATOR, ''Failed to build pipeline'') \<in> set (w_log (s_world (h_sys h')))"
proof -
  define h1 where "h1 = say INFO PARSER (''Loaded '' @ show_int 0 @ '' tag rules from '' @ DEFAULT_CONFIG_PATH)
    (say WARNING PARSER ''No rules loaded from config file!'' h)"
  have f: "fill_tag_rules (e_fs e) zero_rules DEFAULT_CONFIG_PATH h = Some (0, rs, h1)"
    using assms(7) by (simp add: fill_tag_rules_def h1_def)
  have z: "rules_size rs = 0" using tag_rules_load_size [of "e_fs e" _ _ 0] assms(7) by simp
  obtain s2 where s2: "pipeline_init (h_sys h1) = (0, s2)"
    using assms(8) by (auto simp: pipeline_init_def calloc_def h1_def say_def)
  define ctx where "ctx = \<lparr>vc_tag_rules = rs, vc_src_dev_name = e_argv e ! 1, vc_dst_dev_name = e_argv e ! 2\<rparr>"
  obtain h3 where h3: "vlan_tagger_pattern (e_src e) (e_dst e) ctx (h1\<lparr>h_sys := s2\<rparr>) = (1, h3)"
    using no_rules_fails [of ctx "e_src e" "e_dst e" "h1\<lparr>h_sys := s2\<rparr>"] z
    by (cases "vlan_tagger_pattern (e_src e) (e_dst e) ctx (h1\<lparr>h_sys := s2\<rparr>)") (simp add: ctx_def)
  have "main e h = Undefined (say ERROR INITIATOR ''Failed to build pipeline'' h3)"
    using assms(1-6) s2 h3 by (simp add: main_def main_daemon_def f ctx_def pipeline_build_def)
  then show ?thesis by (simp add: say_def log_to_def)
qed

definition good_env :: "(string \<Rightarrow> FILE option) \<Rightarrow> env" where
  "good_env fs = \<lparr>e_argv = [''vlan_tagger'', ''eth0'', ''eth1''], e_fork = 0, e_setsid = 1, e_log = True, e_rlimit = True,
     e_signals = [True, True, True], e_fs = fs, e_src = good_kernel 3, e_dst = good_kernel 4, e_creates = [],
     e_join = (\<lambda>n w. None)\<rparr>"

lemma main_starts_pipeline_witness:
  "\<exists>h'. main (good_env example_fs) start_host = Blocked_in h' \<and> length (p_nodes (s_pipeline (h_sys h'))) = 6"
proof -
  have l: "tag_rules_load (e_fs (good_env example_fs)) (Some zero_rules) (Some DEFAULT_CONFIG_PATH) = Some (int 3,
     Some (zero_rules\<lparr>rules := example_rules @ drop 3 (rules zero_rules), rules_size := 3\<rparr>))"
    using example_load by (simp add: good_env_def DEFAULT_CONFIG_PATH_def)
  have "interface_up (e_src (good_env example_fs)) (e_argv (good_env example_fs) ! 1)"
    "interface_up (e_dst (good_env example_fs)) (e_argv (good_env example_fs) ! 2)"
    using good_kernel by (simp_all add: good_env_def)
  from main_starts_pipeline [OF _ _ _ _ _ _ l _ this, of start_host] obtain h' ns qs where
    m: "main (good_env example_fs) start_host = Blocked_in h'"
      "vlan_graph (e_src (good_env example_fs)) (e_dst (good_env example_fs))
         (zero_rules\<lparr>rules := example_rules @ drop 3 (rules zero_rules), rules_size := 3\<rparr>) ns qs (topology (h_sys h'))"
    using start_host(1) start_sys(4) by (auto simp: good_env_def start_host_def)
  have "p_nodes (s_pipeline (h_sys h')) = ns" "length ns = 6" using m(2) by (simp_all add: vlan_graph_def)
  then show ?thesis using m(1) by simp
qed

lemma load_empty:
  "fs DEFAULT_CONFIG_PATH = Some \<lparr>f_data = [], f_error = False, f_close_ok = True\<rparr> \<Longrightarrow>
   tag_rules_load fs (Some t) (Some DEFAULT_CONFIG_PATH) = Some (0, Some zero_rules)"
proof -
  assume fs: "fs DEFAULT_CONFIG_PATH = Some \<lparr>f_data = [], f_error = False, f_close_ok = True\<rparr>"
  have "load_loop \<lparr>f_data = [], f_error = False, f_close_ok = True\<rparr> zero_rules 0 = Loaded zero_rules 0"
    by (subst load_loop.simps) (simp add: fgets_def hits_end_def MAX_LINE_LENGTH_def)
  moreover have "zero_rules\<lparr>rules_size := 0\<rparr> = zero_rules" by (simp add: zero_rules_def)
  ultimately show ?thesis using fs by (simp add: tag_rules_load_def)
qed

lemma main_without_rules_witness:
  "\<exists>h'. main (good_env (\<lambda>_. Some \<lparr>f_data = [], f_error = False, f_close_ok = True\<rparr>)) start_host = Undefined h' \<and>
     (ERROR, INITIATOR, ''Failed to build pipeline'') \<in> set (w_log (s_world (h_sys h')))"
  by (rule main_without_rules [of _ zero_rules]) (simp_all add: good_env_def load_empty start_host_def start_sys_def)

end
