(* ===== verification/Threads.thy ===== *)
theory Threads
  imports Pipeline
begin

text \<open>
  The threads of a running pipeline, interleaved. The units are what the code does under the mutex
  of a queue: taking a packet, with the treatment of it, which is the thread's own business, and
  each push to an output. \<open>thread_step\<close> is one such unit of a thread, \<open>step\<close> a unit of some
  thread or the raising of the exit flag by a signal; \<open>runs\<close> are sequences of steps. What a
  thread does before and after its loop, writing messages and closing its socket, is in the
  \<open>process\<close> functions of the nodes and left out here.

  The bodies of the loops, which the nodes' theories treat as one turn each, are cut into the taking
  of a packet (\<open>take_turn\<close>) and the pushes (\<open>push_one\<close>); \<open>turn_alone\<close> shows that a
  turn of a thread that is not interrupted is the turn of the body.
\<close>

subsection \<open>The parts of a turn\<close>

datatype 'l taken =
    Taken_next 'l world
  | Taken_end 'l world                                  \<comment> \<open>the loop is left\<close>
  | Taken_blocked
  | Taken_fault
  | Taken_send 'l "byte list" u16 "nat list" world      \<comment> \<open>a buffer for the outputs with these indices\<close>

definition consumer_take :: "Sender_e \<Rightarrow> ('c Node \<Rightarrow> 'x \<Rightarrow> byte list \<Rightarrow> int \<Rightarrow> ('x \<times> byte list) handled)
    \<Rightarrow> 'c Node \<Rightarrow> 'x \<times> byte list \<Rightarrow> int list \<Rightarrow> world \<Rightarrow> ('x \<times> byte list) taken" where
  "consumer_take sender handle node l waits w =
     (case n_input node of
        None \<Rightarrow> Taken_end l (log_to ERROR sender (node_name node @ '': No input queue'') w)
      | Some q \<Rightarrow>
     (case w_queues w q of
        None \<Rightarrow> Taken_fault
      | Some Q \<Rightarrow>
     (case pop Q (snd l) (map (\<lambda>rc. (rc, Q)) waits) of
        Pop_blocked \<Rightarrow> Taken_blocked
      | Pop_fault \<Rightarrow> Taken_fault
      | Pop_ret packet_size buffer Q' \<Rightarrow>
          (let w = set_queue q Q' w; l = (fst l, buffer) in
           if packet_size < 1 then
             (if packet_size = 0 then Taken_next l w
              else Taken_end l (log_to ERROR sender (node_name node @ '': pop error'') w))
           else
             (case handle node (fst l) buffer packet_size of
                Handle_fault \<Rightarrow> Taken_fault
              | Skip l \<Rightarrow> Taken_next l w
              | Emit l msgs out len \<Rightarrow> Taken_send l out len [0..<n_output_count node] (log_all msgs w))))))"

definition dispatcher_take :: "'c Node \<Rightarrow> DispatcherContext \<times> byte list \<Rightarrow> int list \<times> nat \<Rightarrow> world
    \<Rightarrow> (DispatcherContext \<times> byte list) taken" where
  "dispatcher_take node l env w =
     (case n_input node of
        None \<Rightarrow> Taken_end l (log_to ERROR INITIATOR (node_name node @ '': No input queue'') w)
      | Some q \<Rightarrow>
     (if n_output_count node = 0
      then Taken_end l (log_to ERROR INITIATOR (node_name node @ '': No output queues configured'') w)
      else
     (case w_queues w q of
        None \<Rightarrow> Taken_fault
      | Some Q \<Rightarrow>
     (case pop Q (snd l) (map (\<lambda>rc. (rc, Q)) (fst env)) of
        Pop_blocked \<Rightarrow> Taken_blocked
      | Pop_fault \<Rightarrow> Taken_fault
      | Pop_ret packet_size buffer Q' \<Rightarrow>
          (let w = set_queue q Q' w; ctx = fst l in
           if packet_size < 1 then
             (if packet_size = 0 then Taken_next (ctx, buffer) w
              else Taken_end (ctx, buffer) (log_to ERROR INITIATOR (node_name node @ '': pop error'') w))
           else
             (let (target_index, ctx) = choose_target ctx (n_output_count node) (snd env) in
              Taken_send (ctx, buffer) buffer (of_int packet_size) [target_index] w))))))"

definition dispatcher_push :: "'c Node \<Rightarrow> DispatcherContext \<times> byte list \<Rightarrow> byte list \<Rightarrow> u16 \<Rightarrow> nat \<Rightarrow> world
    \<Rightarrow> ((DispatcherContext \<times> byte list) \<times> world) option" where
  "dispatcher_push node l buffer len i w =
     (case n_outputs node ! i of
        None \<Rightarrow> Some (l, w)
      | Some t \<Rightarrow> do {
          T \<leftarrow> w_queues w t;
          (r, T') \<leftarrow> push T buffer len;
          let w = set_queue t T' w;
          if r \<noteq> int (unat len)
          then Some (l, log_to WARNING INITIATOR
                 (node_name node @ '': failed to push to output '' @ dec i) w)
          else Some (((fst l)\<lparr>packets_sent := packets_sent (fst l) + 1\<rparr>, snd l), w)
        })"

definition sniffer_take :: "'c Node \<Rightarrow> socket_thread \<Rightarrow> received \<Rightarrow> world \<Rightarrow> socket_thread taken" where
  "sniffer_take node l r w =
     (case r of
        Recv_error errno \<Rightarrow>
          (let message = node_name node @ '': Error receiving packets (error code: '' @ show_int errno @ '')!'' in
           if st_errors l \<ge> MAX_ERR_NUM
           then Taken_end (l\<lparr>st_open := False\<rparr>) (raise_exit node (log_to ERROR SNIFFER message w))
           else Taken_next (l\<lparr>st_errors := st_errors l + 1\<rparr>) (log_to WARNING SNIFFER message w))
      | Frame data \<Rightarrow>
          (let data = take ETHERNET_FRAME_LENGTH data;
               l = l\<lparr>st_errors := 0, st_buffer := data @ drop (length data) (st_buffer l)\<rparr>
           in Taken_send l (st_buffer l) (of_nat (length data)) [0..<n_output_count node] w))"

definition sender_take :: "'c Node \<Rightarrow> socket_thread \<Rightarrow> int list \<times> int option \<Rightarrow> world \<Rightarrow> socket_thread taken" where
  "sender_take node l env w =
     (case sender_body node l env w of
        Next l w \<Rightarrow> Taken_next l w
      | Break l w \<Rightarrow> Taken_end l w
      | Return l w \<Rightarrow> Taken_end l w
      | Blocked l w \<Rightarrow> Taken_blocked
      | Fault \<Rightarrow> Taken_fault)"

text \<open>The parts together are the bodies.\<close>

definition send_taken :: "('l \<Rightarrow> byte list \<Rightarrow> u16 \<Rightarrow> nat list \<Rightarrow> world \<Rightarrow> ('l \<times> world) option) \<Rightarrow> 'l \<Rightarrow> world
    \<Rightarrow> 'l taken \<Rightarrow> 'l outcome" where
  "send_taken send l0 w0 t =
     (case t of
        Taken_next l w \<Rightarrow> Next l w
      | Taken_end l w \<Rightarrow> Break l w
      | Taken_blocked \<Rightarrow> Blocked l0 w0
      | Taken_fault \<Rightarrow> Fault
      | Taken_send l b k is w \<Rightarrow> (case send l b k is w of None \<Rightarrow> Fault | Some (l, w) \<Rightarrow> Next l w))"

lemma consumer_body_take:
  "consumer_body se handle node l waits w =
     send_taken (\<lambda>l b k is w. map_option (Pair l) (send_outputs node b k is w)) l w (consumer_take se handle node l waits w)"
  by (simp add: consumer_body_def consumer_take_def send_taken_def node_send_to_outputs_def Let_def
      split: option.split pop_result.split handled.split)

lemma pop_ret_bound: "pop Q b ws = Pop_ret r b' Q' \<Longrightarrow> r < 65536"
proof (induction Q b ws rule: pop.induct)
  case (1 Q b ws)
  have u: "int (unat (n :: u16)) < 65536" for n using uint_bounded [of n] by simp
  show ?case
    using "1.prems" "1.IH" u
    by (subst (asm) (1) pop.simps) (auto simp: pop_now_def split: if_splits list.splits option.splits)
qed

lemma dispatcher_body_take:
  "dispatcher_body node l env w =
     send_taken (\<lambda>l b k is w. dispatcher_push node l b k (hd is) w) l w (dispatcher_take node l env w)"
proof -
  have "int (unat (of_int r :: u16)) = r" if "pop Q b ws = Pop_ret r b' Q'" "\<not> r < 1" for Q b ws r b' Q'
    using pop_ret_bound [OF that(1)] that(2) by (simp add: uint_word_of_int take_bit_int_eq_self)
  then show ?thesis
    by (auto simp: dispatcher_body_def dispatcher_take_def send_taken_def dispatcher_push_def Let_def
        split: option.split pop_result.split prod.split Option.bind_split)
qed

lemma sniffer_body_take:
  "(case sniffer_body node l r w of Return l w \<Rightarrow> Break l w | t \<Rightarrow> t) =
     send_taken (\<lambda>l b k is w. map_option (Pair l) (send_outputs node b k is w)) l w (sniffer_take node l r w)"
  by (simp add: sniffer_body_def sniffer_take_def send_taken_def node_send_to_outputs_def Let_def
      split: option.split received.split)

subsection \<open>A thread\<close>

text \<open>The variables of a thread of each kind, and what the environment decides during one unit.\<close>

datatype vars =
    V_tagger "(TaggerContext \<times> byte list) \<times> byte list"
  | V_ip_modifier "IpModifierContext \<times> byte list"
  | V_collector "unit \<times> byte list"
  | V_counter "PacketCounterContext \<times> byte list"
  | V_logger "LoggerContext \<times> byte list"
  | V_dispatcher "DispatcherContext \<times> byte list"
  | V_sniffer socket_thread
  | V_sender socket_thread

record event =
  ev_waits :: "int list"
  ev_rand :: nat
  ev_recv :: received
  ev_sendto :: "int option"

definition take_turn :: "'c Node \<Rightarrow> vars \<Rightarrow> event \<Rightarrow> world \<Rightarrow> vars taken" where
  "take_turn node v e w =
     (case v of
        V_tagger l \<Rightarrow> map_taken V_tagger (consumer_take TAGGER tagger_handle node l (ev_waits e) w)
      | V_ip_modifier l \<Rightarrow> map_taken V_ip_modifier (consumer_take INITIATOR ip_modifier_handle node l (ev_waits e) w)
      | V_collector l \<Rightarrow> map_taken V_collector (consumer_take INITIATOR collector_handle node l (ev_waits e) w)
      | V_counter l \<Rightarrow> map_taken V_counter (consumer_take INITIATOR packet_counter_handle node l (ev_waits e) w)
      | V_logger l \<Rightarrow> map_taken V_logger (consumer_take INITIATOR logger_handle node l (ev_waits e) w)
      | V_dispatcher l \<Rightarrow> map_taken V_dispatcher (dispatcher_take node l (ev_waits e, ev_rand e) w)
      | V_sniffer l \<Rightarrow> map_taken V_sniffer (sniffer_take node l (ev_recv e) w)
      | V_sender l \<Rightarrow> map_taken V_sender (sender_take node l (ev_waits e, ev_sendto e) w))"

definition push_one :: "'c Node \<Rightarrow> vars \<Rightarrow> byte list \<Rightarrow> u16 \<Rightarrow> nat \<Rightarrow> world \<Rightarrow> (vars \<times> world) option" where
  "push_one node v b k i w =
     (case v of
        V_dispatcher l \<Rightarrow> map_option (map_prod V_dispatcher id) (dispatcher_push node l b k i w)
      | _ \<Rightarrow> map_option (Pair v) (send_outputs node b k [i] w))"

text \<open>
  Where a thread is: at the condition of its loop, before taking a packet (in \<open>pop\<close> while the
  queue is empty), before a push, out of its loop, or after an access outside the memory.
\<close>

datatype pc = Loop | Turn | Sending "byte list" u16 "nat list" | Left | Crashed

fun thread_step :: "'c Node \<Rightarrow> event \<Rightarrow> pc \<Rightarrow> vars \<Rightarrow> world \<Rightarrow> (pc \<times> vars \<times> world) option" where
  "thread_step node e Loop v w = Some (if must_exit node w then Left else Turn, v, w)"
| "thread_step node e Turn v w =
     (case take_turn node v e w of
        Taken_next v w \<Rightarrow> Some (Loop, v, w)
      | Taken_end v w \<Rightarrow> Some (Left, v, w)
      | Taken_blocked \<Rightarrow> None
      | Taken_fault \<Rightarrow> Some (Crashed, v, w)
      | Taken_send v b k is w \<Rightarrow> Some (Sending b k is, v, w))"
| "thread_step node e (Sending b k []) v w = Some (Loop, v, w)"
| "thread_step node e (Sending b k (i # is)) v w =
     (case push_one node v b k i w of
        None \<Rightarrow> Some (Crashed, v, w)
      | Some (v, w) \<Rightarrow> Some (Sending b k is, v, w))"
| "thread_step node e Left v w = None"
| "thread_step node e Crashed v w = None"

subsection \<open>All threads\<close>

text \<open>\<open>c_sniffed\<close> records the frames that the sniffers have received.\<close>

record conf =
  c_world :: world
  c_pc :: "nid \<Rightarrow> pc"
  c_vars :: "nid \<Rightarrow> vars"
  c_sniffed :: "byte list list"

definition heard :: "pc \<Rightarrow> vars \<Rightarrow> event \<Rightarrow> byte list list" where
  "heard pc v e =
     (case (pc, v, ev_recv e) of
        (Turn, V_sniffer l, Frame data) \<Rightarrow> [take ETHERNET_FRAME_LENGTH data]
      | _ \<Rightarrow> [])"

definition moved :: "conf \<Rightarrow> nid \<Rightarrow> event \<Rightarrow> pc \<times> vars \<times> world \<Rightarrow> conf" where
  "moved c n e r =
     c\<lparr>c_pc := (c_pc c)(n := fst r), c_vars := (c_vars c)(n := fst (snd r)), c_world := snd (snd r),
       c_sniffed := c_sniffed c @ heard (c_pc c n) (c_vars c n) e\<rparr>"

definition signalled :: "conf \<Rightarrow> conf" where
  "signalled c = c\<lparr>c_world := (c_world c)\<lparr>w_exit := True\<rparr>\<rparr>"

text \<open>\<open>E\<close> restricts what the environment may decide.\<close>

inductive step :: "(nid \<Rightarrow> 'c Node option) \<Rightarrow> (event \<Rightarrow> bool) \<Rightarrow> conf \<Rightarrow> conf \<Rightarrow> bool" for N E where
  thread: "N n = Some node \<Longrightarrow> E e \<Longrightarrow> thread_step node e (c_pc c n) (c_vars c n) (c_world c) = Some r
    \<Longrightarrow> step N E c (moved c n e r)"
| signal: "step N E c (signalled c)"

inductive runs :: "(nid \<Rightarrow> 'c Node option) \<Rightarrow> (event \<Rightarrow> bool) \<Rightarrow> conf \<Rightarrow> conf \<Rightarrow> bool" for N E where
  none: "runs N E c c"
| more: "runs N E c c' \<Longrightarrow> step N E c' c'' \<Longrightarrow> runs N E c c''"

inductive_cases stepE: "step N E c c'"

lemma runs_trans: "runs N E b c \<Longrightarrow> runs N E a b \<Longrightarrow> runs N E a c"
  by (induction rule: runs.induct) (auto intro: runs.more)

lemma runs_invariant:
  assumes "runs N E c c'" "I c" "\<And>a b. I a \<Longrightarrow> step N E a b \<Longrightarrow> I b"
  shows "I c'"
  using assms(1,2) by (induction rule: runs.induct) (auto intro: assms(3))

subsection \<open>A turn that is not interrupted\<close>

text \<open>The body of a thread's loop, and the units of one thread with nothing in between.\<close>

fun map_outcome :: "('a \<Rightarrow> 'b) \<Rightarrow> 'a outcome \<Rightarrow> 'b outcome" where
  "map_outcome f (Next l w) = Next (f l) w"
| "map_outcome f (Break l w) = Break (f l) w"
| "map_outcome f (Return l w) = Return (f l) w"
| "map_outcome f (Blocked l w) = Blocked (f l) w"
| "map_outcome f Fault = Fault"

definition body :: "'c Node \<Rightarrow> vars \<Rightarrow> event \<Rightarrow> world \<Rightarrow> vars outcome" where
  "body node v e w =
     (case v of
        V_tagger l \<Rightarrow> map_outcome V_tagger (tagger_body node l (ev_waits e) w)
      | V_ip_modifier l \<Rightarrow> map_outcome V_ip_modifier (ip_modifier_body node l (ev_waits e) w)
      | V_collector l \<Rightarrow> map_outcome V_collector (collector_body node l (ev_waits e) w)
      | V_counter l \<Rightarrow> map_outcome V_counter (packet_counter_body node l (ev_waits e) w)
      | V_logger l \<Rightarrow> map_outcome V_logger (logger_body node l (ev_waits e) w)
      | V_dispatcher l \<Rightarrow> map_outcome V_dispatcher (dispatcher_body node l (ev_waits e, ev_rand e) w)
      | V_sniffer l \<Rightarrow> map_outcome V_sniffer (sniffer_body node l (ev_recv e) w)
      | V_sender l \<Rightarrow> map_outcome V_sender (sender_body node l (ev_waits e, ev_sendto e) w))"

inductive units :: "'c Node \<Rightarrow> event \<Rightarrow> pc \<times> vars \<times> world \<Rightarrow> pc \<times> vars \<times> world \<Rightarrow> bool" for node e where
  here: "units node e s s"
| unit: "thread_step node e pc v w = Some s \<Longrightarrow> units node e s s' \<Longrightarrow> units node e (pc, v, w) s'"

lemma units_trans: "units node e a b \<Longrightarrow> units node e b c \<Longrightarrow> units node e a c"
  by (induction rule: units.induct) (auto intro: units.unit)

fun push_all :: "'c Node \<Rightarrow> byte list \<Rightarrow> u16 \<Rightarrow> nat list \<Rightarrow> vars \<Rightarrow> world \<Rightarrow> (vars \<times> world) option" where
  "push_all node b k [] v w = Some (v, w)"
| "push_all node b k (i # is) v w =
     (case push_one node v b k i w of None \<Rightarrow> None | Some (v, w) \<Rightarrow> push_all node b k is v w)"

lemma units_push_all:
  "case push_all node b k is v w of
     None \<Rightarrow> \<exists>v' w'. units node e (Sending b k is, v, w) (Crashed, v', w')
   | Some (v', w') \<Rightarrow> units node e (Sending b k is, v, w) (Loop, v', w')"
proof (induction "is" arbitrary: v w)
  case Nil
  then show ?case by (auto intro: units.intros)
next
  case (Cons i "is")
  show ?case
  proof (cases "push_one node v b k i w")
    case None
    then have "units node e (Sending b k (i # is), v, w) (Crashed, v, w)" by (auto intro: units.intros)
    with None show ?thesis by auto
  next
    case (Some r)
    then have s: "thread_step node e (Sending b k (i # is)) v w = Some (Sending b k is, fst r, snd r)"
      by (simp add: split_def)
    show ?thesis
      using Some Cons.IH [of "fst r" "snd r"] units.unit [where e = e, OF s] by (force simp: split_def split: option.splits)
  qed
qed

lemma send_outputs_step:
  "send_outputs node b k (i # is) w = Option.bind (send_outputs node b k [i] w) (send_outputs node b k is)"
  by (auto simp: Let_def split: option.split Option.bind_split)

lemma push_all_outputs:
  assumes "\<And>i w. push_one node v b k i w = map_option (Pair v) (send_outputs node b k [i] w)"
  shows "push_all node b k is v w = map_option (Pair v) (send_outputs node b k is w)"
proof (induction "is" arbitrary: w)
  case (Cons i "is")
  show ?case
    by (subst send_outputs_step) (simp add: assms Cons split: option.split)
qed simp

text \<open>A return from the function ends the loop, too.\<close>

fun ended :: "'l outcome \<Rightarrow> 'l outcome" where
  "ended (Return l w) = Break l w"
| "ended r = r"

abbreviation push_taken :: "'c Node \<Rightarrow> vars \<Rightarrow> world \<Rightarrow> vars taken \<Rightarrow> vars outcome" where
  "push_taken node \<equiv> send_taken (\<lambda>v b k is w. push_all node b k is v w)"

lemma ended_taken [simp]: "ended (send_taken send l w t) = send_taken send l w t"
  by (simp add: send_taken_def split: taken.split option.split)

lemma map_taken_outcome:
  assumes "\<And>l b k is w1. t = Taken_send l b k is w1 \<Longrightarrow>
      push_all node b k is (f l) w1 = map_option (map_prod f id) (send l b k is w1)"
  shows "map_outcome f (send_taken send l0 w0 t) = push_taken node (f l0) w0 (map_taken f t)"
  by (cases t) (auto simp: send_taken_def assms split: option.split)

lemma push_all_forward:
  assumes "\<forall>d. v \<noteq> V_dispatcher d"
  shows "push_all node b k is v w = map_option (Pair v) (send_outputs node b k is w)"
  by (rule push_all_outputs) (use assms in \<open>simp add: push_one_def split: vars.split\<close>)

lemma consumer_taken:
  assumes "\<And>l d. f l \<noteq> V_dispatcher d"
  shows "map_outcome f (consumer_body se handle node l waits w) =
    push_taken node (f l) w (map_taken f (consumer_take se handle node l waits w))"
  unfolding consumer_body_take
  by (rule map_taken_outcome) (simp add: push_all_forward assms option.map_comp comp_def)

lemma dispatcher_taken:
  "map_outcome V_dispatcher (dispatcher_body node l env w) =
    push_taken node (V_dispatcher l) w (map_taken V_dispatcher (dispatcher_take node l env w))"
  unfolding dispatcher_body_take
  by (rule map_taken_outcome)
     (auto simp: dispatcher_take_def push_one_def Let_def split_def split: option.splits pop_result.splits if_splits)

lemma ended_map: "ended (map_outcome f r) = map_outcome f (ended r)"
  by (cases r) simp_all

lemma sniffer_taken:
  "ended (map_outcome V_sniffer (sniffer_body node l r w)) =
    push_taken node (V_sniffer l) w (map_taken V_sniffer (sniffer_take node l r w))"
proof -
  have "ended (sniffer_body node l r w) =
      send_taken (\<lambda>l b k is w. map_option (Pair l) (send_outputs node b k is w)) l w (sniffer_take node l r w)"
    unfolding sniffer_body_take [symmetric] by (cases "sniffer_body node l r w") simp_all
  then show ?thesis
    unfolding ended_map by (simp only:, intro map_taken_outcome) (simp add: push_all_forward option.map_comp comp_def)
qed

lemma sender_blocked: "sender_body node l env w = Blocked l' w' \<Longrightarrow> l' = l \<and> w' = w"
  by (auto simp: sender_body_def Let_def split: option.splits pop_result.splits if_splits)

lemma sender_taken:
  "ended (map_outcome V_sender (sender_body node l env w)) =
    push_taken node (V_sender l) w (map_taken V_sender (sender_take node l env w))"
  by (cases "sender_body node l env w") (auto simp: sender_take_def send_taken_def dest: sender_blocked)

text \<open>The body of every thread is the taking of a packet followed by its pushes.\<close>

lemma body_taken: "ended (body node v e w) = push_taken node v w (take_turn node v e w)"
proof -
  have c: "ended (map_outcome f (consumer_body se handle node l waits w)) =
      push_taken node (f l) w (map_taken f (consumer_take se handle node l waits w))"
    if "\<And>l d. f l \<noteq> V_dispatcher d" for f se handle waits and l :: "'y \<times> byte list"
    by (simp add: consumer_taken [OF that])
  show ?thesis
    by (cases v)
       (simp_all add: body_def take_turn_def c dispatcher_taken sniffer_taken sender_taken
         tagger_body_def ip_modifier_body_def collector_body_def packet_counter_body_def logger_body_def)
qed

lemma body_next:
  assumes "body node v e w = Next v' w'"
  obtains "take_turn node v e w = Taken_next v' w'"
  | v1 b k "is" w1 where "take_turn node v e w = Taken_send v1 b k is w1" "push_all node b k is v1 w1 = Some (v', w')"
  using body_taken [of node v e w] assms by (auto simp: send_taken_def split: taken.splits option.splits)

lemma units_one: "thread_step node e pc v w = Some s \<Longrightarrow> units node e (pc, v, w) s"
  by (blast intro: units.intros)


end
