(* ===== verification/Network.thy ===== *)
theory Network
  imports Threads
begin

text \<open>
  A running pipeline as a network of first-in first-out queues. A node has a role, \<open>act\<close> is what
  a node of a role may do in one step, \<open>abs_step\<close> a step of the network. The threads of theory
  Threads are shown to refine it (\<open>thread_step_acts\<close>), and a weighing argument on the abstract network
  (\<open>weight_step\<close>) bounds what can be in the queues and on the wire in any interleaving.
\<close>

subsection \<open>The abstract network\<close>

datatype role =
    Source
  | Transform "byte list \<Rightarrow> byte list option"   \<comment> \<open>sends the result to all outputs\<close>
  | Spread                                       \<comment> \<open>sends a packet to one of the outputs\<close>
  | Sink

type_synonym place = "(qid \<times> byte list) list \<times> byte list list \<times> (qid \<Rightarrow> byte list list)"

text \<open>
  What a node has in hand, packets with their destinations, what it has put on the wire, and the
  queues; the list between the two states is what is received from outside. A packet for a full
  queue is lost, as is an empty one; a sink may drop a packet, and drops the long ones.
\<close>

inductive act :: "role \<Rightarrow> qid option \<Rightarrow> qid list \<Rightarrow> place \<Rightarrow> byte list list \<Rightarrow> place \<Rightarrow> bool" where
  rest: "act r i ts ([], s, Q) [] ([], s, Q)"
| treat: "Q q = p # ps \<Longrightarrow> act (Transform f) (Some q) ts ([], s, Q) []
    (case f p of None \<Rightarrow> [] | Some p' \<Rightarrow> map (\<lambda>t. (t, p')) ts, s, Q(q := ps))"
| deal: "Q q = p # ps \<Longrightarrow> t \<in> set ts \<Longrightarrow> act Spread (Some q) ts ([], s, Q) [] ([(t, p)], s, Q(q := ps))"
| drop: "Q q = p # ps \<Longrightarrow> act Sink (Some q) ts ([], s, Q) [] ([], s, Q(q := ps))"
| transmit: "Q q = p # ps \<Longrightarrow> length p < 1518 \<Longrightarrow> act Sink (Some q) ts ([], s, Q) [] ([], s @ [p], Q(q := ps))"
| receive: "act Source i ts ([], s, Q) [p] (map (\<lambda>t. (t, p)) ts, s, Q)"
| put: "act r i ts ((t, p) # h, s, Q) []
    (h, s, Q(t := Q t @ (if length (Q t) < Q_SIZE \<and> p \<noteq> [] then [p] else [])))"

record net =
  a_hand :: "nid \<Rightarrow> (qid \<times> byte list) list"
  a_sent :: "nid \<Rightarrow> byte list list"
  a_queue :: "qid \<Rightarrow> byte list list"
  a_heard :: "byte list list"

inductive abs_step :: "(nid \<Rightarrow> (role \<times> qid option \<times> qid list) option) \<Rightarrow> net \<Rightarrow> net \<Rightarrow> bool" for G where
  stutter: "abs_step G a a"
| node: "G n = Some (r, i, ts) \<Longrightarrow> act r i ts (a_hand a n, a_sent a n, a_queue a) hs (h, s, Q) \<Longrightarrow>
    abs_step G a \<lparr>a_hand = (a_hand a)(n := h), a_sent = (a_sent a)(n := s), a_queue = Q, a_heard = a_heard a @ hs\<rparr>"

inductive abs_runs :: "(nid \<Rightarrow> (role \<times> qid option \<times> qid list) option) \<Rightarrow> net \<Rightarrow> net \<Rightarrow> bool" for G where
  none: "abs_runs G a a"
| more: "abs_runs G a b \<Longrightarrow> abs_step G b c \<Longrightarrow> abs_runs G a c"

subsection \<open>Taking a packet\<close>

lemma pop_waits:
  "queue_inv Q \<Longrightarrow> content Q = [] \<Longrightarrow>
     pop Q b (map (\<lambda>rc. (rc, Q)) ws) = (if \<forall>rc \<in> set ws. rc = 0 then Pop_blocked else Pop_ret (-1) b Q)"
proof (induction ws)
  case Nil
  then show ?case by (simp add: pop_empty)
next
  case (Cons rc ws)
  then show ?case by (subst pop.simps) (simp add: is_empty_iff)
qed

definition taken_from :: "'c Node \<Rightarrow> world \<Rightarrow> byte list \<Rightarrow> world \<Rightarrow> bool" where
  "taken_from node w p w' \<longleftrightarrow> world_inv w' \<and> dom (w_queues w') = dom (w_queues w) \<and>
     (\<exists>q ps. n_input node = Some q \<and> packets w q = p # ps \<and> packets w' = (packets w)(q := ps))"

definition unchanged :: "world \<Rightarrow> world \<Rightarrow> bool" where
  "unchanged w w' \<longleftrightarrow> world_inv w' \<and> dom (w_queues w') = dom (w_queues w) \<and> packets w' = packets w"

definition took :: "'c Node \<Rightarrow> ('l \<Rightarrow> bool) \<Rightarrow> (byte list \<Rightarrow> byte list option) \<Rightarrow> world \<Rightarrow> 'l taken \<Rightarrow> bool" where
  "took node I out w t \<longleftrightarrow>
     (case t of
        Taken_fault \<Rightarrow> False
      | Taken_blocked \<Rightarrow> True
      | Taken_end l w' \<Rightarrow> I l \<and> unchanged w w'
      | Taken_next l w' \<Rightarrow> I l \<and> (\<exists>p. taken_from node w p w' \<and> out p = None)
      | Taken_send l b k is w' \<Rightarrow> I l \<and> unat k \<le> length b \<and> unat k \<le> MAX_PKG_SIZE \<and> is = [0..<n_output_count node] \<and>
          (\<exists>p. taken_from node w p w' \<and> out p = Some (take (unat k) b)))"

text \<open>The input of a node that has one, and what it does when taking from it fails or waits.\<close>

lemma input_queue:
  assumes "world_inv w" "\<forall>q. n_input node = Some q \<longrightarrow> q \<in> dom (w_queues w)"
  obtains (none) "n_input node = None"
  | (empty) q Q where "n_input node = Some q" "w_queues w q = Some Q" "queue_inv Q" "content Q = []" "packets w q = []"
  | (some) q Q p ps where "n_input node = Some q" "w_queues w q = Some Q" "queue_inv Q" "content Q = p # ps"
      "packets w q = p # ps" "queue_inv (drop_first Q)" "content (drop_first Q) = ps" "packet_ok p"
proof (cases "n_input node")
  case None
  with none show ?thesis .
next
  case (Some q)
  then obtain Q where Q: "w_queues w q = Some Q" "queue_inv Q" using assms by blast
  show ?thesis
  proof (cases "content Q")
    case Nil
    then show ?thesis using empty Some Q by (simp add: packets_Some)
  next
    case (Cons p ps)
    with drop_first_spec [OF Q(2)] have d: "queue_inv (drop_first Q)" "content (drop_first Q) = ps" "packet_ok p"
      by (auto simp: packet_ok_def)
    show ?thesis by (rule some [OF Some Q Cons _ d]) (simp add: packets_Some Q(1) Cons)
  qed
qed

context packet_handler
begin

lemma took_consumer:
  assumes w: "world_inv w" "\<forall>q. n_input node = Some q \<longrightarrow> q \<in> dom (w_queues w)"
    and l: "ok x" "P (abs x)" "length buf = MAX_PKG_SIZE"
    and g: "\<forall>q. n_input node = Some q \<longrightarrow> (\<forall>p \<in> set (packets w q). good (abs x) p)"
    and P: "\<And>p. P (abs x) \<Longrightarrow> P (upd (abs x) p)"
  shows "took node (\<lambda>(x', b). ok x' \<and> P (abs x') \<and> length b = MAX_PKG_SIZE) (out (abs x)) w
    (consumer_take se handle node (x, buf) waits w)"
  using w
proof (cases rule: input_queue)
  case none
  then show ?thesis using w l by (simp add: consumer_take_def took_def unchanged_def fun_eq_iff)
next
  case (empty q Q)
  then have "packets (set_queue q Q w) = packets w" "insert q (dom (w_queues w)) = dom (w_queues w)"
    by (auto simp: fun_eq_iff)
  then show ?thesis
    using w l empty by (auto simp: consumer_take_def took_def unchanged_def pop_waits Let_def fun_eq_iff)
next
  case (some q Q p ps)
  let ?b = "p @ drop (length p) buf" and ?w = "set_queue q (drop_first Q) w"
  have pop: "pop Q buf (map (\<lambda>rc. (rc, Q)) waits) = Pop_ret (int (length p)) ?b (drop_first Q)"
    using pop_first [OF some(3)] some(4) l(3) by simp
  have len: "length ?b = MAX_PKG_SIZE" "\<not> int (length p) < 1" using some(8) l(3) by (auto simp: packet_ok_def)
  have "taken_from node w p ?w" using w some by (auto simp: taken_from_def fun_eq_iff)
  then have t: "taken_from node w p (log_all msgs ?w)" "taken_from node w p ?w" for msgs
    by (simp_all add: taken_from_def fun_eq_iff)
  have gp: "good (abs x) p" using g some(1,5) by simp
  show ?thesis
  proof (cases "out (abs x) p")
    case None
    from dropped [OF l(1) gp some(8) len(1) None] obtain x' buf' where
      "handle node x ?b (int (length p)) = Skip (x', buf')" "ok x'" "abs x' = upd (abs x) p" "length buf' = MAX_PKG_SIZE" by blast
    then show ?thesis
      using some(1,2) pop len(2) t(2) None P l(2) by (auto simp: consumer_take_def took_def Let_def)
  next
    case (Some p')
    from sent [OF l(1) gp some(8) len(1) Some] obtain x' buf' msgs tail where h:
      "handle node x ?b (int (length p)) = Emit (x', buf') msgs (p' @ tail) (of_nat (length p'))"
      "ok x'" "abs x' = upd (abs x) p" "length buf' = MAX_PKG_SIZE" by blast
    have p': "packet_ok p'" by (rule out_ok [OF gp some(8) Some])
    have k: "unat (of_nat (length p') :: u16) = length p'" by (rule unat_packet_length [OF p'])
    show ?thesis
      using some(1,2) pop len(2) t(1) Some P l(2) h k p'
      by (auto simp: consumer_take_def took_def Let_def packet_ok_def)
  qed
qed

end

text \<open>The dispatcher, which has one packet in hand for one output.\<close>

definition next_ok :: "'c Node \<Rightarrow> DispatcherContext \<Rightarrow> bool" where
  "next_ok node ctx \<longleftrightarrow>
     (strategy ctx = DISPATCH_ROUND_ROBIN \<longrightarrow> n_output_count node \<noteq> 0 \<longrightarrow> unat (next_index ctx) < n_output_count node)"

lemma choose_target_ok:
  assumes "node_inv node" "next_ok node ctx" "n_output_count node \<noteq> 0" "choose_target ctx (n_output_count node) r = (i, ctx')"
  shows "i < n_output_count node \<and> next_ok node ctx'"
proof (cases "strategy ctx")
  case DISPATCH_ROUND_ROBIN
  have n: "n_output_count node \<le> 16" using assms(1) by (simp add: node_inv_def MAX_NODE_OUTPUTS_def)
  show ?thesis
    using choose_round_robin [OF DISPATCH_ROUND_ROBIN _ n, of r] assms(2-4) DISPATCH_ROUND_ROBIN by (auto simp: next_ok_def)
next
  case DISPATCH_RANDOM
  then show ?thesis using assms(2-4) by (auto simp: choose_target_def next_ok_def)
qed

definition dealt :: "'c Node \<Rightarrow> ('l \<Rightarrow> bool) \<Rightarrow> world \<Rightarrow> 'l taken \<Rightarrow> bool" where
  "dealt node I w t \<longleftrightarrow>
     (case t of
        Taken_fault \<Rightarrow> False
      | Taken_blocked \<Rightarrow> True
      | Taken_end l w' \<Rightarrow> I l \<and> unchanged w w'
      | Taken_next l w' \<Rightarrow> I l \<and> unchanged w w'
      | Taken_send l b k is w' \<Rightarrow> I l \<and> unat k \<le> length b \<and> unat k \<le> MAX_PKG_SIZE \<and> taken_from node w (take (unat k) b) w' \<and>
          (\<exists>i < n_output_count node. is = [i]))"

lemma dealt_dispatcher:
  assumes w: "world_inv w" "\<forall>q. n_input node = Some q \<longrightarrow> q \<in> dom (w_queues w)"
    and l: "node_inv node" "next_ok node ctx" "length buf = MAX_PKG_SIZE"
  shows "dealt node (\<lambda>(ctx', b). next_ok node ctx' \<and> length b = MAX_PKG_SIZE) w (dispatcher_take node (ctx, buf) env w)"
  using w
proof (cases rule: input_queue)
  case none
  then show ?thesis using w l by (simp add: dispatcher_take_def dealt_def unchanged_def fun_eq_iff)
next
  case (empty q Q)
  then show ?thesis
    using w l by (auto simp: dispatcher_take_def dealt_def unchanged_def pop_waits Let_def fun_eq_iff)
next
  case (some q Q p ps)
  let ?b = "p @ drop (length p) buf" and ?w = "set_queue q (drop_first Q) w"
  have pop: "pop Q buf (map (\<lambda>rc. (rc, Q)) (fst env)) = Pop_ret (int (length p)) ?b (drop_first Q)"
    using pop_first [OF some(3)] some(4) l(3) by simp
  have len: "length ?b = MAX_PKG_SIZE" "\<not> int (length p) < 1" using some(8) l(3) by (auto simp: packet_ok_def)
  have k: "unat (of_int (int (length p)) :: u16) = length p" using unat_packet_length [OF some(8)] by simp
  have t: "taken_from node w p ?w" using w some by (auto simp: taken_from_def fun_eq_iff)
  show ?thesis
  proof (cases "n_output_count node = 0")
    case True
    then show ?thesis using some(1) w l by (simp add: dispatcher_take_def dealt_def unchanged_def fun_eq_iff)
  next
    case False
    obtain i ctx' where c: "choose_target ctx (n_output_count node) (snd env) = (i, ctx')" by fastforce
    then show ?thesis
      using choose_target_ok [OF l(1,2) False c] some(1,2,8) pop len k t False
      by (simp add: dispatcher_take_def dealt_def packet_ok_def)
  qed
qed

text \<open>The sender; it may drop the packet it has taken, because it is too long or cannot be sent.\<close>

lemma sender_takes:
  assumes w: "world_inv w" "\<forall>q. n_input node = Some q \<longrightarrow> q \<in> dom (w_queues w)" and l: "length (st_buffer l) = MAX_PKG_SIZE"
  shows "case sender_take node l env w of
     Taken_fault \<Rightarrow> False
   | Taken_blocked \<Rightarrow> True
   | Taken_send _ _ _ _ _ \<Rightarrow> False
   | Taken_next l' w' \<Rightarrow> length (st_buffer l') = MAX_PKG_SIZE \<and>
       (unchanged w w' \<and> st_sent l' = st_sent l \<or>
        (\<exists>p. taken_from node w p w' \<and> (st_sent l' = st_sent l \<or> length p < 1518 \<and> st_sent l' = st_sent l @ [p])))
   | Taken_end l' w' \<Rightarrow> length (st_buffer l') = MAX_PKG_SIZE \<and> st_sent l' = st_sent l \<and>
       (unchanged w w' \<or> (\<exists>p. taken_from node w p w'))"
  using w
proof (cases rule: input_queue)
  case none
  then show ?thesis using w l by (simp add: sender_take_def sender_body_def unchanged_def fun_eq_iff)
next
  case (empty q Q)
  then show ?thesis
    using w l by (auto simp: sender_take_def sender_body_def VLAN_ETH_FRAME_LEN_def unchanged_def pop_waits Let_def fun_eq_iff)
next
  case (some q Q p ps)
  let ?b = "p @ drop (length p) (st_buffer l)" and ?w = "set_queue q (drop_first Q) w"
  have pop: "pop Q (st_buffer l) (map (\<lambda>rc. (rc, Q)) (fst env)) = Pop_ret (int (length p)) ?b (drop_first Q)"
    using pop_first [OF some(3)] some(4) l by simp
  have len: "length ?b = MAX_PKG_SIZE" "\<not> int (length p) < 0" using some(8) l by (auto simp: packet_ok_def)
  have "taken_from node w p ?w" using w some by (auto simp: taken_from_def fun_eq_iff)
  then have t: "taken_from node w p ?w" "taken_from node w p (log_to ty se m ?w)"
    "taken_from node w p (raise_exit node (log_to ty se m ?w))" for ty se m
    by (simp_all add: taken_from_def fun_eq_iff raise_exit_def world_inv_def packets_def)
  show ?thesis
    using some(1,2) pop len t(1)
    by (auto simp: sender_take_def sender_body_def VLAN_ETH_FRAME_LEN_def Let_def split: option.split intro: t)
qed

subsection \<open>The threads refine the network\<close>

text \<open>
  What a thread's kind makes of a packet, the packets it can treat without leaving its memory, and
  the invariants of its variables and of its place in the loop.
\<close>

definition role :: "vars \<Rightarrow> role" where
  "role v =
     (case v of
        V_tagger l \<Rightarrow> Transform (tagger_out (fst (fst l)))
      | V_ip_modifier l \<Rightarrow> Transform (ip_modifier_out (fst l))
      | V_collector l \<Rightarrow> Transform Some
      | V_counter l \<Rightarrow> Transform Some
      | V_logger l \<Rightarrow> Transform Some
      | V_dispatcher l \<Rightarrow> Spread
      | V_sniffer l \<Rightarrow> Source
      | V_sender l \<Rightarrow> Sink)"

definition harmless :: "vars \<Rightarrow> byte list \<Rightarrow> bool" where
  "harmless v p = (case v of V_tagger l \<Rightarrow> length p \<le> 1518 | V_ip_modifier l \<Rightarrow> header_inside p | _ \<Rightarrow> True)"

lemma harmless_simps [simp]:
  "harmless (V_tagger l) = (\<lambda>p. length p \<le> 1518)" "harmless (V_ip_modifier l2) = header_inside"
  "harmless (V_collector l3) = (\<lambda>p. True)" "harmless (V_counter l4) = (\<lambda>p. True)" "harmless (V_logger l5) = (\<lambda>p. True)"
  "harmless (V_dispatcher l6) = (\<lambda>p. True)" "harmless (V_sniffer l7) = (\<lambda>p. True)" "harmless (V_sender l8) = (\<lambda>p. True)"
  by (simp_all add: harmless_def fun_eq_iff)

definition vars_ok :: "'c Node \<Rightarrow> vars \<Rightarrow> bool" where
  "vars_ok node v =
     (case v of
        V_tagger l \<Rightarrow> length (snd (fst l)) = MAX_PKG_SIZE \<and> length (snd l) = MAX_PKG_SIZE
      | V_ip_modifier l \<Rightarrow> length (snd l) = MAX_PKG_SIZE
      | V_collector l \<Rightarrow> length (snd l) = MAX_PKG_SIZE
      | V_counter l \<Rightarrow> (of_int (pc_log_interval (fst l)) :: u64) \<noteq> 0 \<and> length (snd l) = MAX_PKG_SIZE
      | V_logger l \<Rightarrow> length (snd l) = MAX_PKG_SIZE
      | V_dispatcher l \<Rightarrow> next_ok node (fst l) \<and> length (snd l) = MAX_PKG_SIZE
      | V_sniffer l \<Rightarrow> length (st_buffer l) = MAX_PKG_SIZE
      | V_sender l \<Rightarrow> length (st_buffer l) = MAX_PKG_SIZE)"

definition pc_ok :: "'c Node \<Rightarrow> pc \<Rightarrow> bool" where
  "pc_ok node pc =
     (case pc of
        Crashed \<Rightarrow> False
      | Sending b k is \<Rightarrow> unat k \<le> length b \<and> unat k \<le> MAX_PKG_SIZE \<and> (\<forall>i \<in> set is. i < n_output_count node)
      | _ \<Rightarrow> True)"

definition node_fits :: "qid set \<Rightarrow> 'c Node \<Rightarrow> bool" where
  "node_fits D node \<longleftrightarrow> node_inv node \<and> set (targets node) \<subseteq> D \<and> (\<forall>q. n_input node = Some q \<longrightarrow> q \<in> D)"

definition world_fits :: "qid set \<Rightarrow> world \<Rightarrow> bool" where
  "world_fits D w \<longleftrightarrow> world_inv w \<and> dom (w_queues w) = D"

definition hand :: "'c Node \<Rightarrow> pc \<Rightarrow> (qid \<times> byte list) list" where
  "hand node pc = (case pc of Sending b k is \<Rightarrow> map (\<lambda>i. (targets node ! i, take (unat k) b)) is | _ \<Rightarrow> [])"

definition sent_by :: "vars \<Rightarrow> byte list list" where
  "sent_by v = (case v of V_sender l \<Rightarrow> st_sent l | _ \<Rightarrow> [])"

definition acted :: "qid set \<Rightarrow> 'c Node \<Rightarrow> byte list list \<Rightarrow> pc \<Rightarrow> vars \<Rightarrow> world \<Rightarrow> pc \<Rightarrow> vars \<Rightarrow> world \<Rightarrow> bool" where
  "acted D node hs pc v w pc' v' w' \<longleftrightarrow>
     world_fits D w' \<and> vars_ok node v' \<and> pc_ok node pc' \<and> role v' = role v \<and> harmless v' = harmless v \<and>
     act (role v) (n_input node) (targets node) (hand node pc, sent_by v, packets w) hs
       (hand node pc', sent_by v', packets w')"

definition turn_acts :: "qid set \<Rightarrow> 'c Node \<Rightarrow> byte list list \<Rightarrow> vars \<Rightarrow> world \<Rightarrow> vars taken \<Rightarrow> bool" where
  "turn_acts D node hs v w t =
     (case t of
        Taken_fault \<Rightarrow> False
      | Taken_blocked \<Rightarrow> True
      | Taken_next v' w' \<Rightarrow> acted D node hs Turn v w Loop v' w'
      | Taken_end v' w' \<Rightarrow> acted D node hs Turn v w Left v' w'
      | Taken_send v' b k is w' \<Rightarrow> acted D node hs Turn v w (Sending b k is) v' w')"

lemma hand_simps [simp]:
  "hand node Loop = []" "hand node Turn = []" "hand node Left = []" "hand node Crashed = []"
  "hand node (Sending b k is) = map (\<lambda>i. (targets node ! i, take (unat k) b)) is"
  by (simp_all add: hand_def)

lemma pc_ok_simps [simp]:
  "pc_ok node Loop" "pc_ok node Turn" "pc_ok node Left" "\<not> pc_ok node Crashed"
  "pc_ok node (Sending b k is) \<longleftrightarrow> unat k \<le> length b \<and> unat k \<le> MAX_PKG_SIZE \<and> (\<forall>i \<in> set is. i < n_output_count node)"
  by (simp_all add: pc_ok_def)

lemma all_targets: "node_inv node \<Longrightarrow> map (\<lambda>i. (targets node ! i, p)) [0..<n_output_count node] = map (\<lambda>t. (t, p)) (targets node)"
  by (rule nth_equalityI) (simp_all add: length_targets)

lemma treat_none: "Q q = p # ps \<Longrightarrow> f p = None \<Longrightarrow> act (Transform f) (Some q) ts ([], s, Q) [] ([], s, Q(q := ps))"
  using act.treat [of Q q p ps f] by simp

lemma treat_some:
  "Q q = p # ps \<Longrightarrow> f p = Some p' \<Longrightarrow> act (Transform f) (Some q) ts ([], s, Q) [] (map (\<lambda>t. (t, p')) ts, s, Q(q := ps))"
  using act.treat [of Q q p ps f] by simp

lemma turn_acts_transform:
  assumes n: "node_inv node" and w: "world_fits D w"
    and f: "role (f l) = Transform out" "sent_by (f l) = []"
    and t: "took node I out w t"
    and I: "\<And>l'. I l' \<Longrightarrow> vars_ok node (f l') \<and> role (f l') = Transform out \<and> sent_by (f l') = [] \<and> harmless (f l') = harmless (f l)"
  shows "turn_acts D node [] (f l) w (map_taken f t)"
proof (cases t)
  case (Taken_send l' b k "is" w')
  then show ?thesis
    using t f I [of l'] n w
    by (auto simp: took_def turn_acts_def acted_def world_fits_def taken_from_def all_targets intro!: treat_some)
next
  case (Taken_next l' w')
  then show ?thesis
    using t f I [of l'] w
    by (auto simp: took_def turn_acts_def acted_def world_fits_def taken_from_def intro!: treat_none)
next
  case (Taken_end l' w')
  then show ?thesis
    using t f I [of l'] w by (auto simp: took_def turn_acts_def acted_def world_fits_def unchanged_def intro!: act.rest)
qed (use t in \<open>auto simp: took_def turn_acts_def\<close>)

lemma turn_acts_dispatcher:
  assumes n: "node_inv node" and w: "world_fits D w"
    and t: "dealt node (\<lambda>(ctx', b). next_ok node ctx' \<and> length b = MAX_PKG_SIZE) w t"
  shows "turn_acts D node [] (V_dispatcher l) w (map_taken V_dispatcher t)"
proof (cases t)
  case (Taken_send l' b k "is" w')
  then obtain i q ps where i: "is = [i]" "i < n_output_count node" "n_input node = Some q"
    "packets w q = take (unat k) b # ps" "packets w' = (packets w)(q := ps)"
    using t by (auto simp: dealt_def taken_from_def)
  then have "targets node ! i \<in> set (targets node)" using length_targets [OF n] by simp
  then show ?thesis
    using Taken_send t w i
    by (auto simp: dealt_def turn_acts_def acted_def world_fits_def taken_from_def role_def vars_ok_def sent_by_def
        intro!: act.deal)
qed (use t w in \<open>auto simp: dealt_def turn_acts_def acted_def world_fits_def unchanged_def role_def vars_ok_def sent_by_def
       intro!: act.rest\<close>)

lemma turn_acts_sniffer:
  assumes n: "node_inv node" and w: "world_fits D w" and l: "length (st_buffer l) = MAX_PKG_SIZE"
  shows "turn_acts D node (heard Turn (V_sniffer l) e) (V_sniffer l) w (map_taken V_sniffer (sniffer_take node l (ev_recv e) w))"
proof (cases "ev_recv e")
  case (Recv_error errno)
  have "unchanged w (raise_exit node (log_to ty se m w))" "unchanged w (log_to ty se m w)" for ty se m
    using w by (auto simp: unchanged_def raise_exit_def world_fits_def world_inv_def packets_def fun_eq_iff)
  then show ?thesis
    using Recv_error w l
    by (auto simp: turn_acts_def acted_def sniffer_take_def heard_def Let_def world_fits_def unchanged_def role_def
        vars_ok_def sent_by_def intro!: act.rest)
next
  case (Frame data)
  let ?d = "take ETHERNET_FRAME_LENGTH data"
  have d: "length ?d \<le> 1522" by (simp add: ETHERNET_FRAME_LENGTH_def)
  then have k: "take (unat (of_nat (length ?d) :: u16)) (?d @ r) = ?d" "unat (of_nat (length ?d) :: u16) = length ?d" for r
    by (simp_all add: unat_of_nat take_bit_nat_eq_self ETHERNET_FRAME_LENGTH_def min_def)
  then show ?thesis
    using Frame w l n d
    by (auto simp: turn_acts_def acted_def sniffer_take_def heard_def Let_def world_fits_def role_def MAX_PKG_SIZE_def
        vars_ok_def sent_by_def all_targets intro!: act.receive simp del: length_take)
qed

lemma turn_acts_sender:
  assumes w: "world_fits D w" "node_fits D node" and l: "length (st_buffer l) = MAX_PKG_SIZE"
  shows "turn_acts D node [] (V_sender l) w (map_taken V_sender (sender_take node l env w))"
proof -
  have i: "world_inv w" "\<forall>q. n_input node = Some q \<longrightarrow> q \<in> dom (w_queues w)"
    using w by (auto simp: world_fits_def node_fits_def)
  have a: "act Sink (n_input node) (targets node) ([], s, packets w) [] ([], s', packets w')"
    if "unchanged w w' \<and> s' = s \<or> (\<exists>p. taken_from node w p w' \<and> (s' = s \<or> length p < 1518 \<and> s' = s @ [p]))" for s s' w'
    using that by (auto simp: unchanged_def taken_from_def intro: act.rest act.drop act.transmit)
  have d: "world_fits D w'" if "unchanged w w' \<or> (\<exists>p. taken_from node w p w')" for w'
    using that w by (auto simp: unchanged_def taken_from_def world_fits_def)
  show ?thesis
    using sender_takes [OF i l, of env]
    by (cases "sender_take node l env w")
       (auto simp: turn_acts_def acted_def role_def vars_ok_def sent_by_def intro!: a d)
qed

lemma take_turn_acts:
  assumes n: "node_fits D node" and w: "world_fits D w" and v: "vars_ok node v"
    and h: "\<forall>q. n_input node = Some q \<longrightarrow> (\<forall>p \<in> set (packets w q). harmless v p)"
  shows "turn_acts D node (heard Turn v e) v w (take_turn node v e w)"
proof -
  have i: "node_inv node" "world_inv w" "\<forall>q. n_input node = Some q \<longrightarrow> q \<in> dom (w_queues w)"
    using n w by (auto simp: node_fits_def world_fits_def)
  show ?thesis
  proof (cases v)
    case (V_tagger l)
    obtain c ob b where l: "l = ((c, ob), b)" by (metis surj_pair)
    have "took node (\<lambda>(x', b). length (snd x') = MAX_PKG_SIZE \<and> fst x' = c \<and> length b = MAX_PKG_SIZE) (tagger_out c) w
        (consumer_take TAGGER tagger_handle node l (ev_waits e) w)"
      using tagger.took_consumer [OF i(2,3), where x = "(c, ob)" and P = "\<lambda>s. s = c" and buf = b and se = TAGGER and waits = "ev_waits e"] v h V_tagger l
      by (simp add: vars_ok_def)
    from turn_acts_transform [where f = V_tagger and l = l, OF i(1) w _ _ this] show ?thesis
      using V_tagger l by (auto simp: role_def sent_by_def vars_ok_def take_turn_def heard_def)
  next
    case (V_ip_modifier l)
    obtain c b where l: "l = (c, b)" by (rule prod.exhaust)
    have "took node (\<lambda>(x', b). True \<and> x' = c \<and> length b = MAX_PKG_SIZE) (ip_modifier_out c) w
        (consumer_take INITIATOR ip_modifier_handle node l (ev_waits e) w)"
      using ip_modifier.took_consumer [OF i(2,3), where x = c and P = "\<lambda>s. s = c" and buf = b and se = INITIATOR and waits = "ev_waits e"] v h V_ip_modifier l
      by (simp add: vars_ok_def)
    from turn_acts_transform [where f = V_ip_modifier and l = l, OF i(1) w _ _ this] show ?thesis
      using V_ip_modifier l by (auto simp: role_def sent_by_def vars_ok_def take_turn_def heard_def)
  next
    case (V_collector l)
    obtain c b where l: "l = (c, b)" by (rule prod.exhaust)
    have "took node (\<lambda>(x', b). True \<and> True \<and> length b = MAX_PKG_SIZE) Some w
        (consumer_take INITIATOR collector_handle node l (ev_waits e) w)"
      using collector.took_consumer [OF i(2,3), where x = c and P = "\<lambda>s. True" and buf = b and se = INITIATOR and waits = "ev_waits e"] v V_collector l
      by (simp add: vars_ok_def)
    from turn_acts_transform [where f = V_collector and l = l, OF i(1) w _ _ this] show ?thesis
      using V_collector l by (auto simp: role_def sent_by_def vars_ok_def take_turn_def heard_def)
  next
    case (V_counter l)
    obtain c b where l: "l = (c, b)" by (rule prod.exhaust)
    have "took node (\<lambda>(x', b). True \<and> (of_int (pc_log_interval x') :: u64) \<noteq> 0 \<and> length b = MAX_PKG_SIZE) Some w
        (consumer_take INITIATOR packet_counter_handle node l (ev_waits e) w)"
      using packet_counter.took_consumer [OF i(2,3), where x = c and P = "\<lambda>s. (of_int (pc_log_interval s) :: u64) \<noteq> 0" and buf = b and se = INITIATOR and waits = "ev_waits e"]
        v V_counter l
      by (simp add: vars_ok_def count_simps)
    from turn_acts_transform [where f = V_counter and l = l, OF i(1) w _ _ this] show ?thesis
      using V_counter l by (auto simp: role_def sent_by_def vars_ok_def take_turn_def heard_def)
  next
    case (V_logger l)
    obtain c b where l: "l = (c, b)" by (rule prod.exhaust)
    have "took node (\<lambda>(x', b). True \<and> True \<and> length b = MAX_PKG_SIZE) Some w
        (consumer_take INITIATOR logger_handle node l (ev_waits e) w)"
      using logger_node.took_consumer [OF i(2,3), where x = c and P = "\<lambda>s. True" and buf = b and se = INITIATOR and waits = "ev_waits e"] v V_logger l
      by (simp add: vars_ok_def)
    from turn_acts_transform [where f = V_logger and l = l, OF i(1) w _ _ this] show ?thesis
      using V_logger l by (auto simp: role_def sent_by_def vars_ok_def take_turn_def heard_def)
  next
    case (V_dispatcher l)
    obtain c b where l: "l = (c, b)" by (rule prod.exhaust)
    have "dealt node (\<lambda>(ctx', b). next_ok node ctx' \<and> length b = MAX_PKG_SIZE) w (dispatcher_take node l (ev_waits e, ev_rand e) w)"
      using dealt_dispatcher [OF i(2,3,1)] v V_dispatcher l by (simp add: vars_ok_def)
    from turn_acts_dispatcher [OF i(1) w this] show ?thesis
      using V_dispatcher by (simp add: take_turn_def heard_def)
  next
    case (V_sniffer l)
    then show ?thesis using turn_acts_sniffer [OF i(1) w] v by (simp add: take_turn_def vars_ok_def)
  next
    case (V_sender l)
    then show ?thesis using turn_acts_sender [OF w n] v by (simp add: take_turn_def vars_ok_def heard_def)
  qed
qed

text \<open>A push of a thread: the packet in hand gets to the end of its queue, or is lost.\<close>

lemma push_effect:
  assumes "queue_inv Q" "unat k \<le> MAX_PKG_SIZE" "unat k \<le> length b"
  shows "\<exists>r Q'. push Q b k = Some (r, Q') \<and> queue_inv Q' \<and>
    content Q' = content Q @ (if length (content Q) < Q_SIZE \<and> take (unat k) b \<noteq> [] then [take (unat k) b] else [])"
proof (cases "k = 0")
  case True
  then show ?thesis using assms(1) by (simp add: push_zero)
next
  case False
  then have k: "0 < unat k" by (simp add: unat_gt_0)
  moreover have "take (unat k) b \<noteq> []" using k assms(3) by auto
  ultimately show ?thesis using push_step [OF assms(1) k assms(2,3)] by auto
qed

definition put_in :: "qid set \<Rightarrow> qid \<Rightarrow> byte list \<Rightarrow> world \<Rightarrow> world \<Rightarrow> bool" where
  "put_in D t p w w' \<longleftrightarrow> world_fits D w' \<and>
     packets w' = (packets w)(t := packets w t @ (if length (packets w t) < Q_SIZE \<and> p \<noteq> [] then [p] else []))"

lemma put_in_set:
  assumes "world_fits D w" "w_queues w t = Some Q" "queue_inv Q'"
    and "content Q' = content Q @ (if length (content Q) < Q_SIZE \<and> p \<noteq> [] then [p] else [])"
  shows "put_in D t p w (set_queue t Q' w)" "put_in D t p w (log_to ty se m (set_queue t Q' w))"
  using assms by (auto simp: put_in_def world_fits_def packets_Some fun_eq_iff)

lemma push_one_puts:
  assumes n: "node_fits D node" and w: "world_fits D w" and v: "vars_ok node v"
    and k: "unat k \<le> length b" "unat k \<le> MAX_PKG_SIZE" "i < n_output_count node"
  shows "\<exists>v' w'. push_one node v b k i w = Some (v', w') \<and> vars_ok node v' \<and> role v' = role v \<and> harmless v' = harmless v \<and> sent_by v' = sent_by v \<and>
    put_in D (targets node ! i) (take (unat k) b) w w'"
proof -
  have inv: "node_inv node" using n by (simp add: node_fits_def)
  let ?t = "targets node ! i"
  have "?t \<in> set (targets node)" using length_targets [OF inv] k(3) by simp
  then have "?t \<in> dom (w_queues w)" using n w by (auto simp: node_fits_def world_fits_def)
  then obtain Q where Q: "w_queues w ?t = Some Q" by blast
  moreover have "queue_inv Q" using w Q by (auto simp: world_fits_def)
  ultimately have Q: "w_queues w ?t = Some Q" "queue_inv Q" by simp_all
  from push_effect [OF Q(2) k(2,1)] obtain r Q' where p: "push Q b k = Some (r, Q')" "queue_inv Q'"
    "content Q' = content Q @ (if length (content Q) < Q_SIZE \<and> take (unat k) b \<noteq> [] then [take (unat k) b] else [])" by blast
  note put = put_in_set [OF w Q(1) p(2,3)] and o = targets_nth [OF inv k(3)]
  have "\<exists>w'. send_outputs node b k [i] w = Some w' \<and> put_in D ?t (take (unat k) b) w w'"
    using put p(1) o Q(1) by (cases "r = int (unat k)") simp_all
  then obtain w' where s: "send_outputs node b k [i] w = Some w'" "put_in D ?t (take (unat k) b) w w'" by blast
  show ?thesis
  proof (cases v)
    case (V_dispatcher l)
    obtain ctx c where l: "l = (ctx, c)" by (rule prod.exhaust)
    show ?thesis
      using put p(1) o Q(1) V_dispatcher l v
      by (cases "r = int (unat k)")
         (simp_all add: push_one_def dispatcher_push_def vars_ok_def role_def sent_by_def next_ok_def)
  qed (use s v in \<open>simp_all add: push_one_def\<close>)
qed

lemma thread_step_acts:
  assumes n: "node_fits D node" and w: "world_fits D w" and v: "vars_ok node v" "pc_ok node pc"
    and h: "\<forall>q. n_input node = Some q \<longrightarrow> (\<forall>p \<in> set (packets w q). harmless v p)"
    and s: "thread_step node e pc v w = Some (pc', v', w')"
  shows "acted D node (heard pc v e) pc v w pc' v' w'"
proof (cases pc)
  case Loop
  then show ?thesis using s w v by (auto simp: acted_def heard_def split: if_splits intro: act.rest)
next
  case Turn
  then show ?thesis
    using take_turn_acts [OF n w v(1) h, of e] s by (auto simp: turn_acts_def split: taken.splits)
next
  case (Sending b k js)
  show ?thesis
  proof (cases js)
    case Nil
    then show ?thesis using Sending s w v by (auto simp: acted_def heard_def intro: act.rest)
  next
    case (Cons i "is")
    with Sending v(2) have k: "unat k \<le> length b" "unat k \<le> MAX_PKG_SIZE" "i < n_output_count node"
      "\<forall>i \<in> set is. i < n_output_count node" by auto
    from push_one_puts [OF n w v(1) k(1-3)] obtain v1 w1 where p: "push_one node v b k i w = Some (v1, w1)"
      "vars_ok node v1" "role v1 = role v" "harmless v1 = harmless v" "sent_by v1 = sent_by v" "put_in D (targets node ! i) (take (unat k) b) w w1" by blast
    have "act r j ts ((targets node ! i, take (unat k) b) # hs, ps, packets w) [] (hs, ps, packets w1)" for r j ts hs ps
      using p(6) by (simp only: put_in_def act.put)
    moreover have "pc' = Sending b k is" "v' = v1" "w' = w1" using Sending Cons s p(1) by simp_all
    moreover have "world_fits D w1" using p(6) by (simp add: put_in_def)
    ultimately show ?thesis
      using Sending Cons k p(2-5) by (simp add: acted_def heard_def)
  qed
qed (use s in simp_all)

text \<open>
  A state of all threads in which the invariants hold, over queues \<open>D\<close>, its abstraction, and the
  graph of the network. \<open>calm\<close> says that no queue holds a packet its consumer cannot treat.
\<close>

definition conf_fits :: "qid set \<Rightarrow> (nid \<Rightarrow> 'c Node option) \<Rightarrow> conf \<Rightarrow> bool" where
  "conf_fits D N c \<longleftrightarrow> world_fits D (c_world c) \<and>
     (\<forall>n node. N n = Some node \<longrightarrow> node_fits D node \<and> vars_ok node (c_vars c n) \<and> pc_ok node (c_pc c n))"

definition calm :: "(nid \<Rightarrow> 'c Node option) \<Rightarrow> conf \<Rightarrow> bool" where
  "calm N c \<longleftrightarrow> (\<forall>n node q. N n = Some node \<longrightarrow> n_input node = Some q \<longrightarrow>
     (\<forall>p \<in> set (packets (c_world c) q). harmless (c_vars c n) p))"

definition abstract :: "(nid \<Rightarrow> 'c Node option) \<Rightarrow> conf \<Rightarrow> net" where
  "abstract N c =
     \<lparr>a_hand = (\<lambda>n. case N n of None \<Rightarrow> [] | Some node \<Rightarrow> hand node (c_pc c n)),
      a_sent = (\<lambda>n. sent_by (c_vars c n)), a_queue = packets (c_world c), a_heard = c_sniffed c\<rparr>"

definition graph :: "(nid \<Rightarrow> 'c Node option) \<Rightarrow> (nid \<Rightarrow> vars) \<Rightarrow> nid \<Rightarrow> (role \<times> qid option \<times> qid list) option" where
  "graph N vs n = map_option (\<lambda>node. (role (vs n), n_input node, targets node)) (N n)"

lemma step_refines:
  assumes "step N E c c'" "conf_fits D N c" "calm N c"
  shows "conf_fits D N c' \<and> graph N (c_vars c') = graph N (c_vars c) \<and>
    (\<forall>n. harmless (c_vars c' n) = harmless (c_vars c n)) \<and>
    abs_step (graph N (c_vars c)) (abstract N c) (abstract N c') \<and>
    (\<exists>e hs. c_sniffed c' = c_sniffed c @ hs \<and>
       (hs = [] \<or> E e \<and> (\<exists>data. ev_recv e = Frame data \<and> hs = [take ETHERNET_FRAME_LENGTH data])))"
  using assms(1)
proof (cases rule: step.cases)
  case (thread n node e r)
  obtain pc' v' w' where r: "r = (pc', v', w')" by (metis surj_pair)
  have a: "acted D node (heard (c_pc c n) (c_vars c n) e) (c_pc c n) (c_vars c n) (c_world c) pc' v' w'"
    using thread_step_acts [of D node "c_world c" "c_vars c n" "c_pc c n" e pc' v' w'] thread assms(2,3) r
    by (simp add: conf_fits_def calm_def)
  have h: "heard (c_pc c n) (c_vars c n) e = [] \<or>
      (\<exists>data. ev_recv e = Frame data \<and> heard (c_pc c n) (c_vars c n) e = [take ETHERNET_FRAME_LENGTH data])"
    by (auto simp: heard_def split: pc.split vars.split received.split)
  have eq: "abstract N c' = \<lparr>a_hand = (a_hand (abstract N c))(n := hand node pc'),
      a_sent = (a_sent (abstract N c))(n := sent_by v'), a_queue = packets w',
      a_heard = a_heard (abstract N c) @ heard (c_pc c n) (c_vars c n) e\<rparr>"
    using thread r by (auto simp: abstract_def moved_def fun_eq_iff split: option.split)
  have "abs_step (graph N (c_vars c)) (abstract N c) (abstract N c')"
    unfolding eq by (rule abs_step.node [of _ _ "role (c_vars c n)" "n_input node" "targets node"])
      (use thread a in \<open>simp_all add: graph_def abstract_def acted_def\<close>)
  moreover have "conf_fits D N c'"
    using a assms(2) thread r by (auto simp: conf_fits_def acted_def moved_def)
  moreover have "graph N (c_vars c') = graph N (c_vars c)" "\<forall>m. harmless (c_vars c' m) = harmless (c_vars c m)"
    using a thread r by (auto simp: graph_def acted_def moved_def)
  ultimately show ?thesis using h thread by (auto simp: moved_def)
next
  case signal
  have "world_fits D ((c_world c)\<lparr>w_exit := True\<rparr>) = world_fits D (c_world c)" "packets ((c_world c)\<lparr>w_exit := True\<rparr>) = packets (c_world c)"
    by (auto simp: world_fits_def world_inv_def packets_def)
  moreover from this have "abstract N c' = abstract N c"
    using signal by (simp add: signalled_def abstract_def cong: option.case_cong)
  ultimately show ?thesis
    using signal assms(2) by (auto simp: signalled_def conf_fits_def intro: abs_step.stutter)
qed

subsection \<open>Weighing\<close>

text \<open>
  A packet has a weight that depends on the queue it is in or goes to (\<open>W\<close>), on the wire
  (\<open>R\<close>) and when it is received (\<open>S\<close>). If no node makes packets heavier, the network
  never holds and sends more than it has received.
\<close>

definition queues_weight :: "(qid \<Rightarrow> byte list \<Rightarrow> nat) \<Rightarrow> qid set \<Rightarrow> (qid \<Rightarrow> byte list list) \<Rightarrow> nat" where
  "queues_weight W D Q = (\<Sum>q\<in>D. sum_list (map (W q) (Q q)))"

definition hand_weight :: "(qid \<Rightarrow> byte list \<Rightarrow> nat) \<Rightarrow> (qid \<times> byte list) list \<Rightarrow> nat" where
  "hand_weight W h = sum_list (map (\<lambda>(t, p). W t p) h)"

definition wire_weight :: "(byte list \<Rightarrow> nat) \<Rightarrow> byte list list \<Rightarrow> nat" where
  "wire_weight R s = sum_list (map R s)"

definition weight :: "(qid \<Rightarrow> byte list \<Rightarrow> nat) \<Rightarrow> (byte list \<Rightarrow> nat) \<Rightarrow> qid set \<Rightarrow> nid set \<Rightarrow> net \<Rightarrow> nat" where
  "weight W R D Ns a = queues_weight W D (a_queue a) + (\<Sum>n\<in>Ns. hand_weight W (a_hand a n)) + (\<Sum>n\<in>Ns. wire_weight R (a_sent a n))"

definition no_heavier :: "(qid \<Rightarrow> byte list \<Rightarrow> nat) \<Rightarrow> (byte list \<Rightarrow> nat) \<Rightarrow> (byte list \<Rightarrow> nat) \<Rightarrow> qid set
    \<Rightarrow> role \<times> qid option \<times> qid list \<Rightarrow> bool" where
  "no_heavier W R S D g =
     (case g of (r, i, ts) \<Rightarrow> (\<forall>q. i = Some q \<longrightarrow> q \<in> D) \<and>
       (case r of
          Source \<Rightarrow> \<forall>p. (\<Sum>t\<leftarrow>ts. W t p) \<le> S p
        | Transform f \<Rightarrow> \<forall>q p p'. i = Some q \<longrightarrow> f p = Some p' \<longrightarrow> (\<Sum>t\<leftarrow>ts. W t p') \<le> W q p
        | Spread \<Rightarrow> \<forall>q p. i = Some q \<longrightarrow> (\<forall>t \<in> set ts. W t p \<le> W q p)
        | Sink \<Rightarrow> \<forall>q p. i = Some q \<longrightarrow> length p < 1518 \<longrightarrow> R p \<le> W q p))"

lemma sum_fun_upd:
  fixes f :: "'a \<Rightarrow> 'b \<Rightarrow> nat"
  assumes "finite A"
  shows "(\<Sum>x\<in>A. f x ((g(a := b)) x)) + (if a \<in> A then f a (g a) else 0) =
    (\<Sum>x\<in>A. f x (g x)) + (if a \<in> A then f a b else 0)"
proof (cases "a \<in> A")
  case True
  have "(\<Sum>x\<in>A - {a}. f x ((g(a := b)) x)) = (\<Sum>x\<in>A - {a}. f x (g x))" by (rule sum.cong) auto
  then show ?thesis
    using True assms by (simp add: sum.remove [OF assms True])
next
  case False
  then have "(\<Sum>x\<in>A. f x ((g(a := b)) x)) = (\<Sum>x\<in>A. f x (g x))" by (intro sum.cong) auto
  then show ?thesis using False by simp
qed

lemma hand_weight_simps [simp]:
  "hand_weight W [] = 0" "hand_weight W ((t, p) # h) = W t p + hand_weight W h"
  "hand_weight W (map (\<lambda>t. (t, p)) ts) = (\<Sum>t\<leftarrow>ts. W t p)"
  by (simp_all add: hand_weight_def comp_def)

lemma wire_weight_simps [simp]:
  "wire_weight R [] = 0" "wire_weight R (xs @ ys) = wire_weight R xs + wire_weight R ys" "wire_weight R [p] = R p"
  by (simp_all add: wire_weight_def)

lemma queues_weight_take:
  assumes "finite D" "q \<in> D" "Q q = p # ps"
  shows "queues_weight W D (Q(q := ps)) + W q p = queues_weight W D Q"
  using sum_fun_upd [OF assms(1), of "\<lambda>q x. sum_list (map (W q) x)" Q q ps] assms(2,3)
  by (simp add: queues_weight_def)

lemma queues_weight_put:
  assumes "finite D"
  shows "queues_weight W D (Q(t := Q t @ (if c then [p] else []))) \<le> queues_weight W D Q + W t p"
  using sum_fun_upd [OF assms, of "\<lambda>q x. sum_list (map (W q) x)" Q t "Q t @ (if c then [p] else [])"]
  by (auto simp: queues_weight_def split: if_splits)

lemma act_weight:
  assumes "act r i ts (h, s, Q) hs (h', s', Q')" "finite D" "no_heavier W R S D (r, i, ts)"
  shows "queues_weight W D Q' + hand_weight W h' + wire_weight R s' \<le>
    queues_weight W D Q + hand_weight W h + wire_weight R s + wire_weight S hs"
  using assms(1)
proof (cases rule: act.cases)
  case (treat q p ps f)
  then have "f p = Some p' \<Longrightarrow> (\<Sum>t\<leftarrow>ts. W t p') \<le> W q p" "q \<in> D" for p'
    using assms(3) by (simp_all add: no_heavier_def)
  then show ?thesis
    using treat queues_weight_take [of D q Q p ps W] assms(2) by (cases "f p") fastforce+
next
  case (deal q p ps t)
  then have "W t p \<le> W q p" "q \<in> D" using assms(3) by (simp_all add: no_heavier_def)
  then show ?thesis
    using deal queues_weight_take [of D q Q p ps W] assms(2) by simp
next
  case (drop q p ps)
  then show ?thesis
    using queues_weight_take [of D q Q p ps W] assms(2,3) by (auto simp: no_heavier_def)
next
  case (transmit q p ps)
  then have "R p \<le> W q p" using assms(3) by (auto simp: no_heavier_def)
  with transmit show ?thesis
    using queues_weight_take [of D q Q p ps W] assms(2,3) by (auto simp: no_heavier_def)
next
  case (receive p)
  then show ?thesis using assms(3) by (auto simp: no_heavier_def)
next
  case (put t p)
  then show ?thesis using queues_weight_put [OF assms(2), of W Q t _ p] by simp
qed auto

lemma weight_step:
  assumes "abs_step G a b" "finite D" "finite Ns" "dom G \<subseteq> Ns" "\<forall>g \<in> ran G. no_heavier W R S D g"
  shows "weight W R D Ns b + wire_weight S (a_heard a) \<le> weight W R D Ns a + wire_weight S (a_heard b)"
  using assms(1)
proof (cases rule: abs_step.cases)
  case (node n r i ts hs h s Q)
  then have n: "n \<in> Ns" and nh: "no_heavier W R S D (r, i, ts)" using assms(4,5) by (auto intro: ranI)
  show ?thesis
    using act_weight [OF node(3) assms(2) nh] n node(1)
      sum_fun_upd [OF assms(3), of "\<lambda>_. hand_weight W" "a_hand a" n h]
      sum_fun_upd [OF assms(3), of "\<lambda>_. wire_weight R" "a_sent a" n s]
    by (simp add: weight_def)
qed simp

subsection \<open>What may be in a queue\<close>

text \<open>\<open>P\<close> tells which packets a queue may hold, \<open>S\<close> which packets may be received.\<close>

definition passes :: "(qid \<Rightarrow> byte list \<Rightarrow> bool) \<Rightarrow> (byte list \<Rightarrow> bool) \<Rightarrow> role \<times> qid option \<times> qid list \<Rightarrow> bool" where
  "passes P S g =
     (case g of (r, i, ts) \<Rightarrow>
       (case r of
          Source \<Rightarrow> \<forall>p. S p \<longrightarrow> (\<forall>t \<in> set ts. P t p)
        | Transform f \<Rightarrow> \<forall>q p p'. i = Some q \<longrightarrow> P q p \<longrightarrow> f p = Some p' \<longrightarrow> (\<forall>t \<in> set ts. P t p')
        | Spread \<Rightarrow> \<forall>q p. i = Some q \<longrightarrow> P q p \<longrightarrow> (\<forall>t \<in> set ts. P t p)
        | Sink \<Rightarrow> True))"

definition holds_only :: "(qid \<Rightarrow> byte list \<Rightarrow> bool) \<Rightarrow> net \<Rightarrow> bool" where
  "holds_only P a \<longleftrightarrow> (\<forall>q. \<forall>p \<in> set (a_queue a q). P q p) \<and> (\<forall>n. \<forall>(t, p) \<in> set (a_hand a n). P t p)"

lemma act_passes:
  assumes "act r i ts (h, s, Q) hs (h', s', Q')" "passes P S (r, i, ts)" "\<forall>p \<in> set hs. S p"
    and Q: "\<forall>q. \<forall>p \<in> set (Q q). P q p" and h: "\<forall>(t, p) \<in> set h. P t p"
  shows "(\<forall>q. \<forall>p \<in> set (Q' q). P q p) \<and> (\<forall>(t, p) \<in> set h'. P t p)"
  using assms(1)
proof (cases rule: act.cases)
  case (treat q p ps f)
  have "P q p" "\<forall>p \<in> set ps. P q p" using Q treat by (metis list.set_intros)+
  moreover from this(1) have "f p = Some p' \<Longrightarrow> t \<in> set ts \<Longrightarrow> P t p'" for p' t
    using treat assms(2) by (simp add: passes_def)
  ultimately show ?thesis using treat Q by (auto split: option.splits)
next
  case (deal q p ps t)
  have "P q p" "\<forall>p \<in> set ps. P q p" using Q deal by (metis list.set_intros)+
  moreover from this(1) have "P t p" using deal assms(2) by (simp add: passes_def)
  ultimately show ?thesis using deal Q by auto
next
  case (drop q p ps)
  have "\<forall>p \<in> set ps. P q p" using Q drop by (metis list.set_intros(2))
  then show ?thesis using drop Q by auto
next
  case (transmit q p ps)
  have "\<forall>p \<in> set ps. P q p" using Q transmit by (metis list.set_intros(2))
  then show ?thesis using transmit Q by auto
next
  case (receive p)
  then show ?thesis using Q assms(2,3) by (auto simp: passes_def)
next
  case (put t p)
  then show ?thesis using Q h by auto
qed (use Q in auto)

lemma step_holds_only:
  assumes "abs_step G a b" "\<forall>g \<in> ran G. passes P S g" "\<forall>p \<in> set (a_heard b). S p" "holds_only P a"
  shows "holds_only P b"
  using assms(1)
proof (cases rule: abs_step.cases)
  case (node n r i ts hs h s Q)
  have "passes P S (r, i, ts)" using assms(2) node(2) by (auto intro: ranI)
  moreover have "\<forall>p \<in> set hs. S p" using assms(3) node(1) by simp
  ultimately have "(\<forall>q. \<forall>p \<in> set (Q q). P q p) \<and> (\<forall>(t, p) \<in> set h. P t p)"
    using act_passes [OF node(3), of P S] assms(4) by (simp add: holds_only_def)
  then show ?thesis using assms(4) node(1) by (simp add: holds_only_def)
qed (use assms(4) in simp)

subsection \<open>All runs\<close>

text \<open>
  A network in which every node passes on only what the next queue may hold, and may hold only what its
  consumer can treat; \<open>sound\<close> is the invariant of its runs.
\<close>

definition well_typed :: "(qid \<Rightarrow> byte list \<Rightarrow> bool) \<Rightarrow> (byte list \<Rightarrow> bool) \<Rightarrow> (nid \<Rightarrow> 'c Node option) \<Rightarrow> (nid \<Rightarrow> vars) \<Rightarrow> bool" where
  "well_typed P S N vs \<longleftrightarrow> (\<forall>n node. N n = Some node \<longrightarrow>
     passes P S (role (vs n), n_input node, targets node) \<and>
     (\<forall>q p. n_input node = Some q \<longrightarrow> P q p \<longrightarrow> harmless (vs n) p))"

definition hears :: "(byte list \<Rightarrow> bool) \<Rightarrow> event \<Rightarrow> bool" where
  "hears S e = (case ev_recv e of Recv_error errno \<Rightarrow> True | Frame data \<Rightarrow> S (take ETHERNET_FRAME_LENGTH data))"

definition sound :: "(qid \<Rightarrow> byte list \<Rightarrow> bool) \<Rightarrow> (byte list \<Rightarrow> bool) \<Rightarrow> qid set \<Rightarrow> (nid \<Rightarrow> 'c Node option) \<Rightarrow> conf \<Rightarrow> conf \<Rightarrow> bool" where
  "sound P S D N c0 c \<longleftrightarrow> conf_fits D N c \<and> holds_only P (abstract N c) \<and> (\<forall>p \<in> set (c_sniffed c). S p) \<and>
     graph N (c_vars c) = graph N (c_vars c0) \<and> (\<forall>n. harmless (c_vars c n) = harmless (c_vars c0 n)) \<and>
     abs_runs (graph N (c_vars c0)) (abstract N c0) (abstract N c)"

lemma sound_step:
  assumes "step N (hears S) c c'" "sound P S D N c0 c" "well_typed P S N (c_vars c0)"
  shows "sound P S D N c0 c'"
proof -
  have s: "conf_fits D N c" "holds_only P (abstract N c)" "\<forall>p \<in> set (c_sniffed c). S p" "graph N (c_vars c) = graph N (c_vars c0)"
    "\<And>n. harmless (c_vars c n) = harmless (c_vars c0 n)" "abs_runs (graph N (c_vars c0)) (abstract N c0) (abstract N c)"
    using assms(2) by (simp_all add: sound_def)
  have "calm N c"
    using s(2,5) assms(3) by (fastforce simp: calm_def holds_only_def abstract_def well_typed_def)
  from step_refines [OF assms(1) s(1) this] have r: "conf_fits D N c'" "graph N (c_vars c') = graph N (c_vars c)"
    "\<And>n. harmless (c_vars c' n) = harmless (c_vars c n)" "abs_step (graph N (c_vars c)) (abstract N c) (abstract N c')"
    "\<exists>e hs. c_sniffed c' = c_sniffed c @ hs \<and>
       (hs = [] \<or> hears S e \<and> (\<exists>data. ev_recv e = Frame data \<and> hs = [take ETHERNET_FRAME_LENGTH data]))" by blast+
  have h: "\<forall>p \<in> set (c_sniffed c'). S p" using r(5) s(3) by (auto simp: hears_def)
  have "\<forall>g \<in> ran (graph N (c_vars c0)). passes P S g"
    using assms(3) by (auto simp: graph_def ran_def well_typed_def)
  then have "holds_only P (abstract N c')"
    using step_holds_only [OF r(4) _ _ s(2), of S] s(4) h by (simp add: abstract_def)
  then show ?thesis
    using r s h by (auto simp: sound_def intro: abs_runs.more)
qed

lemma runs_sound:
  assumes "runs N (hears S) c c'" "conf_fits D N c" "holds_only P (abstract N c)" "\<forall>p \<in> set (c_sniffed c). S p"
    and "well_typed P S N (c_vars c)"
  shows "sound P S D N c c'"
  using assms(1)
proof (rule runs_invariant)
  show "sound P S D N c c" using assms by (simp add: sound_def abs_runs.none)
qed (use assms(5) sound_step in blast)

lemma runs_weight:
  assumes "abs_runs G a b" "finite D" "finite Ns" "dom G \<subseteq> Ns" "\<forall>g \<in> ran G. no_heavier W R S D g"
  shows "weight W R D Ns b + wire_weight S (a_heard a) \<le> weight W R D Ns a + wire_weight S (a_heard b)"
  using assms(1)
proof (induction rule: abs_runs.induct)
  case (more a b c)
  then show ?case using weight_step [OF more(2) assms(2-5)] by simp
qed simp

lemma runs_mono: "runs N E c c' \<Longrightarrow> (\<And>e. E e \<Longrightarrow> E' e) \<Longrightarrow> runs N E' c c'"
proof (induction rule: runs.induct)
  case (more c c' c'')
  from more(2) have "step N E' c' c''" using more(4) by cases (auto intro: step.intros)
  then show ?case using more by (blast intro: runs.more)
qed (rule runs.none)

subsection \<open>Starving\<close>

text \<open>
  Threads that wait for packets from each other or from threads that have left their loops.
  \<open>steady\<close> excludes that the wait on a condition fails, which it does only when misused.
\<close>

definition steady :: "(byte list \<Rightarrow> bool) \<Rightarrow> event \<Rightarrow> bool" where
  "steady S e \<longleftrightarrow> hears S e \<and> (\<forall>rc \<in> set (ev_waits e). rc = 0)"

definition starved :: "(nid \<Rightarrow> 'c Node option) \<Rightarrow> nid set \<Rightarrow> conf \<Rightarrow> bool" where
  "starved N X c \<longleftrightarrow> (\<forall>n \<in> X. \<exists>node q. N n = Some node \<and> n_input node = Some q \<and> c_pc c n = Turn \<and>
     role (c_vars c n) \<noteq> Source \<and> (role (c_vars c n) = Spread \<longrightarrow> n_output_count node \<noteq> 0) \<and>
     packets (c_world c) q = [] \<and>
     (\<forall>m node'. N m = Some node' \<longrightarrow> q \<in> set (targets node') \<longrightarrow> m \<in> X \<or> c_pc c m = Left))"

lemma waits_blocked:
  assumes "world_fits D w" "n_input node = Some q" "q \<in> D" "packets w q = []" "\<forall>rc \<in> set (ev_waits e). rc = 0"
    and "role v \<noteq> Source" "role v = Spread \<longrightarrow> n_output_count node \<noteq> 0"
  shows "take_turn node v e w = Taken_blocked"
proof -
  obtain Q where Q: "w_queues w q = Some Q" "queue_inv Q" "content Q = []"
    using assms(1,3,4) by (auto simp: world_fits_def packets_def)
  have pop: "pop Q b (map (\<lambda>rc. (rc, Q)) (ev_waits e)) = Pop_blocked" for b
    using pop_waits [OF Q(2,3), of b "ev_waits e"] assms(5) by auto
  have c: "consumer_take se handle node l (ev_waits e) w = Taken_blocked" for se handle and l :: "'x \<times> byte list"
    using assms(2) Q(1) pop by (simp add: consumer_take_def)
  show ?thesis
    using assms(2,6,7) Q(1) pop
    by (cases v) (simp_all add: take_turn_def c dispatcher_take_def sender_take_def sender_body_def role_def)
qed

lemma act_starves:
  assumes "act r i ts (h, s, Q) hs (h', s', Q')" "Q q = []" "\<forall>(t, p) \<in> set h. t \<noteq> q"
  shows "Q' q = []"
  using assms by (cases rule: act.cases) auto

lemma starved_step:
  assumes "step N (steady S) c c'" "conf_fits D N c" "calm N c" "starved N X c"
  shows "starved N X c'"
  using assms(1)
proof (cases rule: step.cases)
  case (thread m node e r)
  obtain pc' v' w' where r: "r = (pc', v', w')" by (metis surj_pair)
  have fits: "node_fits D node" "vars_ok node (c_vars c m)" "pc_ok node (c_pc c m)" "world_fits D (c_world c)"
    using assms(2) thread by (simp_all add: conf_fits_def)
  have a: "acted D node (heard (c_pc c m) (c_vars c m) e) (c_pc c m) (c_vars c m) (c_world c) pc' v' w'"
    using thread_step_acts [OF fits(1,4,2,3), of e pc' v' w'] thread assms(3) r by (simp add: calm_def)
  have out: "m \<notin> X"
  proof
    assume "m \<in> X"
    then have "take_turn node (c_vars c m) e (c_world c) = Taken_blocked" "c_pc c m = Turn"
      using assms(4) thread waits_blocked [OF fits(4), of node _ e "c_vars c m"] fits(1)
      by (fastforce simp: starved_def steady_def node_fits_def)+
    then show False using thread by simp
  qed
  have left: "c_pc c m \<noteq> Left" using thread by auto
  have dest: "\<forall>(t, p) \<in> set (hand node (c_pc c m)). t \<in> set (targets node)"
    using fits(1,3) length_targets [of node] by (cases "c_pc c m") (auto simp: node_fits_def)
  have "packets w' q = []" if "packets (c_world c) q = []" "q \<notin> set (targets node)" for q
    using act_starves [OF a [unfolded acted_def, THEN conjunct2, THEN conjunct2, THEN conjunct2, THEN conjunct2, THEN conjunct2]]
      that dest by fastforce
  note keep = this
  show ?thesis
    unfolding starved_def
  proof
    fix n assume "n \<in> X"
    then obtain nd q where n: "N n = Some nd" "n_input nd = Some q" "c_pc c n = Turn" "role (c_vars c n) \<noteq> Source"
      "role (c_vars c n) = Spread \<longrightarrow> n_output_count nd \<noteq> 0" "packets (c_world c) q = []"
      "\<forall>m node'. N m = Some node' \<longrightarrow> q \<in> set (targets node') \<longrightarrow> m \<in> X \<or> c_pc c m = Left" "n \<noteq> m"
      using assms(4) out unfolding starved_def by blast
    have "q \<notin> set (targets node)" using n(7) thread(2) out left by blast
    then show "\<exists>node q. N n = Some node \<and> n_input node = Some q \<and> c_pc c' n = Turn \<and>
       role (c_vars c' n) \<noteq> Source \<and> (role (c_vars c' n) = Spread \<longrightarrow> n_output_count node \<noteq> 0) \<and>
       packets (c_world c') q = [] \<and>
       (\<forall>m node'. N m = Some node' \<longrightarrow> q \<in> set (targets node') \<longrightarrow> m \<in> X \<or> c_pc c' m = Left)"
      using n keep [OF n(6)] thread r left by (intro exI [of _ nd] exI [of _ q]) (auto simp: moved_def)
  qed
next
  case signal
  then show ?thesis using assms(4) by (simp add: starved_def signalled_def packets_def)
qed

lemma starved_for_ever:
  assumes "runs N (steady S) c c'" "sound P S D N c0 c" "well_typed P S N (c_vars c0)" "starved N X c"
  shows "starved N X c'"
proof -
  have "sound P S D N c0 c' \<and> starved N X c'"
    using assms(1)
  proof (rule runs_invariant)
    show "sound P S D N c0 c \<and> starved N X c" using assms by simp
    fix a b assume a: "sound P S D N c0 a \<and> starved N X a" "step N (steady S) a b"
    have "step N (hears S) a b" using a(2) by cases (auto simp: steady_def intro: step.intros)
    then have "sound P S D N c0 b" using a(1) assms(3) sound_step by blast
    moreover have "conf_fits D N a" "calm N a"
      using a(1) assms(3) by (fastforce simp: sound_def calm_def holds_only_def abstract_def well_typed_def)+
    ultimately show "sound P S D N c0 b \<and> starved N X b" using starved_step a by blast
  qed
  then show ?thesis by blast
qed

subsection \<open>The property of networks\<close>

text \<open>
  C5: Refinement: whatever the order in which its threads take their turns and push, and whenever a
  signal raises the exit flag, a well-typed pipeline does what the abstract network of queues may do.
  Its queues hold only what they may hold, and no thread ever leaves its memory.
\<close>

theorem network_refines:
  assumes "runs N (hears S) c c'" "conf_fits D N c" "holds_only P (abstract N c)" "\<forall>p \<in> set (c_sniffed c). S p"
    and "well_typed P S N (c_vars c)"
  shows "abs_runs (graph N (c_vars c)) (abstract N c) (abstract N c') \<and> holds_only P (abstract N c') \<and>
    (\<forall>n \<in> dom N. c_pc c' n \<noteq> Crashed)"
  using runs_sound [OF assms] by (fastforce simp: sound_def conf_fits_def)

end
