(* ===== verification/Running.thy ===== *)
theory Running
  imports Main_Program Network "HOL-Library.Multiset"
begin

text \<open>
  The running daemon: the threads that \<open>main\<close> has started for the VLAN pipeline, as a network.
  \<open>start_vars\<close> gives the variables with which a node's function enters its loop, \<open>network\<close> the
  nodes that run, \<open>start_conf\<close> the state in which no thread has taken its first turn. The theorems hold for
  all interleavings of the six threads and of signals.
\<close>

subsection \<open>The threads of a pipeline\<close>

text \<open>
  A function that does not find its context returns before its loop, and so does the tagger without
  rules. The two buffers of a tagger are not initialised, \<open>junk\<close> is what is in them.
\<close>

definition start_vars :: "byte list \<times> byte list \<Rightarrow> Context Node \<Rightarrow> vars option" where
  "start_vars junk node =
     (let buffer = replicate ETHERNET_FRAME_LENGTH 0 in
      case (n_process node, n_context node) of
        (Sniffer_process, Some (Socket_context ctx)) \<Rightarrow> Some (V_sniffer (thread0 ctx))
      | (Sender_process, Some (Socket_context ctx)) \<Rightarrow> Some (V_sender (thread0 ctx))
      | (Tagger_process, Some (Tagger_context ctx)) \<Rightarrow>
          (if tc_size ctx \<le> 0 then None else Some (V_tagger ((ctx, fst junk), snd junk)))
      | (Ip_modifier_process, Some (Ip_modifier_context ctx)) \<Rightarrow> Some (V_ip_modifier (ctx, buffer))
      | (Packet_counter_process, Some (Counter_context ctx)) \<Rightarrow> Some (V_counter (ctx, buffer))
      | (Logger_process, Some (Logger_context ctx)) \<Rightarrow> Some (V_logger (ctx, buffer))
      | (Dispatcher_process, Some (Dispatcher_context ctx)) \<Rightarrow> Some (V_dispatcher (ctx, buffer))
      | (Collector_process, _) \<Rightarrow> Some (V_collector ((), buffer))
      | _ \<Rightarrow> None)"

definition network :: "Sys \<Rightarrow> nid \<Rightarrow> Context Node option" where
  "network s n = (if n \<in> set (p_nodes (s_pipeline s)) \<and> n_thread (the_node s n) then s_nodes s n else None)"

definition start_conf :: "byte list \<times> byte list \<Rightarrow> Sys \<Rightarrow> conf" where
  "start_conf junk s =
     \<lparr>c_world = s_world s, c_pc = (\<lambda>n. Loop), c_vars = (\<lambda>n. the (start_vars junk (the_node s n))), c_sniffed = []\<rparr>"

subsection \<open>The VLAN pipeline\<close>

text \<open>The daemon's pipeline with its threads started, and the names of its parts.\<close>

definition vlan_running :: "kernel \<Rightarrow> kernel \<Rightarrow> tag_rules_t \<Rightarrow> nid list \<Rightarrow> qid list \<Rightarrow> byte list \<times> byte list \<Rightarrow> Sys \<Rightarrow> bool" where
  "vlan_running k_src k_dst rs ns qs junk s \<longleftrightarrow>
     building s \<and> vlan_graph k_src k_dst rs ns qs (topology s) \<and> (\<forall>n \<in> set ns. n_thread (the_node s n)) \<and>
     0 < rules_size rs \<and> length (fst junk) = 1522 \<and> length (snd junk) = 1522"

definition part :: "Sys \<Rightarrow> byte list \<times> byte list \<Rightarrow> nid \<Rightarrow> qid option \<Rightarrow> qid list \<Rightarrow> vars \<Rightarrow> bool" where
  "part s junk n i ts v \<longleftrightarrow> network s n = Some (the_node s n) \<and> n_input (the_node s n) = i \<and> targets (the_node s n) = ts \<and>
     n_should_exit (the_node s n) \<and> start_vars junk (the_node s n) = Some v"

lemma vlan_parts:
  assumes "vlan_running ks kd rs ns qs junk s"
  obtains sn t1 t2 cn se d q0 q1 q2 q3 q4 where
    "ns = [sn, t1, t2, cn, se, d]" "qs = [q0, q1, q2, q3, q4]" "distinct [sn, t1, t2, cn, se, d]" "distinct [q0, q1, q2, q3, q4]"
    "dom (network s) = {sn, t1, t2, cn, se, d}"
    "part s junk sn None [q0] (V_sniffer (thread0 (bound_to ks)))"
    "part s junk t1 (Some q1) [q3] (V_tagger ((tagger_context rs, fst junk), snd junk))"
    "part s junk t2 (Some q2) [q3] (V_tagger ((tagger_context rs, fst junk), snd junk))"
    "part s junk cn (Some q3) [q4] (V_counter (no_packets 10, replicate ETHERNET_FRAME_LENGTH 0))"
    "part s junk se (Some q4) [] (V_sender (thread0 (bound_to kd)))"
    "part s junk d (Some q0) [q1, q2] (V_dispatcher (\<lparr>strategy = DISPATCH_ROUND_ROBIN, next_index = 0, packets_sent = 0\<rparr>,
       replicate ETHERNET_FRAME_LENGTH 0))"
proof -
  have g: "vlan_graph ks kd rs ns qs (topology s)" and b: "building s" using assms by (simp_all add: vlan_running_def)
  have "length ns = 6" "length qs = 5" using g by (simp_all add: vlan_graph_def)
  then obtain sn t1 t2 cn se d q0 q1 q2 q3 q4 where l: "ns = [sn, t1, t2, cn, se, d]" "qs = [q0, q1, q2, q3, q4]"
    by (auto simp: numeral_eq_Suc length_Suc_conv)
  have p: "p_nodes (s_pipeline s) = ns" using g by (simp add: vlan_graph_def)
  then have dom: "set ns \<subseteq> dom (s_nodes s)" using b by (auto simp: building_def sys_inv_def)
  have n: "network s n = Some (the_node s n)" if "n \<in> set ns" for n
    using that p assms dom the_node [of n s] by (auto simp: network_def vlan_running_def)
  have "network s n = None" if "n \<notin> set ns" for n using that p by (simp add: network_def)
  then have "n \<in> dom (network s) \<longleftrightarrow> n \<in> set ns" for n using n [of n] by (cases "n \<in> set ns") auto
  then have dn: "dom (network s) = {sn, t1, t2, cn, se, d}" unfolding l(1) list.set by blast
  have k: "t_kind (topology s) n = Some (core (the_node s n))" "t_input (topology s) n = n_input (the_node s n)"
    "t_targets (topology s) n = targets (the_node s n)" if "n \<in> set ns" for n
    using subsetD [OF dom that] by simp_all
  have m: "map (t_input (topology s)) ns = map (\<lambda>n. n_input (the_node s n)) ns"
    "map (t_targets (topology s)) ns = map (\<lambda>n. targets (the_node s n)) ns"
    "map (\<lambda>n. map_option snd (t_kind (topology s) n)) ns = map (\<lambda>n. Some (snd (core (the_node s n)))) ns"
    by (rule map_cong [OF refl], simp add: k)+
  have "map (\<lambda>n. n_input (the_node s n)) ns = [None, Some q1, Some q2, Some q3, Some q4, Some q0]"
    using g l(2) m(1) by (simp add: vlan_graph_def)
  then have i: "n_input (the_node s sn) = None" "n_input (the_node s t1) = Some q1" "n_input (the_node s t2) = Some q2"
    "n_input (the_node s cn) = Some q3" "n_input (the_node s se) = Some q4" "n_input (the_node s d) = Some q0"
    by (simp_all add: l(1))
  have "map (\<lambda>n. targets (the_node s n)) ns = [[q0], [q3], [q3], [q4], [], [q1, q2]]"
    using g l(2) m(2) by (simp add: vlan_graph_def)
  then have ta: "targets (the_node s sn) = [q0]" "targets (the_node s t1) = [q3]" "targets (the_node s t2) = [q3]"
    "targets (the_node s cn) = [q4]" "targets (the_node s se) = []" "targets (the_node s d) = [q1, q2]"
    by (simp_all add: l(1))
  have "map (\<lambda>n. Some (snd (core (the_node s n)))) ns = vlan_kinds ks kd rs"
    using g m(3) by (simp add: vlan_graph_def)
  then have c: "snd (core (the_node s n)) = the (vlan_kinds ks kd rs ! j)" if "j < 6" "ns ! j = n" for j n
    using that \<open>length ns = 6\<close> by (metis (no_types, lifting) nth_map option.sel)
  have tc: "\<not> tc_size (tagger_context rs) \<le> 0" using assms by (simp add: vlan_running_def tagger_context_def)
  have di: "distinct [sn, t1, t2, cn, se, d]" "distinct [q0, q1, q2, q3, q4]" using g l by (simp_all add: vlan_graph_def)
  show ?thesis
  proof (rule that [OF l di dn])
    show "part s junk sn None [q0] (V_sniffer (thread0 (bound_to ks)))"
      using c [of 0 sn] n [of sn] i ta l(1) by (simp add: part_def vlan_kinds_def core_def start_vars_def)
    show "part s junk t1 (Some q1) [q3] (V_tagger ((tagger_context rs, fst junk), snd junk))"
      using c [of 1 t1] n [of t1] i ta l(1) tc by (simp add: part_def vlan_kinds_def core_def start_vars_def)
    show "part s junk t2 (Some q2) [q3] (V_tagger ((tagger_context rs, fst junk), snd junk))"
      using c [of 2 t2] n [of t2] i ta l(1) tc by (simp add: part_def vlan_kinds_def core_def start_vars_def)
    show "part s junk cn (Some q3) [q4] (V_counter (no_packets 10, replicate ETHERNET_FRAME_LENGTH 0))"
      using c [of 3 cn] n [of cn] i ta l(1) by (simp add: part_def vlan_kinds_def core_def start_vars_def numeral_eq_Suc)
    show "part s junk se (Some q4) [] (V_sender (thread0 (bound_to kd)))"
      using c [of 4 se] n [of se] i ta l(1) by (simp add: part_def vlan_kinds_def core_def start_vars_def numeral_eq_Suc)
    show "part s junk d (Some q0) [q1, q2] (V_dispatcher (\<lparr>strategy = DISPATCH_ROUND_ROBIN, next_index = 0, packets_sent = 0\<rparr>,
       replicate ETHERNET_FRAME_LENGTH 0))"
      using c [of 5 d] n [of d] i ta l(1) by (simp add: part_def vlan_kinds_def core_def start_vars_def numeral_eq_Suc)
  qed
qed

text \<open>The first state is sound: the queues before the taggers may hold frames of up to 1518 bytes.\<close>

abbreviation short :: "byte list \<Rightarrow> bool" where
  "short p \<equiv> length p \<le> 1518"

definition before_tagging :: "qid list \<Rightarrow> qid \<Rightarrow> byte list \<Rightarrow> bool" where
  "before_tagging qs q p \<longleftrightarrow> q \<in> set (take 3 qs) \<longrightarrow> short p"

abbreviation all_queues :: "Sys \<Rightarrow> qid set" where
  "all_queues s \<equiv> dom (w_queues (s_world s))"

lemma network_node_fits:
  assumes "building s" "network s n = Some node"
  shows "node_fits (all_queues s) node"
proof -
  have "s_nodes s n = Some node" using assms(2) by (simp add: network_def split: if_splits)
  then have "node_ok (set (p_queues (s_pipeline s))) (n \<in> set (p_nodes (s_pipeline s))) node"
    and "set (p_queues (s_pipeline s)) \<subseteq> all_queues s"
    using assms(1) by (simp_all add: building_def sys_inv_def)
  then show ?thesis by (fastforce simp: node_ok_def node_fits_def)
qed

lemma network_the_node: "network s n = Some node \<Longrightarrow> the_node s n = node"
  by (simp add: network_def the_node_def split: if_splits)

lemma vlan_start:
  assumes "vlan_running ks kd rs ns qs junk s"
  shows "conf_fits (all_queues s) (network s) (start_conf junk s)" "holds_only (before_tagging qs) (abstract (network s) (start_conf junk s))"
    "well_typed (before_tagging qs) short (network s) (c_vars (start_conf junk s))"
proof -
  obtain sn t1 t2 cn se d q0 q1 q2 q3 q4 where v:
    "ns = [sn, t1, t2, cn, se, d]" "qs = [q0, q1, q2, q3, q4]" "distinct [sn, t1, t2, cn, se, d]" "distinct [q0, q1, q2, q3, q4]"
    "dom (network s) = {sn, t1, t2, cn, se, d}"
    "part s junk sn None [q0] (V_sniffer (thread0 (bound_to ks)))"
    "part s junk t1 (Some q1) [q3] (V_tagger ((tagger_context rs, fst junk), snd junk))"
    "part s junk t2 (Some q2) [q3] (V_tagger ((tagger_context rs, fst junk), snd junk))"
    "part s junk cn (Some q3) [q4] (V_counter (no_packets 10, replicate ETHERNET_FRAME_LENGTH 0))"
    "part s junk se (Some q4) [] (V_sender (thread0 (bound_to kd)))"
    "part s junk d (Some q0) [q1, q2] (V_dispatcher (\<lparr>strategy = DISPATCH_ROUND_ROBIN, next_index = 0, packets_sent = 0\<rparr>,
       replicate ETHERNET_FRAME_LENGTH 0))"
    by (rule vlan_parts [OF assms]) blast
  have b: "building s" "length (fst junk) = 1522" "length (snd junk) = 1522" using assms by (simp_all add: vlan_running_def)
  have c: "(network s n = Some node) \<longleftrightarrow> n \<in> {sn, t1, t2, cn, se, d} \<and> node = the_node s n" for n node
    using network_the_node [of s n] unfolding v(5) [symmetric] by auto
  have "vars_ok (the_node s n) (c_vars (start_conf junk s) n)" if "n \<in> {sn, t1, t2, cn, se, d}" for n
    using that v(6-11) b(2,3)
    by (auto simp: part_def start_conf_def vars_ok_def MAX_PKG_SIZE_def ETHERNET_FRAME_LENGTH_def no_packets_def next_ok_def)
  then show "conf_fits (all_queues s) (network s) (start_conf junk s)"
    using c network_node_fits [OF b(1)] b(1)
    by (auto simp: conf_fits_def world_fits_def building_def sys_inv_def start_conf_def)
  have e: "\<forall>q \<in> set qs. packets (s_world s) q = []"
    using assms by (simp add: vlan_running_def building_def vlan_graph_def)
  have "p \<in> set (packets (s_world s) q) \<Longrightarrow> q \<notin> set (take 3 qs)" for p q
    using e in_set_takeD [of q 3 qs] by fastforce
  then show "holds_only (before_tagging qs) (abstract (network s) (start_conf junk s))"
    by (auto simp: holds_only_def abstract_def before_tagging_def start_conf_def split: option.split)
  show "well_typed (before_tagging qs) short (network s) (c_vars (start_conf junk s))"
    using v(2,4,6-11)
    by (auto simp: well_typed_def c part_def start_conf_def role_def passes_def before_tagging_def)
qed

subsection \<open>What gets out\<close>

text \<open>Where a packet can still become, or is, the frame \<open>x\<close> of the wire.\<close>

definition becomes :: "TaggerContext \<Rightarrow> byte list \<Rightarrow> byte list \<Rightarrow> nat" where
  "becomes ctx x p = (if tagger_out ctx p = Some x then 1 else 0)"

definition is_frame :: "byte list \<Rightarrow> byte list \<Rightarrow> nat" where
  "is_frame x p = (if p = x then 1 else 0)"

definition on_its_way :: "qid list \<Rightarrow> TaggerContext \<Rightarrow> byte list \<Rightarrow> qid \<Rightarrow> byte list \<Rightarrow> nat" where
  "on_its_way qs ctx x q = (if q \<in> set (take 3 qs) then becomes ctx x else if q \<in> set qs then is_frame x else (\<lambda>p. 0))"

definition too_long :: "byte list \<Rightarrow> nat" where
  "too_long p = (if 1518 \<le> length p then 1 else 0)"

lemma weigh_count:
  "wire_weight (is_frame x) ps = Multiset.count (mset ps) x"
  "wire_weight (becomes ctx x) ps = Multiset.count (mset (List.map_filter (tagger_out ctx) ps)) x"
  by (induction ps) (auto simp: wire_weight_def is_frame_def becomes_def map_filter_simps split: option.split)

lemma weigh_long: "wire_weight too_long ps = 0 \<longleftrightarrow> (\<forall>p \<in> set ps. length p < 1518)"
  by (induction ps) (auto simp: wire_weight_def too_long_def)

lemma vlan_bounds:
  assumes "vlan_running ks kd rs ns qs junk s"
  shows "\<forall>g \<in> ran (graph (network s) (c_vars (start_conf junk s))).
      no_heavier (on_its_way qs (tagger_context rs) x) (is_frame x) (becomes (tagger_context rs) x) (set qs) g"
    and "\<forall>g \<in> ran (graph (network s) (c_vars (start_conf junk s))). no_heavier (\<lambda>q p. 0) too_long (\<lambda>p. 0) (set qs) g"
    and "finite (dom (network s))"
    and "weight W R (set qs) (dom (network s)) (abstract (network s) (start_conf junk s)) = 0"
proof -
  obtain sn t1 t2 cn se d q0 q1 q2 q3 q4 where v:
    "ns = [sn, t1, t2, cn, se, d]" "qs = [q0, q1, q2, q3, q4]" "distinct [sn, t1, t2, cn, se, d]" "distinct [q0, q1, q2, q3, q4]"
    "dom (network s) = {sn, t1, t2, cn, se, d}"
    "part s junk sn None [q0] (V_sniffer (thread0 (bound_to ks)))"
    "part s junk t1 (Some q1) [q3] (V_tagger ((tagger_context rs, fst junk), snd junk))"
    "part s junk t2 (Some q2) [q3] (V_tagger ((tagger_context rs, fst junk), snd junk))"
    "part s junk cn (Some q3) [q4] (V_counter (no_packets 10, replicate ETHERNET_FRAME_LENGTH 0))"
    "part s junk se (Some q4) [] (V_sender (thread0 (bound_to kd)))"
    "part s junk d (Some q0) [q1, q2] (V_dispatcher (\<lparr>strategy = DISPATCH_ROUND_ROBIN, next_index = 0, packets_sent = 0\<rparr>,
       replicate ETHERNET_FRAME_LENGTH 0))"
    by (rule vlan_parts [OF assms]) blast
  have r: "graph (network s) (c_vars (start_conf junk s)) n = Some g \<longleftrightarrow>
      n \<in> {sn, t1, t2, cn, se, d} \<and>
      g = (role (the (start_vars junk (the_node s n))), n_input (the_node s n), targets (the_node s n))" for n g
    using network_the_node [of s n] unfolding v(5) [symmetric] by (auto simp: graph_def start_conf_def)
  show "\<forall>g \<in> ran (graph (network s) (c_vars (start_conf junk s))).
      no_heavier (on_its_way qs (tagger_context rs) x) (is_frame x) (becomes (tagger_context rs) x) (set qs) g"
    using v(2,4,6-11) by (auto simp: ran_def r part_def no_heavier_def role_def on_its_way_def becomes_def is_frame_def)
  show "\<forall>g \<in> ran (graph (network s) (c_vars (start_conf junk s))). no_heavier (\<lambda>q p. 0) too_long (\<lambda>p. 0) (set qs) g"
    using v(2,4,6-11) by (auto simp: ran_def r part_def no_heavier_def role_def too_long_def)
  show "finite (dom (network s))" by (simp add: v(5))
  have "\<forall>q \<in> set qs. packets (s_world s) q = []"
    using assms by (simp add: vlan_running_def building_def vlan_graph_def)
  moreover have "sent_by (the (start_vars junk (the_node s n))) = []" if "n \<in> dom (network s)" for n
    using that v(6-11) unfolding v(5) by (auto simp: part_def sent_by_def)
  moreover have "a_hand (abstract (network s) (start_conf junk s)) n = []" for n
    by (simp add: abstract_def start_conf_def split: option.split)
  moreover have "a_sent (abstract (network s) (start_conf junk s)) n = sent_by (the (start_vars junk (the_node s n)))"
    "a_queue (abstract (network s) (start_conf junk s)) = packets (s_world s)" for n
    by (simp_all add: abstract_def start_conf_def)
  ultimately show "weight W R (set qs) (dom (network s)) (abstract (network s) (start_conf junk s)) = 0"
    by (simp add: weight_def queues_weight_def)
qed

text \<open>What is on the wire weighs no more than what was received.\<close>

lemma wire_bound:
  assumes "vlan_running ks kd rs ns qs junk s" "runs (network s) (hears short) (start_conf junk s) c" "n \<in> dom (network s)"
    and "\<forall>g \<in> ran (graph (network s) (c_vars (start_conf junk s))). no_heavier W R S (set qs) g"
  shows "wire_weight R (sent_by (c_vars c n)) \<le> wire_weight S (c_sniffed c)"
proof -
  note s = vlan_start [OF assms(1)] and b = vlan_bounds(3,4) [OF assms(1)]
  let ?G = "graph (network s) (c_vars (start_conf junk s))" and ?a = "abstract (network s) c"
  have r: "abs_runs ?G (abstract (network s) (start_conf junk s)) ?a"
    using network_refines [OF assms(2) s(1,2) _ s(3)] by (simp add: start_conf_def)
  have d: "dom ?G \<subseteq> dom (network s)" by (auto simp: graph_def)
  have h: "a_heard (abstract (network s) (start_conf junk s)) = []" by (simp add: abstract_def start_conf_def)
  have "weight W R (set qs) (dom (network s)) ?a \<le> wire_weight S (a_heard ?a)"
    using runs_weight [OF r finite_set b(1) d assms(4)] b(2) [of W R] h by simp
  moreover have "wire_weight R (a_sent ?a n) \<le> (\<Sum>m \<in> dom (network s). wire_weight R (a_sent ?a m))"
    by (rule member_le_sum) (use assms(3) b(1) in simp_all)
  ultimately show ?thesis by (simp add: weight_def abstract_def)
qed

lemma vlan_delivers:
  assumes "vlan_running ks kd rs ns qs junk s" "runs (network s) (hears short) (start_conf junk s) c"
  shows "(\<forall>n \<in> set ns. c_pc c n \<noteq> Crashed) \<and>
    mset (sent_by (c_vars c (ns ! 4))) \<subseteq># mset (List.map_filter (tagger_out (tagger_context rs)) (c_sniffed c)) \<and>
    (\<forall>p \<in> set (sent_by (c_vars c (ns ! 4))). length p < 1518)"
proof -
  note s = vlan_start [OF assms(1)] and b = vlan_bounds [OF assms(1)]
  have d: "dom (network s) = set ns" "ns ! 4 \<in> set ns" by (rule vlan_parts [OF assms(1)]; simp)+
  have "\<forall>n \<in> set ns. c_pc c n \<noteq> Crashed"
    using network_refines [OF assms(2) s(1,2) _ s(3)] d(1) by (simp add: start_conf_def)
  moreover have "mset (sent_by (c_vars c (ns ! 4))) \<subseteq># mset (List.map_filter (tagger_out (tagger_context rs)) (c_sniffed c))"
  proof (rule mset_subset_eqI)
    fix x
    show "Multiset.count (mset (sent_by (c_vars c (ns ! 4)))) x \<le>
        Multiset.count (mset (List.map_filter (tagger_out (tagger_context rs)) (c_sniffed c))) x"
      using wire_bound [OF assms _ b(1), of "ns ! 4" x] d by (simp add: weigh_count)
  qed
  moreover have "wire_weight too_long (sent_by (c_vars c (ns ! 4))) = 0"
    using wire_bound [OF assms _ b(2), of "ns ! 4"] d by (simp add: wire_weight_def)
  ultimately show ?thesis by (simp add: weigh_long)
qed

subsection \<open>Shutting down\<close>

lemma loop_unit:
  assumes "runs N E a c" "N n = Some node" "E e" "c_pc c n = Loop"
  shows "runs N E a (c\<lparr>c_pc := (c_pc c)(n := if must_exit node (c_world c) then Left else Turn)\<rparr>)"
proof -
  have "step N E c (moved c n e (if must_exit node (c_world c) then Left else Turn, c_vars c n, c_world c))"
    using step.thread [of N n node E e c] assms(2-4) by simp
  then have "step N E c (c\<lparr>c_pc := (c_pc c)(n := if must_exit node (c_world c) then Left else Turn)\<rparr>)"
    using assms(4) by (simp add: moved_def heard_def)
  with assms(1) show ?thesis by (rule runs.more)
qed

definition quiet_event :: event where
  "quiet_event = \<lparr>ev_waits = [], ev_rand = 0, ev_recv = Frame [], ev_sendto = None\<rparr>"

lemma quiet_event: "steady short quiet_event"
  by (simp add: quiet_event_def steady_def hears_def)

text \<open>The pipeline is idle when a signal arrives: all consumers wait, the sniffer sees the flag.\<close>

lemma vlan_idle_signal:
  assumes "vlan_running ks kd rs ns qs junk s" "\<not> w_exit (s_world s)"
  shows "\<exists>c. runs (network s) (steady short) (start_conf junk s) c \<and> w_exit (c_world c) \<and> c_pc c (hd ns) = Left \<and>
    starved (network s) (set (tl ns)) c"
proof -
  obtain sn t1 t2 cn se d q0 q1 q2 q3 q4 where v:
    "ns = [sn, t1, t2, cn, se, d]" "qs = [q0, q1, q2, q3, q4]" "distinct [sn, t1, t2, cn, se, d]" "distinct [q0, q1, q2, q3, q4]"
    "dom (network s) = {sn, t1, t2, cn, se, d}"
    "part s junk sn None [q0] (V_sniffer (thread0 (bound_to ks)))"
    "part s junk t1 (Some q1) [q3] (V_tagger ((tagger_context rs, fst junk), snd junk))"
    "part s junk t2 (Some q2) [q3] (V_tagger ((tagger_context rs, fst junk), snd junk))"
    "part s junk cn (Some q3) [q4] (V_counter (no_packets 10, replicate ETHERNET_FRAME_LENGTH 0))"
    "part s junk se (Some q4) [] (V_sender (thread0 (bound_to kd)))"
    "part s junk d (Some q0) [q1, q2] (V_dispatcher (\<lparr>strategy = DISPATCH_ROUND_ROBIN, next_index = 0, packets_sent = 0\<rparr>,
       replicate ETHERNET_FRAME_LENGTH 0))"
    by (rule vlan_parts [OF assms(1)]) blast
  let ?N = "network s" and ?R = "runs (network s) (steady short) (start_conf junk s)"
  have N: "?N t1 = Some (the_node s t1)" "?N t2 = Some (the_node s t2)" "?N cn = Some (the_node s cn)"
    "?N se = Some (the_node s se)" "?N d = Some (the_node s d)" "?N sn = Some (the_node s sn)"
    using v(6-11) by (simp_all add: part_def)
  define c1 where "c1 = (start_conf junk s)\<lparr>c_pc := (\<lambda>n. Loop)(t1 := Turn, t2 := Turn, cn := Turn, se := Turn, d := Turn)\<rparr>"
  have x: "\<not> must_exit node (s_world s)" for node :: "Context Node" using assms(2) by (simp add: must_exit_def)
  note u = loop_unit [where E = "steady short" and N = ?N, OF _ _ quiet_event]
  have "?R c1"
    unfolding c1_def
    using u [OF u [OF u [OF u [OF u [OF runs.none N(1)] N(2)] N(3)] N(4)] N(5), of "start_conf junk s"] v(3) x
    by (auto simp: start_conf_def)
  then have "?R (signalled c1)" by (rule runs.more) (rule step.signal)
  from u [OF this N(6)] have "?R ((signalled c1)\<lparr>c_pc := (c_pc c1)(sn := Left)\<rparr>)"
    using v(3,6) by (auto simp: signalled_def c1_def must_exit_def part_def start_conf_def)
  moreover have "w_exit (c_world (signalled c1))" by (simp add: signalled_def)
  moreover have "starved ?N (set (tl ns)) ((signalled c1)\<lparr>c_pc := (c_pc c1)(sn := Left)\<rparr>)"
  proof -
    have e: "\<forall>q \<in> set qs. packets (s_world s) q = []"
      using assms(1) by (simp add: vlan_running_def building_def vlan_graph_def)
    have c: "(network s n = Some node) \<longleftrightarrow> n \<in> {sn, t1, t2, cn, se, d} \<and> node = the_node s n" for n node
      using network_the_node [of s n] unfolding v(5) [symmetric] by auto
    have inv: "node_inv (the_node s d)"
      using network_node_fits [OF _ N(5)] assms(1) by (simp add: vlan_running_def node_fits_def)
    have "n_output_count (the_node s d) = 2" using length_targets [OF inv] v(11) by (simp add: part_def)
    moreover have "packets (c_world (signalled c1)) = packets (s_world s)"
      by (simp add: signalled_def c1_def start_conf_def packets_def fun_eq_iff)
    ultimately show ?thesis
      using v(3,4,6-11) e
      by (auto simp: starved_def c v(1,2) part_def signalled_def c1_def start_conf_def role_def)
  qed
  ultimately show ?thesis using v(1) by (intro exI [of _ "(signalled c1)\<lparr>c_pc := (c_pc c1)(sn := Left)\<rparr>"]) simp
qed

lemma steady_runs: "runs N (steady S) c c' \<Longrightarrow> runs N (hears S) c c'"
  by (erule runs_mono) (simp add: steady_def)

lemma vlan_hangs:
  assumes "vlan_running ks kd rs ns qs junk s" "\<not> w_exit (s_world s)"
  shows "\<exists>c. runs (network s) (steady short) (start_conf junk s) c \<and> w_exit (c_world c) \<and>
    (\<forall>c'. runs (network s) (steady short) c c' \<longrightarrow> (\<forall>n \<in> set (tl ns). c_pc c' n = Turn))"
proof -
  note s = vlan_start [OF assms(1)]
  obtain c where c: "runs (network s) (steady short) (start_conf junk s) c" "w_exit (c_world c)"
    "starved (network s) (set (tl ns)) c"
    using vlan_idle_signal [OF assms] by blast
  have "sound (before_tagging qs) short (all_queues s) (network s) (start_conf junk s) c"
    using runs_sound [OF steady_runs [OF c(1)] s(1,2) _ s(3)] by (simp add: start_conf_def)
  from starved_for_ever [OF _ this s(3) c(3)] have "starved (network s) (set (tl ns)) c'"
    if "runs (network s) (steady short) c c'" for c' using that by blast
  then have "\<forall>c'. runs (network s) (steady short) c c' \<longrightarrow> (\<forall>n \<in> set (tl ns). c_pc c' n = Turn)"
    by (fastforce simp: starved_def)
  with c(1,2) show ?thesis by blast
qed

end
