(* ===== verification/Delivery.thy ===== *)
theory Delivery
  imports Running
begin

text \<open>
  What the running pipeline can do: for every list of frames there is an interleaving in which no
  packet is lost. Each thread takes its turn alone (\<open>turn_runs\<close>), so that what the nodes'
  theories show of one turn can be put together along the path of a frame (\<open>frame_passes\<close>).
\<close>

subsection \<open>One turn of one thread\<close>

definition did_turn :: "nid \<Rightarrow> vars \<Rightarrow> world \<Rightarrow> byte list list \<Rightarrow> conf \<Rightarrow> conf" where
  "did_turn n v w hs c = c\<lparr>c_vars := (c_vars c)(n := v), c_world := w, c_sniffed := c_sniffed c @ hs\<rparr>"

lemma push_all_runs:
  assumes "N n = Some node" "E e" "c_pc c n = Sending b k is"
    and "push_all node b k is (c_vars c n) (c_world c) = Some (v', w')"
  shows "runs N E c (c\<lparr>c_pc := (c_pc c)(n := Loop), c_vars := (c_vars c)(n := v'), c_world := w'\<rparr>)"
  using assms(3,4)
proof (induction "is" arbitrary: c)
  case Nil
  have "step N E c (moved c n e (Loop, c_vars c n, c_world c))"
    using step.thread [of N n node E e c] assms(1,2) Nil(1) by simp
  then have "runs N E c (moved c n e (Loop, c_vars c n, c_world c))" by (rule runs.more [OF runs.none])
  moreover have "moved c n e (Loop, c_vars c n, c_world c) = c\<lparr>c_pc := (c_pc c)(n := Loop), c_vars := (c_vars c)(n := v'), c_world := w'\<rparr>"
    using Nil by (simp add: moved_def heard_def)
  ultimately show ?case by (simp only:)
next
  case (Cons i "is")
  obtain v1 w1 where p: "push_one node (c_vars c n) b k i (c_world c) = Some (v1, w1)" "push_all node b k is v1 w1 = Some (v', w')"
    using Cons.prems(2) by (auto split: option.splits)
  let ?c = "c\<lparr>c_pc := (c_pc c)(n := Sending b k is), c_vars := (c_vars c)(n := v1), c_world := w1\<rparr>"
  have "step N E c (moved c n e (Sending b k is, v1, w1))"
    using step.thread [of N n node E e c] assms(1,2) Cons.prems(1) p(1) by simp
  then have "runs N E c ?c" using Cons.prems(1) by (auto simp: moved_def heard_def intro: runs.intros)
  moreover have "runs N E ?c (?c\<lparr>c_pc := (c_pc ?c)(n := Loop), c_vars := (c_vars ?c)(n := v'), c_world := w'\<rparr>)"
    by (rule Cons.IH) (use p(2) in simp_all)
  ultimately show ?case using runs_trans by fastforce
qed

lemma turn_runs:
  assumes "N n = Some node" "E e" "c_pc c n = Loop" "\<not> must_exit node (c_world c)"
    and "body node (c_vars c n) e (c_world c) = Next v' w'"
  shows "runs N E c (did_turn n v' w' (heard Turn (c_vars c n) e) c)"
proof -
  let ?t = "c\<lparr>c_pc := (c_pc c)(n := Turn)\<rparr>"
  have t: "runs N E c ?t" using loop_unit [of N E c c n node e, OF runs.none assms(1-3)] assms(4) by simp
  show ?thesis
    using assms(5)
  proof (cases rule: body_next)
    case 1
    then have "step N E ?t (moved ?t n e (Loop, v', w'))"
      using step.thread [of N n node E e ?t] assms(1,2) by simp
    moreover have "moved ?t n e (Loop, v', w') = did_turn n v' w' (heard Turn (c_vars c n) e) c"
      using assms(3) by (cases c) (simp add: moved_def did_turn_def fun_upd_idem)
    ultimately show ?thesis using t by (metis runs.more)
  next
    case (2 v1 b k "is" w1)
    then have s: "step N E ?t (moved ?t n e (Sending b k is, v1, w1))"
      using step.thread [of N n node E e ?t] assms(1,2) by simp
    let ?m = "moved ?t n e (Sending b k is, v1, w1)"
    have "runs N E ?m (?m\<lparr>c_pc := (c_pc ?m)(n := Loop), c_vars := (c_vars ?m)(n := v'), c_world := w'\<rparr>)"
      by (rule push_all_runs [of N n node E e _ b k "is"]) (use assms(1,2) 2 in \<open>simp_all add: moved_def\<close>)
    moreover have "?m\<lparr>c_pc := (c_pc ?m)(n := Loop), c_vars := (c_vars ?m)(n := v'), c_world := w'\<rparr> =
        did_turn n v' w' (heard Turn (c_vars c n) e) c"
      using assms(3) by (cases c) (simp add: moved_def did_turn_def fun_upd_idem)
    ultimately show ?thesis using t s by (metis runs.more runs_trans)
  qed
qed

subsection \<open>The path of a frame\<close>

definition fed :: "(nid \<Rightarrow> 'c Node option) \<Rightarrow> nid \<Rightarrow> qid option \<Rightarrow> qid list \<Rightarrow> bool" where
  "fed N n i ts \<longleftrightarrow> (\<exists>node. N n = Some node \<and> node_inv node \<and> n_input node = i \<and> targets node = ts)"

text \<open>The wiring of the VLAN pipeline, over queues \<open>D\<close>: six nodes and five queues, in order.\<close>

definition wires :: "(nid \<Rightarrow> 'c Node option) \<Rightarrow> qid set \<Rightarrow> (nat \<Rightarrow> nid) \<Rightarrow> (nat \<Rightarrow> qid) \<Rightarrow> bool" where
  "wires N D n q \<longleftrightarrow> inj_on n {..<6} \<and> inj_on q {..<5} \<and> q ` {..<5} \<subseteq> D \<and>
     fed N (n 0) None [q 0] \<and> fed N (n 1) (Some (q 1)) [q 3] \<and> fed N (n 2) (Some (q 2)) [q 3] \<and>
     fed N (n 3) (Some (q 3)) [q 4] \<and> fed N (n 4) (Some (q 4)) [] \<and> fed N (n 5) (Some (q 0)) [q 1, q 2]"

text \<open>No thread is in the middle of a turn, and the queues hold \<open>Q\<close>.\<close>

definition holding :: "qid set \<Rightarrow> TaggerContext \<Rightarrow> (nat \<Rightarrow> nid) \<Rightarrow> (nat \<Rightarrow> qid) \<Rightarrow> byte list list \<Rightarrow> byte list list
    \<Rightarrow> (nat \<Rightarrow> byte list list) \<Rightarrow> conf \<Rightarrow> bool" where
  "holding D ctx n q hs ss Q c \<longleftrightarrow>
     (\<forall>m. c_pc c m = Loop) \<and> \<not> w_exit (c_world c) \<and> world_fits D (c_world c) \<and> (\<forall>i < 5. packets (c_world c) (q i) = Q i) \<and>
     c_sniffed c = hs \<and>
     (\<exists>l. c_vars c (n 0) = V_sniffer l \<and> length (st_buffer l) = MAX_PKG_SIZE) \<and>
     (\<forall>j \<in> {1, 2}. \<exists>ob b. c_vars c (n j) = V_tagger ((ctx, ob), b) \<and> length ob = MAX_PKG_SIZE \<and> length b = MAX_PKG_SIZE) \<and>
     (\<exists>x b. c_vars c (n 3) = V_counter (x, b) \<and> (of_int (pc_log_interval x) :: u64) \<noteq> 0 \<and> length b = MAX_PKG_SIZE) \<and>
     (\<exists>l. c_vars c (n 4) = V_sender l \<and> length (st_buffer l) = MAX_PKG_SIZE \<and> st_sent l = ss) \<and>
     (\<exists>x b. c_vars c (n 5) = V_dispatcher (x, b) \<and> strategy x = DISPATCH_ROUND_ROBIN \<and> unat (next_index x) < 2 \<and>
        length b = MAX_PKG_SIZE)"

abbreviation "nothing \<equiv> (\<lambda>i :: nat. [] :: byte list list)"

lemma fedE:
  assumes "fed N n i ts"
  obtains node where "N n = Some node" "node_inv node" "n_input node = i" "targets node = ts"
  using assms unfolding fed_def by blast

lemma index_neq:
  "inj_on f {..<k} \<Longrightarrow> i < k \<Longrightarrow> j < k \<Longrightarrow> f i = f j \<longleftrightarrow> i = j" for f :: "nat \<Rightarrow> nat"
  by (auto simp: inj_on_def)

lemma all_below_5: "(\<forall>i < (5 :: nat). P i) \<longleftrightarrow> P 0 \<and> P 1 \<and> P 2 \<and> P 3 \<and> P 4"
  by (auto simp: numeral_eq_Suc less_Suc_eq)

lemma wiresD:
  assumes "wires N D n q"
  shows "i < 5 \<Longrightarrow> q i \<in> D" "i < 6 \<Longrightarrow> j < 6 \<Longrightarrow> n i = n j \<longleftrightarrow> i = j" "i < 5 \<Longrightarrow> j < 5 \<Longrightarrow> q i = q j \<longleftrightarrow> i = j"
proof -
  show "i < 5 \<Longrightarrow> q i \<in> D" using assms unfolding wires_def by blast
  show "i < 6 \<Longrightarrow> j < 6 \<Longrightarrow> n i = n j \<longleftrightarrow> i = j" "i < 5 \<Longrightarrow> j < 5 \<Longrightarrow> q i = q j \<longleftrightarrow> i = j"
    using assms index_neq [of n 6 i j] index_neq [of q 5 i j] by (simp_all add: wires_def)
qed

lemma holdingD:
  assumes "holding D ctx n q hs ss Q c"
  shows "world_inv (c_world c)" "dom (w_queues (c_world c)) = D" "\<not> w_exit (c_world c)" "c_pc c m = Loop"
    "i < 5 \<Longrightarrow> packets (c_world c) (q i) = Q i"
  using assms by (simp_all add: holding_def world_fits_def)

definition frame_event :: "byte list \<Rightarrow> event" where
  "frame_event p = quiet_event\<lparr>ev_recv := Frame p\<rparr>"

lemma frame_event: "short p \<Longrightarrow> steady short (frame_event p)"
  by (simp add: frame_event_def quiet_event_def steady_def hears_def)

lemma sniffer_turn:
  assumes "world_inv w" "packet_ok p" "targets node = [t]" "t \<in> dom (w_queues w)" "length (packets w t) < Q_SIZE"
    and "length (st_buffer l) = MAX_PKG_SIZE"
  shows "\<exists>l' w'. sniffer_body node l (Frame p) w = Next l' w' \<and> length (st_buffer l') = MAX_PKG_SIZE \<and> world_inv w' \<and>
    w_exit w' = w_exit w \<and> dom (w_queues w') = dom (w_queues w) \<and> packets w' = (packets w)(t := packets w t @ [p])"
proof -
  have p: "take ETHERNET_FRAME_LENGTH p = p" using assms(2) by (simp add: packet_ok_def ETHERNET_FRAME_LENGTH_def MAX_PKG_SIZE_def)
  obtain w' where "node_send_to_outputs node (p @ drop (length p) (st_buffer l)) (of_nat (length p)) w = Some w'" "world_inv w'"
    "w_exit w' = w_exit w" "dom (w_queues w') = dom (w_queues w)"
    "\<forall>u. packets w' u = packets w u @ (if u \<in> set (targets node) then [p] else [])"
    using node_send_distinct [OF assms(1,2), of node "drop (length p) (st_buffer l)"] assms(3-5) by auto
  then show ?thesis
    using assms(2,3,6) p by (auto simp: sniffer_body_def packet_ok_def fun_eq_iff)
qed

lemma frame_sniffed:
  assumes "wires N D n q" "holding D ctx n q hs ss nothing c" "packet_ok p" "short p"
  shows "\<exists>c'. runs N (steady short) c c' \<and> holding D ctx n q (hs @ [p]) ss (nothing(0 := [p])) c'"
proof -
  obtain node where n: "N (n 0) = Some node" "targets node = [q 0]"
    using assms(1) unfolding wires_def by (blast elim: fedE)
  obtain l where l: "c_vars c (n 0) = V_sniffer l" "length (st_buffer l) = MAX_PKG_SIZE"
    using assms(2) unfolding holding_def by blast
  have w: "world_inv (c_world c)" "q 0 \<in> dom (w_queues (c_world c))" "packets (c_world c) (q 0) = []" "\<not> w_exit (c_world c)" "c_pc c (n 0) = Loop"
    using holdingD [OF assms(2)] wiresD(1) [OF assms(1), of 0] by auto
  obtain l' w' where b: "sniffer_body node l (Frame p) (c_world c) = Next l' w'" "length (st_buffer l') = MAX_PKG_SIZE" "world_inv w'"
    "w_exit w' = w_exit (c_world c)" "dom (w_queues w') = dom (w_queues (c_world c))"
    "packets w' = (packets (c_world c))(q 0 := packets (c_world c) (q 0) @ [p])"
    using sniffer_turn [OF w(1) assms(3) n(2) w(2) _ l(2)] w(3) by (auto simp: Q_SIZE_def)
  have "body node (c_vars c (n 0)) (frame_event p) (c_world c) = Next (V_sniffer l') w'"
    using b(1) l(1) by (simp add: body_def frame_event_def)
  then have "runs N (steady short) c (did_turn (n 0) (V_sniffer l') w' (heard Turn (c_vars c (n 0)) (frame_event p)) c)"
    using turn_runs [of N "n 0" node "steady short" "frame_event p"] n(1) frame_event [OF assms(4)] w(4,5)
    by (simp add: must_exit_def)
  moreover have "heard Turn (c_vars c (n 0)) (frame_event p) = [p]"
    using l(1) assms(3) by (simp add: heard_def frame_event_def packet_ok_def ETHERNET_FRAME_LENGTH_def MAX_PKG_SIZE_def)
  ultimately show ?thesis
    using assms(2) b(2-6) w
    by (intro exI [of _ "did_turn (n 0) (V_sniffer l') w' [p] c"]) (simp add: holding_def did_turn_def world_fits_def all_below_5 wiresD(2,3) [OF assms(1)])
qed

text \<open>A turn of a consumer, with nothing received.\<close>

lemma consumer_turn:
  assumes "holding D ctx n q hs ss Q c" "N m = Some node" "role (c_vars c m) \<noteq> Source"
    and "body node (c_vars c m) quiet_event (c_world c) = Next v' w'"
  shows "runs N (steady short) c (did_turn m v' w' [] c)"
proof -
  have "heard Turn (c_vars c m) quiet_event = []"
    using assms(3) by (cases "c_vars c m") (simp_all add: heard_def role_def)
  then show ?thesis
    using turn_runs [of N m node "steady short" quiet_event c v' w'] quiet_event assms(2,4) holdingD [OF assms(1)]
    by (simp add: must_exit_def)
qed

lemma quiet_event_simps [simp]: "ev_waits quiet_event = []" "ev_rand quiet_event = 0" "ev_sendto quiet_event = None"
  by (simp_all add: quiet_event_def)

lemma frame_dealt:
  assumes "wires N D n q" "holding D ctx n q hs ss (nothing(0 := [p])) c"
  shows "\<exists>c' j. j \<in> {1, 2} \<and> runs N (steady short) c c' \<and> holding D ctx n q hs ss (nothing(j := [p])) c'"
proof -
  note d = wiresD(2,3) [OF assms(1)] and h = holdingD [OF assms(2)]
  obtain node where n: "N (n 5) = Some node" "node_inv node" "n_input node = Some (q 0)" "targets node = [q 1, q 2]"
    using assms(1) unfolding wires_def by (blast elim: fedE)
  then have k: "n_output_count node = 2" using length_targets [OF n(2)] by simp
  obtain x b where v: "c_vars c (n 5) = V_dispatcher (x, b)" "strategy x = DISPATCH_ROUND_ROBIN" "unat (next_index x) < 2"
    "length b = MAX_PKG_SIZE"
    using assms(2) unfolding holding_def by blast
  have p: "packets (c_world c) (q 0) = p # []" and e: "packets (c_world c) (q 1) = []" "packets (c_world c) (q 2) = []"
    using h(5) [of 0] h(5) [of 1] h(5) [of 2] by simp_all
  have t: "set (targets node) \<subseteq> dom (w_queues (c_world c))" "q 0 \<notin> set (targets node)"
    "\<forall>t \<in> set (targets node). length (packets (c_world c) t) < Q_SIZE"
    using n(4) h(2) wiresD(1) [OF assms(1)] d e by (simp_all add: Q_SIZE_def)
  have "unat (next_index x) < n_output_count node" using v(3) k by simp
  from dispatcher_step [OF h(1) n(3) p n(2) this v(2,4) t, of 0]
  obtain x' b' w' where s: "dispatcher_body node (x, b) ([], 0) (c_world c) = Next (x', b') w'"
    "strategy x' = DISPATCH_ROUND_ROBIN" "unat (next_index x') = (unat (next_index x) + 1) mod n_output_count node"
    "length b' = MAX_PKG_SIZE" "world_inv w'" "w_exit w' = w_exit (c_world c)" "dom (w_queues w') = dom (w_queues (c_world c))"
    "packets w' (q 0) = []" "\<forall>t. t \<noteq> q 0 \<longrightarrow> packets w' t =
       packets (c_world c) t @ (if t = targets node ! unat (next_index x) then [p] else [])"
    by (elim exE conjE) (rule that)
  have "body node (c_vars c (n 5)) quiet_event (c_world c) = Next (V_dispatcher (x', b')) w'"
    using s(1) v(1) by (simp add: body_def)
  then have "runs N (steady short) c (did_turn (n 5) (V_dispatcher (x', b')) w' [] c)"
    using consumer_turn [of D ctx n q hs ss "nothing(0 := [p])" c N "n 5" node] assms(2) n(1) v(1) by (simp add: role_def)
  moreover have "unat (next_index x) = 0 \<or> unat (next_index x) = 1" using v(3) by linarith
  then have "targets node ! unat (next_index x) = q (Suc (unat (next_index x)))" using n(4) by (auto simp: numeral_2_eq_2)
  then have "holding D ctx n q hs ss (nothing(Suc (unat (next_index x)) := [p])) (did_turn (n 5) (V_dispatcher (x', b')) w' [] c)"
    using assms(2) s(2-9) h v(3) k by (simp add: holding_def did_turn_def world_fits_def all_below_5 d)
  moreover have "Suc (unat (next_index x)) \<in> {1, 2}" using v(3) by auto
  ultimately show ?thesis by blast
qed

definition tagged_frames :: "TaggerContext \<Rightarrow> byte list \<Rightarrow> byte list list" where
  "tagged_frames ctx p = (case tagger_out ctx p of None \<Rightarrow> [] | Some x \<Rightarrow> [x])"

lemma frame_tagged:
  assumes "wires N D n q" "holding D ctx n q hs ss (nothing(j := [p])) c" "j \<in> {1, 2}" "short p"
  shows "\<exists>c'. runs N (steady short) c c' \<and> holding D ctx n q hs ss (nothing(3 := tagged_frames ctx p)) c'"
proof -
  note d = wiresD(2,3) [OF assms(1)] and h = holdingD [OF assms(2)]
  obtain node where n: "N (n j) = Some node" "n_input node = Some (q j)" "targets node = [q 3]"
    using assms(1,3) unfolding wires_def by (blast elim: fedE)
  obtain ob b where v: "c_vars c (n j) = V_tagger ((ctx, ob), b)" "length ob = MAX_PKG_SIZE" "length b = MAX_PKG_SIZE"
    using assms(2,3) unfolding holding_def by blast
  have p: "packets (c_world c) (q j) = p # []" and e: "packets (c_world c) (q 3) = []"
    using h(5) [of j] h(5) [of 3] assms(3) by auto
  have t: "set (targets node) \<subseteq> dom (w_queues (c_world c))" "distinct (targets node)" "q j \<notin> set (targets node)"
    "\<forall>t \<in> set (targets node). length (packets (c_world c) t) < Q_SIZE"
    using n(3) h(2) wiresD(1) [OF assms(1)] d e assms(3) by (auto simp: Q_SIZE_def)
  have "length (snd (ctx, ob)) = MAX_PKG_SIZE" "short p" using v(2) assms(4) by simp_all
  from tagger.body_step [OF h(1) n(2) p this(1) _ v(3) t, of TAGGER] this(2)
  obtain x' b' w' where s: "tagger_body node ((ctx, ob), b) [] (c_world c) = Next (x', b') w'"
    "length (snd x') = MAX_PKG_SIZE" "fst x' = ctx" "length b' = MAX_PKG_SIZE" "world_inv w'" "w_exit w' = w_exit (c_world c)"
    "dom (w_queues w') = dom (w_queues (c_world c))" "packets w' (q j) = []"
    "\<forall>t. t \<noteq> q j \<longrightarrow> packets w' t = packets (c_world c) t @
       (if t \<in> set (targets node) then (case tagger_out ctx p of None \<Rightarrow> [] | Some p' \<Rightarrow> [p']) else [])"
    unfolding tagger_body_def fst_conv by blast
  have "body node (c_vars c (n j)) quiet_event (c_world c) = Next (V_tagger (x', b')) w'"
    using s(1) v(1) by (simp add: body_def)
  then have "runs N (steady short) c (did_turn (n j) (V_tagger (x', b')) w' [] c)"
    using consumer_turn [of D ctx n q hs ss _ c N "n j" node] assms(2) n(1) v(1) by (simp add: role_def)
  moreover have "holding D ctx n q hs ss (nothing(3 := tagged_frames ctx p)) (did_turn (n j) (V_tagger (x', b')) w' [] c)"
    using assms(2,3) s(2-9) n(3) h(3)
    by (cases x') (auto simp add: holding_def did_turn_def world_fits_def all_below_5 tagged_frames_def d)
  ultimately show ?thesis by blast
qed

lemma frame_counted:
  assumes "wires N D n q" "holding D ctx n q hs ss (nothing(3 := [p])) c"
  shows "\<exists>c'. runs N (steady short) c c' \<and> holding D ctx n q hs ss (nothing(4 := [p])) c'"
proof -
  note d = wiresD(2,3) [OF assms(1)] and h = holdingD [OF assms(2)]
  obtain node where n: "N (n 3) = Some node" "n_input node = Some (q 3)" "targets node = [q 4]"
    using assms(1) unfolding wires_def by (blast elim: fedE)
  obtain x b where v: "c_vars c (n 3) = V_counter (x, b)" "(of_int (pc_log_interval x) :: u64) \<noteq> 0" "length b = MAX_PKG_SIZE"
    using assms(2) unfolding holding_def by blast
  have p: "packets (c_world c) (q 3) = p # []" and e: "packets (c_world c) (q 4) = []"
    using h(5) [of 3] h(5) [of 4] by auto
  have t: "set (targets node) \<subseteq> dom (w_queues (c_world c))" "distinct (targets node)" "q 3 \<notin> set (targets node)"
    "\<forall>t \<in> set (targets node). length (packets (c_world c) t) < Q_SIZE"
    using n(3) h(2) wiresD(1) [OF assms(1)] d e by (auto simp: Q_SIZE_def)
  from packet_counter.body_step [OF h(1) n(2) p TrueI v(2,3) t, of INITIATOR]
  obtain x' b' w' where s: "packet_counter_body node (x, b) [] (c_world c) = Next (x', b') w'"
    "x' = Forwarding_Nodes.count x p" "length b' = MAX_PKG_SIZE" "world_inv w'" "w_exit w' = w_exit (c_world c)"
    "dom (w_queues w') = dom (w_queues (c_world c))" "packets w' (q 3) = []"
    "\<forall>t. t \<noteq> q 3 \<longrightarrow> packets w' t = packets (c_world c) t @
       (if t \<in> set (targets node) then (case Some p of None \<Rightarrow> [] | Some p' \<Rightarrow> [p']) else [])"
    unfolding packet_counter_body_def by blast
  have "body node (c_vars c (n 3)) quiet_event (c_world c) = Next (V_counter (x', b')) w'"
    using s(1) v(1) by (simp add: body_def)
  then have "runs N (steady short) c (did_turn (n 3) (V_counter (x', b')) w' [] c)"
    using consumer_turn [of D ctx n q hs ss _ c N "n 3" node] assms(2) n(1) v(1) by (simp add: role_def)
  moreover have "holding D ctx n q hs ss (nothing(4 := [p])) (did_turn (n 3) (V_counter (x', b')) w' [] c)"
    using assms(2) s(2-8) n(3) h(3) v(2)
    by (simp add: holding_def did_turn_def world_fits_def all_below_5 count_simps d)
  ultimately show ?thesis by blast
qed

lemma frame_sent:
  assumes "wires N D n q" "holding D ctx n q hs ss (nothing(4 := [p])) c"
  shows "\<exists>c'. runs N (steady short) c c' \<and> holding D ctx n q hs (ss @ filter (\<lambda>p. length p < 1518) [p]) nothing c'"
proof -
  note d = wiresD(2,3) [OF assms(1)] and h = holdingD [OF assms(2)]
  obtain node where n: "N (n 4) = Some node" "n_input node = Some (q 4)"
    using assms(1) unfolding wires_def by (blast elim: fedE)
  obtain l where v: "c_vars c (n 4) = V_sender l" "length (st_buffer l) = MAX_PKG_SIZE" "st_sent l = ss"
    using assms(2) unfolding holding_def by blast
  have p: "packets (c_world c) (q 4) = p # []" using h(5) [of 4] by auto
  from sender_pop [OF h(1) n(2) p v(2), of None] obtain w1 l1 where s: "world_inv w1" "w_exit w1 = w_exit (c_world c)"
    "dom (w_queues w1) = dom (w_queues (c_world c))" "packets w1 (q 4) = []" "\<forall>t. t \<noteq> q 4 \<longrightarrow> packets w1 t = packets (c_world c) t"
    "l1 = l\<lparr>st_buffer := p @ drop (length p) (st_buffer l)\<rparr>" "length (st_buffer l1) = MAX_PKG_SIZE"
    "sender_body node l ([], None) (c_world c) =
      (if 1518 \<le> length p then Next l1 w1 else Next (l1\<lparr>st_errors := 0, st_sent := st_sent l @ [p]\<rparr>) w1)"
    by auto
  define l' where "l' = (if 1518 \<le> length p then l1 else l1\<lparr>st_errors := 0, st_sent := st_sent l @ [p]\<rparr>)"
  have l': "length (st_buffer l') = MAX_PKG_SIZE" "st_sent l' = ss @ filter (\<lambda>p. length p < 1518) [p]"
    using s(6,7) v(3) by (auto simp: l'_def)
  have "body node (c_vars c (n 4)) quiet_event (c_world c) = Next (V_sender l') w1"
    using s(8) v(1) by (simp add: body_def l'_def)
  then have "runs N (steady short) c (did_turn (n 4) (V_sender l') w1 [] c)"
    using consumer_turn [of D ctx n q hs ss _ c N "n 4" node] assms(2) n(1) v(1) by (simp add: role_def)
  moreover have "holding D ctx n q hs (ss @ filter (\<lambda>p. length p < 1518) [p]) nothing (did_turn (n 4) (V_sender l') w1 [] c)"
    using assms(2) s(1-5) l' h(3)
    by (simp add: holding_def did_turn_def world_fits_def all_below_5 d del: filter.simps)
  ultimately show ?thesis by blast
qed

lemma frame_passes:
  assumes "wires N D n q" "holding D ctx n q hs ss nothing c" "packet_ok p" "short p"
  shows "\<exists>c'. runs N (steady short) c c' \<and>
    holding D ctx n q (hs @ [p]) (ss @ filter (\<lambda>p. length p < 1518) (tagged_frames ctx p)) nothing c'"
proof -
  note w = assms(1)
  obtain c1 where c1: "runs N (steady short) c c1" "holding D ctx n q (hs @ [p]) ss (nothing(0 := [p])) c1"
    using frame_sniffed [OF assms] by blast
  obtain c2 j where c2: "runs N (steady short) c1 c2" "j \<in> {1, 2}" "holding D ctx n q (hs @ [p]) ss (nothing(j := [p])) c2"
    using frame_dealt [OF w c1(2)] by blast
  obtain c3 where c3: "runs N (steady short) c2 c3" "holding D ctx n q (hs @ [p]) ss (nothing(3 := tagged_frames ctx p)) c3"
    using frame_tagged [OF w c2(3,2) assms(4)] by blast
  have r: "runs N (steady short) c c3" using c1(1) c2(1) c3(1) runs_trans by blast
  show ?thesis
  proof (cases "tagger_out ctx p")
    case None
    have "nothing(3 := []) = nothing" by (rule fun_upd_idem) simp
    then have "holding D ctx n q (hs @ [p]) ss nothing c3" using c3(2) None by (simp only: tagged_frames_def option.case)
    then show ?thesis using r None by (auto simp: tagged_frames_def)
  next
    case (Some x)
    then have t: "tagged_frames ctx p = [x]" by (simp add: tagged_frames_def)
    obtain c4 where c4: "runs N (steady short) c3 c4" "holding D ctx n q (hs @ [p]) ss (nothing(4 := [x])) c4"
      using frame_counted [OF w c3(2) [unfolded t]] by blast
    then show ?thesis using frame_sent [OF w c4(2)] r runs_trans unfolding t by blast
  qed
qed

text \<open>Many frames, one after the other.\<close>

lemma frames_pass:
  assumes "wires N D n q" "holding D ctx n q hs ss nothing c" "\<forall>p \<in> set ps. packet_ok p \<and> short p"
  shows "\<exists>c'. runs N (steady short) c c' \<and>
    holding D ctx n q (hs @ ps) (ss @ filter (\<lambda>p. length p < 1518) (List.map_filter (tagger_out ctx) ps)) nothing c'"
  using assms(2,3)
proof (induction ps arbitrary: hs ss c)
  case Nil
  then show ?case using runs.none by (auto simp: map_filter_simps)
next
  case (Cons p ps)
  obtain c1 where c1: "runs N (steady short) c c1"
    "holding D ctx n q (hs @ [p]) (ss @ filter (\<lambda>p. length p < 1518) (tagged_frames ctx p)) nothing c1"
    using frame_passes [OF assms(1) Cons.prems(1)] Cons.prems(2) by auto
  from Cons.IH [OF c1(2)] Cons.prems(2) c1(1) runs_trans show ?case
    by (fastforce simp: map_filter_simps tagged_frames_def split: option.splits)
qed

subsection \<open>The VLAN pipeline passes frames\<close>

lemma part_fed:
  assumes "building s" "part s junk n i ts v"
  shows "fed (network s) n i ts"
  using assms network_node_fits [OF assms(1), of n] by (auto simp: part_def fed_def node_fits_def)

lemma vlan_wires:
  assumes "vlan_running ks kd rs ns qs junk s" "\<not> w_exit (s_world s)"
  shows "wires (network s) (all_queues s) ((!) ns) ((!) qs)"
    and "holding (all_queues s) (tagger_context rs) ((!) ns) ((!) qs) [] [] nothing (start_conf junk s)"
proof -
  obtain sn t1 t2 cn se d q0 q1 q2 q3 q4 where v:
    "ns = [sn, t1, t2, cn, se, d]" "qs = [q0, q1, q2, q3, q4]" "distinct [sn, t1, t2, cn, se, d]" "distinct [q0, q1, q2, q3, q4]"
    "dom (network s) = {sn, t1, t2, cn, se, d}"
    "part s junk sn None [q0] (V_sniffer (thread0 (bound_to ks)))"
    "part s junk t1 (Some q1) [q3] (V_tagger ((tagger_context rs, fst junk), snd junk))"
    "part s junk t2 (Some q2) [q3] (V_tagger ((tagger_context rs, fst junk), snd junk))"
    "part s junk cn (Some q3) [q4] (V_counter (no_packets 10, replicate ETHERNET_FRAME_LENGTH 0))"
    "part s junk se (Some q4) [] (V_sender (thread0 (bound_to kd)))"
    "part s junk d (Some q0) [q1, q2] (V_dispatcher (\<lparr>strategy = DISPATCH_ROUND_ROBIN, next_index = 0, packets_sent = 0\<rparr>,
       replicate ETHERNET_FRAME_LENGTH 0))"
    by (rule vlan_parts [OF assms(1)]) blast
  have b: "building s" "length (fst junk) = 1522" "length (snd junk) = 1522" using assms(1) by (simp_all add: vlan_running_def)
  note f = v(6-11) [THEN part_fed [OF b(1)]]
  have ix: "{..<6 :: nat} = {0, 1, 2, 3, 4, 5}" "{..<5 :: nat} = {0, 1, 2, 3, 4}" by auto
  have "inj_on ((!) ns) {..<6}" "inj_on ((!) qs) {..<5}"
    by (rule inj_on_nth; use v(1-4) in simp)+
  moreover have "(!) qs ` {..<5} \<subseteq> all_queues s"
  proof -
    have "set qs \<subseteq> all_queues s" using assms(1) by (auto simp: vlan_running_def building_def sys_inv_def vlan_graph_def)
    then show ?thesis using v(2) by (auto simp: ix)
  qed
  ultimately show "wires (network s) (all_queues s) ((!) ns) ((!) qs)"
    using f v(1,2) by (simp add: wires_def)
  have "\<forall>q \<in> set qs. packets (s_world s) q = []" "world_fits (all_queues s) (s_world s)"
    using assms(1) by (simp_all add: vlan_running_def building_def sys_inv_def vlan_graph_def world_fits_def)
  then show "holding (all_queues s) (tagger_context rs) ((!) ns) ((!) qs) [] [] nothing (start_conf junk s)"
    using v(1,2,6-11) assms(2) b
    by (simp add: holding_def start_conf_def part_def all_below_5 MAX_PKG_SIZE_def ETHERNET_FRAME_LENGTH_def no_packets_def)
qed

text \<open>For every list of frames there is a run that receives them and sends the tagged ones, in their order.\<close>

lemma vlan_passes:
  assumes "vlan_running ks kd rs ns qs junk s" "\<not> w_exit (s_world s)" "\<forall>p \<in> set ps. 0 < length p \<and> short p"
  shows "\<exists>c. runs (network s) (steady short) (start_conf junk s) c \<and> c_sniffed c = ps \<and>
    sent_by (c_vars c (ns ! 4)) = filter (\<lambda>p. length p < 1518) (List.map_filter (tagger_out (tagger_context rs)) ps)"
proof -
  have "\<forall>p \<in> set ps. packet_ok p \<and> short p" using assms(3) by (auto simp: packet_ok_def MAX_PKG_SIZE_def)
  from frames_pass [OF vlan_wires [OF assms(1,2)] this] obtain c where
    c: "runs (network s) (steady short) (start_conf junk s) c"
    "holding (all_queues s) (tagger_context rs) ((!) ns) ((!) qs) ps
      (filter (\<lambda>p. length p < 1518) (List.map_filter (tagger_out (tagger_context rs)) ps)) nothing c"
    by auto
  then show ?thesis by (intro exI [of _ c]) (auto simp: holding_def sent_by_def)
qed

end
