(* ===== verification/Draining.thy ===== *)
theory Draining
  imports Running
begin

text \<open>
  After the sniffer has left its loop the pipeline drains: the other threads do a bounded amount of work
  before all of them wait or have left. The measure is an energy that every unit of work lowers: a packet
  has the cost of bringing it from its queue to the wire, a thread the cost of getting to its next
  wait. Signals cost nothing, they only raise the flag.
\<close>

subsection \<open>Work\<close>

definition thread_move :: "(nid \<Rightarrow> 'c Node option) \<Rightarrow> (event \<Rightarrow> bool) \<Rightarrow> conf \<Rightarrow> conf \<Rightarrow> bool" where
  "thread_move N E c c' \<longleftrightarrow> (\<exists>n node e r. N n = Some node \<and> E e \<and>
     thread_step node e (c_pc c n) (c_vars c n) (c_world c) = Some r \<and> c' = moved c n e r)"

text \<open>\<open>works N E k c c'\<close>: from \<open>c\<close> to \<open>c'\<close> with \<open>k\<close> units of threads.\<close>

inductive works :: "(nid \<Rightarrow> 'c Node option) \<Rightarrow> (event \<Rightarrow> bool) \<Rightarrow> nat \<Rightarrow> conf \<Rightarrow> conf \<Rightarrow> bool" for N E where
  start: "works N E 0 c c"
| signal: "works N E k c c' \<Longrightarrow> works N E k c (signalled c')"
| unit: "works N E k c c' \<Longrightarrow> thread_move N E c' c'' \<Longrightarrow> works N E (Suc k) c c''"

subsection \<open>Every unit lowers the energy\<close>

definition pc_cost :: "(qid \<Rightarrow> nat) \<Rightarrow> 'c Node \<Rightarrow> pc \<Rightarrow> nat" where
  "pc_cost cost node pc =
     (case pc of
        Loop \<Rightarrow> 2
      | Turn \<Rightarrow> 1
      | Sending b k is \<Rightarrow> 3 + hand_weight (\<lambda>t p. cost t + 1) (hand node pc)
      | _ \<Rightarrow> 0)"

definition costs :: "(qid \<Rightarrow> nat) \<Rightarrow> qid set \<Rightarrow> role \<times> qid option \<times> qid list \<Rightarrow> bool" where
  "costs cost D g =
     (case g of (r, i, ts) \<Rightarrow>
        (\<forall>q. i = Some q \<longrightarrow> q \<in> D \<and> 3 \<le> cost q \<and>
          (case r of
             Transform f \<Rightarrow> 3 + (\<Sum>t\<leftarrow>ts. cost t + 1) \<le> cost q
           | Spread \<Rightarrow> \<forall>t \<in> set ts. 4 + cost t \<le> cost q
           | _ \<Rightarrow> True)))"

text \<open>A turn of a consumer that is not blocked and does not end the loop has taken a packet.\<close>

lemma turn_progress:
  assumes w: "world_fits D w" and n: "node_fits D node" and v: "vars_ok node v" "role v \<noteq> Source"
    and e: "\<forall>rc \<in> set (ev_waits e). rc = 0"
  shows "case take_turn node v e w of
      Taken_next v' w' \<Rightarrow> packets w' \<noteq> packets w
    | Taken_send v' b k is w' \<Rightarrow> packets w' \<noteq> packets w
    | _ \<Rightarrow> True"
proof -
  have i: "world_inv w" "\<forall>q. n_input node = Some q \<longrightarrow> q \<in> dom (w_queues w)"
    using w n by (auto simp: world_fits_def node_fits_def)
  from i show ?thesis
  proof (cases rule: input_queue)
    case none
    then show ?thesis
      using v(2) by (cases v) (simp_all add: take_turn_def consumer_take_def dispatcher_take_def sender_take_def sender_body_def role_def)
  next
    case (empty q Q)
    then have pop: "pop Q b (map (\<lambda>rc. (rc, Q)) (ev_waits e)) = Pop_blocked" for b using pop_waits e by simp
    show ?thesis
      using v(2) empty pop
      by (cases v) (simp_all add: take_turn_def consumer_take_def dispatcher_take_def sender_take_def sender_body_def role_def)
  next
    case (some q Q p ps)
    have pop: "pop Q b (map (\<lambda>rc. (rc, Q)) (ev_waits e)) = Pop_ret (int (length p)) (p @ drop (length p) b) (drop_first Q)"
      if "length b = MAX_PKG_SIZE" for b
      using pop_first [OF some(3)] some(4) that by simp
    have len: "\<not> int (length p) < 1" "\<not> int (length p) < 0" using some(8) by (auto simp: packet_ok_def)
    have ne: "packets w' \<noteq> packets w" if "packets w' q = ps" for w' using that some(5) by auto
    show ?thesis
      using v some(1,2,7) len
      by (cases v)
         (auto simp: take_turn_def consumer_take_def dispatcher_take_def sender_take_def sender_body_def role_def vars_ok_def pop
           Let_def raise_exit_def packets_def split: handled.split option.split prod.split intro!: ne)
  qed
qed

abbreviation queue_cost :: "(qid \<Rightarrow> nat) \<Rightarrow> qid set \<Rightarrow> (qid \<Rightarrow> byte list list) \<Rightarrow> nat" where
  "queue_cost cost \<equiv> queues_weight (\<lambda>t p. cost t)"

lemma pc_cost_simps [simp]:
  "pc_cost cost node Loop = 2" "pc_cost cost node Turn = 1" "pc_cost cost node Left = 0"
  "pc_cost cost node (Sending b k is) = 3 + hand_weight (\<lambda>t p. cost t + 1) (hand node (Sending b k is))"
  by (simp_all add: pc_cost_def)

text \<open>Taking a packet pays for what is then in hand, and for the rest of the turn.\<close>

lemma act_pays:
  assumes "act r i ts ([], s, Q) hs (h', s', Q')" "Q' \<noteq> Q" "costs cost D (r, i, ts)" "finite D"
  shows "queue_cost cost D Q' + 3 + hand_weight (\<lambda>t p. cost t + 1) h' \<le> queue_cost cost D Q"
  using assms(1)
proof (cases rule: act.cases)
  case (treat q p ps f)
  then have "3 + (\<Sum>t\<leftarrow>ts. cost t + 1) \<le> cost q" "q \<in> D" using assms(3) by (simp_all add: costs_def)
  then show ?thesis
    using treat queues_weight_take [of D q Q p ps "\<lambda>t p. cost t"] assms(4) by (cases "f p") simp_all
next
  case (deal q p ps t)
  then have "4 + cost t \<le> cost q" "q \<in> D" using assms(3) by (simp_all add: costs_def)
  then show ?thesis using deal queues_weight_take [of D q Q p ps "\<lambda>t p. cost t"] assms(4) by simp
next
  case (drop q p ps)
  then have "3 \<le> cost q" "q \<in> D" using assms(3) by (simp_all add: costs_def)
  then show ?thesis using drop queues_weight_take [of D q Q p ps "\<lambda>t p. cost t"] assms(4) by simp
next
  case (transmit q p ps)
  then have "3 \<le> cost q" "q \<in> D" using assms(3) by (simp_all add: costs_def)
  then show ?thesis using transmit queues_weight_take [of D q Q p ps "\<lambda>t p. cost t"] assms(4) by simp
qed (use assms(2) in auto)

lemma unit_lowers:
  assumes w: "world_fits D' w" and n: "node_fits D' node" and v: "vars_ok node v" "pc_ok node pc" "role v \<noteq> Source"
    and h: "\<forall>q. n_input node = Some q \<longrightarrow> (\<forall>p \<in> set (packets w q). harmless v p)"
    and e: "\<forall>rc \<in> set (ev_waits e). rc = 0"
    and c: "costs cost D (role v, n_input node, targets node)" "finite D"
    and s: "thread_step node e pc v w = Some (pc', v', w')"
  shows "queue_cost cost D (packets w') + pc_cost cost node pc' < queue_cost cost D (packets w) + pc_cost cost node pc"
proof -
  note a = thread_step_acts [OF n w v(1,2) h s]
  then have act: "act (role v) (n_input node) (targets node) (hand node pc, sent_by v, packets w) (heard pc v e)
      (hand node pc', sent_by v', packets w')" and ok: "pc_ok node pc'"
    by (simp_all add: acted_def)
  show ?thesis
  proof (cases pc)
    case Loop
    then show ?thesis using s by (auto split: if_splits)
  next
    case Turn
    with act have act': "act (role v) (n_input node) (targets node) ([], sent_by v, packets w) (heard pc v e)
      (hand node pc', sent_by v', packets w')" by simp
    show ?thesis
    proof (cases "packets w' = packets w")
      case True
      then show ?thesis using turn_progress [OF w n v(1,3) e] s Turn ok by (auto split: taken.splits)
    next
      case False
      note p = act_pays [OF act' False c]
      from s Turn have "pc' = Left \<or> pc' = Loop \<or> pc' = Crashed \<or> (\<exists>b k is. pc' = Sending b k is)" by (auto split: taken.splits)
      then show ?thesis using p Turn ok by auto
    qed
  next
    case (Sending b k js)
    show ?thesis
    proof (cases js)
      case Nil
      then show ?thesis using s Sending by simp
    next
      case (Cons i "is")
      then have pc': "pc' = Sending b k is" using s Sending ok by (auto split: option.splits)
      have q: "packets w' = (packets w)(targets node ! i := packets w (targets node ! i) @
          (if length (packets w (targets node ! i)) < Q_SIZE \<and> take (unat k) b \<noteq> [] then [take (unat k) b] else []))"
        using act unfolding Sending Cons pc' by (cases rule: act.cases) simp_all
      show ?thesis
        using queues_weight_put [OF c(2), of "\<lambda>t p. cost t" "packets w" "targets node ! i"
            "length (packets w (targets node ! i)) < Q_SIZE \<and> take (unat k) b \<noteq> []" "take (unat k) b"]
        unfolding q Sending Cons pc' by simp
    qed
  qed (use s in simp_all)
qed

definition energy :: "(qid \<Rightarrow> nat) \<Rightarrow> qid set \<Rightarrow> (nid \<Rightarrow> 'c Node option) \<Rightarrow> conf \<Rightarrow> nat" where
  "energy cost D N c = queue_cost cost D (packets (c_world c)) + (\<Sum>n\<in>dom N. pc_cost cost (the (N n)) (c_pc c n))"

definition sources_left :: "(nid \<Rightarrow> 'c Node option) \<Rightarrow> conf \<Rightarrow> bool" where
  "sources_left N c \<longleftrightarrow> (\<forall>n \<in> dom N. role (c_vars c n) = Source \<longrightarrow> c_pc c n = Left)"

lemma packets_exit: "packets (w\<lparr>w_exit := x\<rparr>) = packets w"
  by (simp add: packets_def fun_eq_iff)

lemma move_lowers:
  assumes "thread_move N (steady S) c c'" "conf_fits D' N c" "calm N c" "sources_left N c"
    and "\<forall>g \<in> ran (graph N (c_vars c)). costs cost D g" "finite D" "finite (dom N)"
  shows "energy cost D N c' < energy cost D N c \<and> sources_left N c'"
proof -
  obtain n node e r where m: "N n = Some node" "steady S e"
    "thread_step node e (c_pc c n) (c_vars c n) (c_world c) = Some r" "c' = moved c n e r"
    using assms(1) unfolding thread_move_def by blast
  obtain pc' v' w' where r: "r = (pc', v', w')" by (metis surj_pair)
  have fits: "world_fits D' (c_world c)" "node_fits D' node" "vars_ok node (c_vars c n)" "pc_ok node (c_pc c n)"
    using assms(2) m(1) by (simp_all add: conf_fits_def)
  have h: "\<forall>q. n_input node = Some q \<longrightarrow> (\<forall>p \<in> set (packets (c_world c) q). harmless (c_vars c n) p)"
    using assms(3) m(1) by (simp add: calm_def)
  have left: "c_pc c n \<noteq> Left" using m(3) by auto
  then have src: "role (c_vars c n) \<noteq> Source" using assms(4) m(1) by (auto simp: sources_left_def)
  have "costs cost D (role (c_vars c n), n_input node, targets node)"
    using bspec [OF assms(5) ranI [of "graph N (c_vars c)" n]] m(1) by (simp add: graph_def)
  note lower = unit_lowers [OF fits src h _ this assms(6)] and acts = thread_step_acts [OF fits(2,1,3,4) h]
  have "queue_cost cost D (packets w') + pc_cost cost node pc' < queue_cost cost D (packets (c_world c)) + pc_cost cost node (c_pc c n)"
    using lower [of e pc' v' w'] m(2,3) r by (simp add: steady_def)
  moreover have "(\<Sum>x\<in>dom N. pc_cost cost (the (N x)) (((c_pc c)(n := pc')) x)) + pc_cost cost node (c_pc c n) =
      (\<Sum>x\<in>dom N. pc_cost cost (the (N x)) (c_pc c x)) + pc_cost cost node pc'"
    using sum_fun_upd [OF assms(7), of "\<lambda>x. pc_cost cost (the (N x))" "c_pc c" n pc'] m(1) by (simp add: domI)
  ultimately have "energy cost D N c' < energy cost D N c"
    using m(4) r by (simp add: energy_def moved_def)
  moreover have "role v' = role (c_vars c n)" using acts [of e pc' v' w'] m(3) r by (simp add: acted_def)
  then have "sources_left N c'" using assms(4) src m(4) r by (auto simp: sources_left_def moved_def)
  ultimately show ?thesis ..
qed

lemma works_lowers:
  assumes "works N (steady S) k c c'" "sound P S D' N c0 c" "well_typed P S N (c_vars c0)" "sources_left N c"
    and "\<forall>g \<in> ran (graph N (c_vars c0)). costs cost D g" "finite D" "finite (dom N)"
  shows "sound P S D' N c0 c' \<and> sources_left N c' \<and> k + energy cost D N c' \<le> energy cost D N c"
  using assms(1,2,4)
proof induction
  case (start c)
  then show ?case by simp
next
  case (signal k c c1)
  then have s: "sound P S D' N c0 c1" "sources_left N c1" "k + energy cost D N c1 \<le> energy cost D N c" by simp_all
  have "sound P S D' N c0 (signalled c1)" using sound_step [OF step.signal] s(1) assms(3) by blast
  then show ?case using s(2,3) by (simp add: sources_left_def energy_def signalled_def packets_exit)
next
  case (unit k c c1 c2)
  then have s: "sound P S D' N c0 c1" "sources_left N c1" "k + energy cost D N c1 \<le> energy cost D N c" by simp_all
  have "step N (hears S) c1 c2" using unit.hyps(2) by (auto simp: thread_move_def steady_def intro: step.thread)
  then have "sound P S D' N c0 c2" using sound_step s(1) assms(3) by blast
  moreover have "calm N c1"
    using s(1) assms(3) by (fastforce simp: sound_def calm_def holds_only_def abstract_def well_typed_def)
  then have "energy cost D N c2 < energy cost D N c1 \<and> sources_left N c2"
    using move_lowers [OF unit.hyps(2) _ _ s(2), of D' cost D] s(1) assms(5-7) by (simp add: sound_def)
  ultimately show ?case using s(3) by simp
qed

text \<open>In runs from an empty start, a node has at most one packet in hand for each of its outputs.\<close>

definition hands_full :: "(nid \<Rightarrow> (role \<times> qid option \<times> qid list) option) \<Rightarrow> net \<Rightarrow> bool" where
  "hands_full G a \<longleftrightarrow> (\<forall>n r i ts. G n = Some (r, i, ts) \<longrightarrow>
     length (a_hand a n) \<le> length ts \<and> (\<forall>(t, p) \<in> set (a_hand a n). t \<in> set ts))"

lemma act_hand:
  assumes "act r i ts (h, s, Q) hs (h', s', Q')" "length h \<le> length ts" "\<forall>(t, p) \<in> set h. t \<in> set ts"
  shows "length h' \<le> length ts \<and> (\<forall>(t, p) \<in> set h'. t \<in> set ts)"
  using assms(1)
proof (cases rule: act.cases)
  case (treat q p ps f)
  then show ?thesis by (auto split: option.split)
next
  case (deal q p ps t)
  then show ?thesis by (cases ts) auto
qed (use assms(2,3) in auto)

lemma runs_hands:
  assumes "abs_runs G a b" "hands_full G a"
  shows "hands_full G b"
  using assms
proof induction
  case (more a b c)
  from more(2) more(3) [OF more(4)] show ?case
  proof cases
    case (node n r i ts hs h s Q)
    then show ?thesis using \<open>hands_full G b\<close> act_hand [OF node(3)] by (fastforce simp: hands_full_def)
  qed simp
qed simp

lemma hand_bound:
  assumes "length h \<le> length ts" "\<forall>(t, p) \<in> set h. t \<in> set ts" "\<forall>t \<in> set ts. cost t + 1 \<le> k"
  shows "hand_weight (\<lambda>t p. cost t + 1) h \<le> k * length ts"
proof -
  have "hand_weight (\<lambda>t p. cost t + 1) h \<le> k * length h"
    using assms(2,3) by (induction h) fastforce+
  also have "\<dots> \<le> k * length ts" using assms(1) by simp
  finally show ?thesis .
qed

text \<open>A thread that cannot move has left its loop or waits at an empty queue.\<close>

lemma turn_blocked:
  assumes "world_fits D w" "node_fits D node" "vars_ok node v" "take_turn node v e w = Taken_blocked"
  shows "\<exists>q. n_input node = Some q \<and> packets w q = []"
proof -
  have i: "world_inv w" "\<forall>q. n_input node = Some q \<longrightarrow> q \<in> dom (w_queues w)"
    using assms(1,2) by (auto simp: world_fits_def node_fits_def)
  have s: "\<not> (\<exists>l. v = V_sniffer l)"
    using assms(4) by (auto simp: take_turn_def sniffer_take_def Let_def split: received.splits if_splits)
  from i show ?thesis
  proof (cases rule: input_queue)
    case none
    then show ?thesis
      using assms(4) s by (cases v) (simp_all add: take_turn_def consumer_take_def dispatcher_take_def sender_take_def sender_body_def)
  next
    case (some q Q p ps)
    have pop: "pop Q b (map (\<lambda>rc. (rc, Q)) (ev_waits e)) = Pop_ret (int (length p)) (p @ drop (length p) b) (drop_first Q)"
      if "length b = MAX_PKG_SIZE" for b
      using pop_first [OF some(3)] some(4) that by simp
    have len: "\<not> int (length p) < 1" "\<not> int (length p) < 0" using some(8) by (auto simp: packet_ok_def)
    show ?thesis
      using assms(3,4) s some(1,2) len
      by (cases v) (auto simp: take_turn_def consumer_take_def dispatcher_take_def sender_take_def sender_body_def vars_ok_def pop
           Let_def split: handled.splits option.splits prod.splits if_splits)
  qed blast
qed

lemma stuck_thread:
  assumes "\<not> (\<exists>c'. thread_move N (steady short) c c')" "conf_fits D N c" "N n = Some node"
  shows "c_pc c n = Left \<or> c_pc c n = Turn \<and> (\<exists>q. n_input node = Some q \<and> packets (c_world c) q = [])"
proof -
  have f: "world_fits D (c_world c)" "node_fits D node" "vars_ok node (c_vars c n)" "pc_ok node (c_pc c n)"
    using assms(2,3) by (simp_all add: conf_fits_def)
  have none: "thread_step node quiet_event (c_pc c n) (c_vars c n) (c_world c) = None"
  proof (rule ccontr)
    assume "thread_step node quiet_event (c_pc c n) (c_vars c n) (c_world c) \<noteq> None"
    then obtain r where "thread_step node quiet_event (c_pc c n) (c_vars c n) (c_world c) = Some r" by blast
    then have "thread_move N (steady short) c (moved c n quiet_event r)"
      using assms(3) quiet_event unfolding thread_move_def by blast
    with assms(1) show False by blast
  qed
  show ?thesis
  proof (cases "c_pc c n")
    case Turn
    with none have "take_turn node (c_vars c n) quiet_event (c_world c) = Taken_blocked" by (auto split: taken.splits)
    from turn_blocked [OF f(1-3) this] Turn show ?thesis by simp
  next
    case (Sending b k js)
    with none show ?thesis by (cases js) (auto split: option.splits)
  qed (use none f(4) in simp_all)
qed

subsection \<open>The VLAN pipeline drains\<close>

definition vlan_cost :: "qid list \<Rightarrow> qid \<Rightarrow> nat" where
  "vlan_cost qs q = (if q = qs ! 0 then 15 else if q = qs ! 1 \<or> q = qs ! 2 then 11 else if q = qs ! 3 then 7 else 3)"

lemma pc_cost_bound:
  assumes "hand_weight (\<lambda>t p. cost t + 1) (hand node pc) \<le> m"
  shows "pc_cost cost node pc \<le> 3 + m"
  using assms by (cases pc) (simp_all add: pc_cost_def)

lemma vlan_energy:
  assumes "vlan_running ks kd rs ns qs junk s" "runs (network s) (hears short) (start_conf junk s) c" "c_pc c (hd ns) = Left"
  shows "energy (vlan_cost qs) (set qs) (network s) c \<le> 47059"
    and "sources_left (network s) c"
    and "\<forall>g \<in> ran (graph (network s) (c_vars (start_conf junk s))). costs (vlan_cost qs) (set qs) g"
proof -
  obtain sn t1 t2 cn se d q0 q1 q2 q3 q4 where v:
    "ns = [sn, t1, t2, cn, se, d]" "qs = [q0, q1, q2, q3, q4]" "distinct [sn, t1, t2, cn, se, d]" "distinct [q0, q1, q2, q3, q4]"
    "dom (network s) = {sn, t1, t2, cn, se, d}"
    "part s junk sn None [q0] (V_sniffer (thread0 (bound_to ks)))"
    "part s junk t1 (Some q1) [q3] (V_tagger ((tagger_context rs, fst junk), snd junk))"
    "part s junk t2 (Some q2) [q3] (V_tagger ((tagger_context rs, fst junk), snd junk))"
    "part s junk cn (Some q3) [q4] (V_counter (no_packets 10, replicate ETHERNET_FRAME_LENGTH 0))"
    "part s junk se (Some q4) [] (V_sender (thread0 (bound_to kd)))"
    "part s junk d (Some q0) [q1, q2] (V_dispatcher (\<lparr>strategy = DISPATCH_ROUND_ROBIN, next_index = 0, packets_sent = 0\<rparr>,
       replicate ETHERNET_FRAME_LENGTH 0))"
    by (rule vlan_parts [OF assms(1)]) blast
  let ?N = "network s" and ?c0 = "start_conf junk s" and ?G = "graph (network s) (c_vars (start_conf junk s))"
  note st = vlan_start [OF assms(1)]
  have so: "sound (before_tagging qs) short (all_queues s) ?N ?c0 c"
    using runs_sound [OF assms(2) st(1,2) _ st(3)] by (simp add: start_conf_def)
  have G: "?G sn = Some (Source, None, [q0])" "?G t1 = Some (Transform (tagger_out (tagger_context rs)), Some q1, [q3])"
    "?G t2 = Some (Transform (tagger_out (tagger_context rs)), Some q2, [q3])" "?G cn = Some (Transform Some, Some q3, [q4])"
    "?G se = Some (Sink, Some q4, [])" "?G d = Some (Spread, Some q0, [q1, q2])"
    using v(6-11) by (simp_all add: graph_def part_def start_conf_def role_def)
  have domG: "?G n = Some g \<Longrightarrow> n \<in> {sn, t1, t2, cn, se, d}" for n g
    unfolding v(5) [symmetric] by (auto simp: graph_def)
  show "\<forall>g \<in> ran ?G. costs (vlan_cost qs) (set qs) g"
  proof
    fix g assume "g \<in> ran ?G"
    then obtain n where n: "?G n = Some g" by (auto simp: ran_def)
    from domG [OF n] show "costs (vlan_cost qs) (set qs) g"
      using n G v(2,4) by (auto simp: costs_def vlan_cost_def)
  qed
  have gc: "graph ?N (c_vars c) = ?G" using so by (simp add: sound_def)
  have r: "?N n = Some node \<Longrightarrow> role (c_vars c n) = fst (the (?G n))" for n node
    unfolding gc [symmetric] by (simp add: graph_def)
  show "sources_left ?N c"
    using r v(3,5) G assms(3) v(1) by (fastforce simp: sources_left_def)
  have "hands_full ?G (abstract ?N ?c0)"
    by (auto simp: hands_full_def abstract_def start_conf_def split: option.split)
  then have hf: "hands_full ?G (abstract ?N c)" using runs_hands so by (auto simp: sound_def)
  have h: "pc_cost (vlan_cost qs) (the_node s n) (c_pc c n) \<le> 3 + k * length ts"
    if "?G n = Some (r, i, ts)" "?N n = Some (the_node s n)" "\<forall>t \<in> set ts. vlan_cost qs t + 1 \<le> k" for n r i ts k
  proof -
    have "a_hand (abstract ?N c) n = hand (the_node s n) (c_pc c n)" using that(2) by (simp add: abstract_def)
    then have "length (hand (the_node s n) (c_pc c n)) \<le> length ts" "\<forall>(t, p) \<in> set (hand (the_node s n) (c_pc c n)). t \<in> set ts"
      using hf that(1) unfolding hands_full_def by (metis (no_types, lifting))+
    then show ?thesis by (intro pc_cost_bound hand_bound that(3))
  qed
  have N: "?N sn = Some (the_node s sn)" "?N t1 = Some (the_node s t1)" "?N t2 = Some (the_node s t2)"
    "?N cn = Some (the_node s cn)" "?N se = Some (the_node s se)" "?N d = Some (the_node s d)"
    using v(6-11) by (simp_all add: part_def)
  have co: "vlan_cost qs q0 = 15" "vlan_cost qs q1 = 11" "vlan_cost qs q2 = 11" "vlan_cost qs q3 = 7" "vlan_cost qs q4 = 3"
    using v(2,4) by (auto simp: vlan_cost_def)
  have "pc_cost (vlan_cost qs) (the_node s t1) (c_pc c t1) \<le> 11" "pc_cost (vlan_cost qs) (the_node s t2) (c_pc c t2) \<le> 11"
    "pc_cost (vlan_cost qs) (the_node s cn) (c_pc c cn) \<le> 7" "pc_cost (vlan_cost qs) (the_node s se) (c_pc c se) \<le> 3"
    "pc_cost (vlan_cost qs) (the_node s d) (c_pc c d) \<le> 27"
    using h [OF G(2) N(2), of 8] h [OF G(3) N(3), of 8] h [OF G(4) N(4), of 4] h [OF G(5) N(5), of 0] h [OF G(6) N(6), of 12] co
    by simp_all
  moreover have "pc_cost (vlan_cost qs) (the_node s sn) (c_pc c sn) = 0" using assms(3) v(1) by simp
  ultimately have "(\<Sum>n\<in>dom ?N. pc_cost (vlan_cost qs) (the (?N n)) (c_pc c n)) \<le> 59"
    using v(3) N unfolding v(5) by simp
  moreover have "queue_cost (vlan_cost qs) (set qs) (packets (c_world c)) \<le> 47000"
  proof -
    have "world_inv (c_world c)" using so by (simp add: sound_def conf_fits_def world_fits_def)
    then have "length (packets (c_world c) q) \<le> 1000" for q using packets_length by (simp add: Q_SIZE_def)
    from this [of q0] this [of q1] this [of q2] this [of q3] this [of q4] show ?thesis
      using v(4) unfolding v(2) by (simp add: queues_weight_def co [unfolded v(2)] sum_list_triv)
  qed
  ultimately show "energy (vlan_cost qs) (set qs) ?N c \<le> 47059" by (simp add: energy_def)
qed

lemma vlan_drains:
  assumes "vlan_running ks kd rs ns qs junk s" "runs (network s) (steady short) (start_conf junk s) c" "c_pc c (hd ns) = Left"
    and "works (network s) (steady short) k c c'"
  shows "k \<le> 47059 \<and> (\<not> (\<exists>c''. thread_move (network s) (steady short) c' c'') \<longrightarrow>
    (\<forall>n \<in> set (tl ns). c_pc c' n = Left \<or> c_pc c' n = Turn \<and> (\<exists>q. n_input (the_node s n) = Some q \<and> packets (c_world c') q = [])))"
proof -
  note st = vlan_start [OF assms(1)] and r = steady_runs [OF assms(2)]
  note en = vlan_energy [OF assms(1) r assms(3)]
  have so: "sound (before_tagging qs) short (all_queues s) (network s) (start_conf junk s) c"
    using runs_sound [OF r st(1,2) _ st(3)] by (simp add: start_conf_def)
  from works_lowers [OF assms(4) so st(3) en(2,3) finite_set vlan_bounds(3) [OF assms(1)]]
  have w: "sound (before_tagging qs) short (all_queues s) (network s) (start_conf junk s) c'"
    "k + energy (vlan_cost qs) (set qs) (network s) c' \<le> energy (vlan_cost qs) (set qs) (network s) c" by simp_all
  have "network s n = Some (the_node s n)" if "n \<in> set (tl ns)" for n
    by (rule vlan_parts [OF assms(1)]; use that in \<open>auto simp: part_def\<close>)
  then have "\<forall>n \<in> set (tl ns). c_pc c' n = Left \<or> c_pc c' n = Turn \<and>
      (\<exists>q. n_input (the_node s n) = Some q \<and> packets (c_world c') q = [])"
    if "\<not> (\<exists>c''. thread_move (network s) (steady short) c' c'')"
    using stuck_thread [OF that] w(1) unfolding sound_def by blast
  moreover have "k \<le> 47059" using w(2) en(1) by simp
  ultimately show ?thesis by blast
qed

end
