(* ===== verification/Spec2Isabelle.thy ===== *)
theory Spec2Isabelle
  imports Delivery Draining
begin

text \<open>
  vlan_tagger: a verification development of the daemon that receives Ethernet frames on one interface,
  keeps those whose IPv4 destination lies in a range of its configuration file, puts an 802.1Q tag with
  the VLAN id of the range into them and transmits them on a second interface.

  \<^bold>\<open>The program.\<close> \<open>main\<close> checks its two arguments, forks, opens the log, loads the rules, builds the
  pipeline of pipeline_patterns/patterns.c and joins its threads. The pipeline is a graph of nodes, each
  with a thread of its own, connected by bounded queues:
  sniffer, dispatcher (round-robin), two taggers, packet counter, sender. A node takes a packet from its one
  input queue with \<open>pop\<close>, treats it and pushes the result to each of its output queues. A full queue refuses
  a packet, which is then lost; an empty one makes \<open>pop\<close> wait. Signals set the exit flag, which each
  loop tests at its beginning.

  \<^bold>\<open>Theories and sources.\<close>
  \<^item> Base (common.h) and C_Lib: bytes, words, \<open>memcpy\<close> with its bounds, byte order; the functions of the C
    library that the program calls (\<open>strtol\<close>, \<open>strtok_r\<close>, \<open>inet_aton\<close>, \<open>fgets\<close>, ...).
  \<^item> Config_Parser (config_parser/config_parser.c, .h): \<open>tag_rules_load\<close> down to the scans of the
    100-byte line buffer, and the overlap check \<open>validate_rules\<close>. What it accepts satisfies
    \<open>well_formed_rules\<close>; its results on every path; where it stays in its memory and where it does not.
    Config_Text writes a rules file and proves that reading it gives the table back.
  \<^item> Packet_Queue (queue/queue.c, .h): the ring, its invariant, and the locales \<open>fifo\<close> and \<open>bounded_fifo\<close>,
    of which the ring is an interpretation; a history of pushes and pops is that of a bounded FIFO list.
  \<^item> Logger (logger/logger.c, .h): what a message appends, its error paths, its mutex.
  \<^item> Node_Core (pipeline/node.c, .h): nodes, the heap of queues, \<open>node_send_to_outputs\<close>, the loop that all
    consumers share, and the locale \<open>packet_handler\<close>: what a loop does when one packet is treated by a
    function that keeps its invariant. Tagger_Node, Ip_Modifier_Node, Forwarding_Nodes and Logger_Node
    (nodes/src/, same names) interpret it; Dispatcher_Node and Socket_Nodes (socket_utils.c, sniffer_node.c,
    sender_node.c) have loops of their own. Each has its \<open>create\<close>, one turn of the loop (\<open>body\<close>) and the whole
    thread function (\<open>process\<close>); the theorems give what a list of packets becomes.
  \<^item> Pipeline (pipeline/pipeline.c, .h): a heap of nodes and queues with the invariant \<open>sys_inv\<close>. Wiring: the
    connecting operations refine the addition of edges to a graph (\<open>topology\<close>).
  \<^item> Patterns (pipeline_patterns/) and Main_Program (main.c): which graph is built, what is
    left behind when something fails, how every path of \<open>main\<close> ends.
  \<^item> Threads, Network, Running, Delivery, Draining and this theory: the threads that are running then.

  \<^bold>\<open>Interleaving.\<close> The nodes' theories treat a thread as if it ran alone. Threads cuts the same code into its
  units: the test of the flag, taking a packet with its treatment (all of it local to the thread), and
  each push. A queue's operations hold its mutex, so that a unit is atomic; \<open>step\<close> lets any thread do
  a unit or a signal set the flag. \<open>turn_alone\<close> proves that the units of an uninterrupted turn are the turn
  of the node's theory. What the world decides in a unit (the result of \<open>recv\<close>, \<open>send\<close> and \<open>rand\<close>, the clock, wake-ups
  without a packet) is an \<open>event\<close>; the theorems restrict events by a predicate: \<open>hears short\<close> bounds the frames
  received by 1518 bytes and allows everything else, \<open>steady\<close> says besides that no system call fails.
  Network is the abstract specification: FIFO lists and roles; \<open>network_refines\<close> the simulation. Weights on the
  abstract network, in Running chosen for the VLAN pipeline, show that nothing is invented,
  duplicated or sent elsewhere (\<open>vlan_delivers\<close>); Delivery follows frames along their path (\<open>vlan_passes\<close>); an
  energy that each unit of work lowers shows that the pipeline drains (\<open>vlan_drains\<close>). The theorems
  below apply this to what \<open>main\<close> has built from the loaded file.

  \<^bold>\<open>Bounds.\<close> A queue has 1000 slots of up to 1522 bytes, a node up to 16 outputs, a pipeline up to 32 nodes and
  64 queues, a configuration up to 128 rules; all are the code's constants. The tagger's output buffer has 1522
  bytes too, so that a frame of more than 1518 bytes would overrun it: hence the bound on received frames.
  The number 47059 is the energy of five full queues and five threads with a packet in hand. No definition has
  fuel: loops that the code bounds are structural or have a measure, a thread's loop is a function of the list of
  the events of its turns and the \<open>steps\<close> of the running pipeline are an inductive relation.

  \<^bold>\<open>Not modelled.\<close> Output to the standard streams; the tests, scripts and build files; the stack limit that
  \<open>setrlimit\<close> sets; the memory model below the mutexes (the exit flag is a plain \<^verbatim>\<open>int\<close>
  that a handler writes); in the interleaved model the messages that a thread logs before and after its loop
  (they are in the \<open>process\<close> functions). The kernel and the C library's decisions are arguments throughout. The
  checks for null pointers that no caller can trigger are left out.
\<close>

subsection \<open>The daemon as a whole\<close>

text \<open>
  A start in which nothing fails: the arguments are two interfaces that are up, all calls of the system
  succeed, the configuration file loads as the table \<open>rs\<close> with at least one rule, and nothing is running
  yet; the threads that \<open>main\<close> joins do not end. In \<open>junk\<close> is what the two buffers of a tagger hold.
\<close>

definition nothing_fails :: "env \<Rightarrow> tag_rules_t \<Rightarrow> byte list \<times> byte list \<Rightarrow> Host \<Rightarrow> bool" where
  "nothing_fails e rs junk h \<longleftrightarrow>
     length (e_argv e) = 3 \<and> e_fork e = 0 \<and> 0 \<le> e_setsid e \<and> e_log e \<and> e_rlimit e \<and> False \<notin> set (e_signals e) \<and>
     tag_rules_load (e_fs e) (Some zero_rules) (Some DEFAULT_CONFIG_PATH) = Some (int (rules_size rs), Some rs) \<and>
     0 < rules_size rs \<and> interface_up (e_src e) (e_argv e ! 1) \<and> interface_up (e_dst e) (e_argv e ! 2) \<and>
     False \<notin> set (e_creates e) \<and> building (h_sys h) \<and> s_nodes (h_sys h) = Map.empty \<and> e_join e = (\<lambda>n w. None) \<and>
     length (fst junk) = 1522 \<and> length (snd junk) = 1522"

text \<open>What \<open>main\<close> leaves running then.\<close>

lemma daemon_running:
  assumes "nothing_fails e rs junk h"
  obtains h' ns qs where "main e h = Blocked_in h'" "p_nodes (s_pipeline (h_sys h')) = ns" "length ns = 6"
    "\<not> w_exit (s_world (h_sys h'))" "vlan_running (e_src e) (e_dst e) rs ns qs junk (h_sys h')"
proof -
  have "\<exists>h' ns qs. main e h = Blocked_in h' \<and> building (h_sys h') \<and> \<not> w_exit (s_world (h_sys h')) \<and>
    vlan_graph (e_src e) (e_dst e) rs ns qs (topology (h_sys h')) \<and> (\<forall>n \<in> set ns. n_thread (the_node (h_sys h') n))"
    by (rule main_starts [of e "rules_size rs" rs h]; use assms in \<open>simp add: nothing_fails_def\<close>)
  then obtain h' ns qs where m: "main e h = Blocked_in h'" "building (h_sys h')" "\<not> w_exit (s_world (h_sys h'))"
    "vlan_graph (e_src e) (e_dst e) rs ns qs (topology (h_sys h'))" "\<forall>n \<in> set ns. n_thread (the_node (h_sys h') n)"
    by blast
  with assms show ?thesis by (intro that [of h' ns qs]) (simp_all add: vlan_running_def vlan_graph_def nothing_fails_def)
qed

text \<open>
  C1: What the daemon puts on the wire. Once \<open>main\<close> has started the pipeline without failures, let
  the six threads run in any interleaving, with signals at any time, and let the source interface
  deliver frames of at most 1518 bytes. No thread ever leaves its memory; each transmitted frame is a
  received frame with an IPv4 destination in one of the loaded rules, with the VLAN tag of the first such
  rule inserted, transmitted at most as often as it was received; and no transmitted frame has 1518
  bytes, so that a received frame of 1514 bytes, the full size, never gets through.
\<close>

theorem daemon_delivers:
  assumes "nothing_fails e rs junk h"
  shows "\<exists>h' ns. main e h = Blocked_in h' \<and> p_nodes (s_pipeline (h_sys h')) = ns \<and> length ns = 6 \<and>
    (\<forall>c. runs (network (h_sys h')) (hears short) (start_conf junk (h_sys h')) c \<longrightarrow>
       (\<forall>n \<in> set ns. c_pc c n \<noteq> Crashed) \<and>
       mset (sent_by (c_vars c (ns ! 4))) \<subseteq># mset (List.map_filter (tagger_out (tagger_context rs)) (c_sniffed c)) \<and>
       (\<forall>p \<in> set (sent_by (c_vars c (ns ! 4))). length p < 1518))"
proof -
  obtain h' ns qs where h: "main e h = Blocked_in h'" "p_nodes (s_pipeline (h_sys h')) = ns" "length ns = 6"
    "vlan_running (e_src e) (e_dst e) rs ns qs junk (h_sys h')"
    by (rule daemon_running [OF assms])
  with vlan_delivers [OF h(4)] show ?thesis by blast
qed

text \<open>
  C2: The daemon can do its job. Whatever frames of 1 to 1518 bytes arrive, there is a run in which the
  sniffer receives them and the sender transmits, in their order, the tagged frame of each one that a rule
  selects, except those that the tag makes 1518 bytes or longer.
\<close>

theorem daemon_passes_frames:
  assumes "nothing_fails e rs junk h" "\<forall>p \<in> set ps. 0 < length p \<and> length p \<le> 1518"
  shows "\<exists>h' ns c. main e h = Blocked_in h' \<and> p_nodes (s_pipeline (h_sys h')) = ns \<and> length ns = 6 \<and>
    runs (network (h_sys h')) (steady short) (start_conf junk (h_sys h')) c \<and> c_sniffed c = ps \<and>
    sent_by (c_vars c (ns ! 4)) = filter (\<lambda>p. length p < 1518) (List.map_filter (tagger_out (tagger_context rs)) ps)"
proof -
  obtain h' ns qs where h: "main e h = Blocked_in h'" "p_nodes (s_pipeline (h_sys h')) = ns" "length ns = 6"
    "\<not> w_exit (s_world (h_sys h'))" "vlan_running (e_src e) (e_dst e) rs ns qs junk (h_sys h')"
    by (rule daemon_running [OF assms(1)])
  with vlan_passes [OF h(5,4) assms(2)] show ?thesis by blast
qed


text \<open>
  C3: The pipeline drains. From any reachable state in which the sniffer has left its loop, the other
  five threads do at most 47059 units of work, whatever their order and however full the queues are; and when
  none of them can move any more, each has left its loop or waits in \<open>pop\<close> at an empty queue.
\<close>

theorem daemon_drains:
  assumes "nothing_fails e rs junk h"
  shows "\<exists>h' ns. main e h = Blocked_in h' \<and> p_nodes (s_pipeline (h_sys h')) = ns \<and> length ns = 6 \<and>
    (\<forall>c c' k. runs (network (h_sys h')) (steady short) (start_conf junk (h_sys h')) c \<longrightarrow> c_pc c (hd ns) = Left \<longrightarrow>
       works (network (h_sys h')) (steady short) k c c' \<longrightarrow>
       k \<le> 47059 \<and>
       (\<not> (\<exists>c''. thread_move (network (h_sys h')) (steady short) c' c'') \<longrightarrow>
        (\<forall>n \<in> set (tl ns). c_pc c' n = Left \<or>
           c_pc c' n = Turn \<and> (\<exists>q. n_input (the_node (h_sys h') n) = Some q \<and> packets (c_world c') q = []))))"
proof -
  obtain h' ns qs where h: "main e h = Blocked_in h'" "p_nodes (s_pipeline (h_sys h')) = ns" "length ns = 6"
    "vlan_running (e_src e) (e_dst e) rs ns qs junk (h_sys h')"
    by (rule daemon_running [OF assms])
  with vlan_drains [OF h(4)] show ?thesis by blast
qed

subsection \<open>A start in which nothing fails\<close>

text \<open>The configuration of the examples, and interfaces that are up.\<close>

abbreviation zero_buffers :: "byte list \<times> byte list" where
  "zero_buffers \<equiv> (replicate 1522 0, replicate 1522 0)"

lemma good_daemon: "nothing_fails (good_env example_fs) example_table zero_buffers start_host"
  using good_kernel example_load start_host(1) start_sys(4)
  by (simp add: nothing_fails_def good_env_def DEFAULT_CONFIG_PATH_def example_table_def start_host_def)

lemma daemon_delivers_witness:
  "\<exists>h' n. main (good_env example_fs) start_host = Blocked_in h' \<and>
    (\<forall>c. runs (network (h_sys h')) (hears short) (start_conf zero_buffers (h_sys h')) c \<longrightarrow>
       (\<forall>p \<in> set (sent_by (c_vars c n)). length p < 1518))"
  using daemon_delivers [OF good_daemon] by blast

lemma tagger_context_example: "tagger_context example_table = Tagger_Node.example_ctx"
  by (simp add: tagger_context_def example_table_def Tagger_Node.example_ctx_def copy_rule_def example_rules_def upt_rec)

text \<open>The frame to 10.0.0.5 is sent with VLAN 100, the frame to 10.0.1.5 is not sent.\<close>

lemma daemon_passes_frames_witness:
  "\<exists>h' n c. main (good_env example_fs) start_host = Blocked_in h' \<and>
    runs (network (h_sys h')) (steady short) (start_conf zero_buffers (h_sys h')) c \<and>
    c_sniffed c = [example_frame, other_frame] \<and> sent_by (c_vars c n) = [tag_frame 100 example_frame]"
proof -
  have "\<forall>p \<in> set [example_frame, other_frame]. 0 < length p \<and> short p"
    by (simp add: example_frame_def other_frame_def)
  from daemon_passes_frames [OF good_daemon this] show ?thesis
    by (auto simp: map_filter_simps tagger_context_example tagger_out_frames)
qed


lemma daemon_drains_witness:
  "\<exists>h' n. main (good_env example_fs) start_host = Blocked_in h' \<and>
    (\<forall>c c' k. runs (network (h_sys h')) (steady short) (start_conf zero_buffers (h_sys h')) c \<longrightarrow> c_pc c n = Left \<longrightarrow>
       works (network (h_sys h')) (steady short) k c c' \<longrightarrow> k \<le> 47059)"
  using daemon_drains [OF good_daemon] by blast

lemma network_refines_witness:
  "\<exists>s c. abs_runs (graph (network s) (c_vars (start_conf zero_buffers s))) (abstract (network s) (start_conf zero_buffers s))
      (abstract (network s) c) \<and> w_exit (c_world c) \<and> (\<forall>n \<in> dom (network s). c_pc c n \<noteq> Crashed)"
proof -
  obtain h' :: Host and ns qs where h: "\<not> w_exit (s_world (h_sys h'))"
    "vlan_running (e_src (good_env example_fs)) (e_dst (good_env example_fs)) example_table ns qs zero_buffers (h_sys h')"
    by (rule daemon_running [OF good_daemon])
  obtain c where c: "runs (network (h_sys h')) (steady short) (start_conf zero_buffers (h_sys h')) c" "w_exit (c_world c)"
    using vlan_idle_signal [OF h(2,1)] by blast
  note s = vlan_start [OF h(2)]
  show ?thesis
    using network_refines [OF steady_runs [OF c(1)] s(1,2) _ s(3)] c(2) by (auto simp: start_conf_def)
qed

end
